(* ===== verification/Prelude.thy ===== *)
theory Prelude
  imports Main "HOL-Library.Word"
begin

section \<open>Types, results and collections shared by the kernel's components\<close>

text \<open>
  The integer types of \<^verbatim>\<open>include/type.h\<close>, the result type of a kernel routine, and the
  generic facts on words and lists that several components use.

  A C integer is a word of its width. The signed types \<^verbatim>\<open>t_8\<close>, \<^verbatim>\<open>t_16\<close>, \<^verbatim>\<open>t_32\<close> are the same
  words, read through \<open>sint\<close> or compared with \<open><s\<close> where the source compares signed values.
\<close>

unbundle bit_operations_syntax

type_synonym u8 = "8 word"
type_synonym u16 = "16 word"
type_synonym u32 = "32 word"
type_synonym t8 = "8 word"
type_synonym t16 = "16 word"
type_synonym t32 = "32 word"

text \<open>
  How a routine can fail to return. \<open>Hang\<close> is an explicit \<^verbatim>\<open>while (1);\<close> of the source,
  \<open>Fault\<close> is an access outside the object the code indexes (undefined behaviour in C) or a
  processor fault, and \<open>NoFuel\<close> is a loop or a recursion that did not end within the fuel given to
  the model.
\<close>

datatype stop = Hang string | Fault string | NoFuel

type_synonym 's outcome = "stop + 's"

text \<open>Sequencing: a routine that does not return stops everything after it.\<close>

definition andThen :: "stop + 'a \<Rightarrow> ('a \<Rightarrow> stop + 'b) \<Rightarrow> stop + 'b" where
  "andThen m f = (case m of Inl e \<Rightarrow> Inl e | Inr x \<Rightarrow> f x)"

lemma andThen_simps [simp]:
  "andThen (Inl e) f = Inl e"
  "andThen (Inr x) f = f x"
  by (simp_all add: andThen_def)

lemma andThen_eq_Inr [simp]:
  "(andThen m f = Inr y) \<longleftrightarrow> (\<exists>x. m = Inr x \<and> f x = Inr y)"
  by (cases m) auto

lemma andThen_eq_Inl:
  "(andThen m f = Inl e) \<longleftrightarrow> (m = Inl e \<or> (\<exists>x. m = Inr x \<and> f x = Inl e))"
  by (cases m) auto

lemma andThen_cong [fundef_cong]:
  "m = m' \<Longrightarrow> (\<And>x. m' = Inr x \<Longrightarrow> f x = f' x) \<Longrightarrow> andThen m f = andThen m' f'"
  by (cases m') auto

lemma andThen_assoc: "andThen (andThen m f) g = andThen m (\<lambda>x. andThen (f x) g)"
  by (cases m) auto

text \<open>A loop over a list of a body that may not return.\<close>

primrec each :: "('a \<Rightarrow> 's \<Rightarrow> 's outcome) \<Rightarrow> 'a list \<Rightarrow> 's \<Rightarrow> 's outcome" where
  "each f [] s = Inr s"
| "each f (x # xs) s = andThen (f x s) (each f xs)"

lemma each_append: "each f (xs @ ys) s = andThen (each f xs s) (each f ys)"
proof (induction xs arbitrary: s)
  case (Cons x xs)
  then have "each f (xs @ ys) = (\<lambda>s. andThen (each f xs s) (each f ys))" by (simp add: fun_eq_iff)
  then show ?case by (simp add: andThen_assoc)
qed simp

lemma each_invariant:
  assumes "each f xs s = Inr s'" and "P s" and "\<And>x s s'. x \<in> set xs \<Longrightarrow> P s \<Longrightarrow> f x s = Inr s' \<Longrightarrow> P s'"
  shows "P s'"
  using assms
proof (induction xs arbitrary: s)
  case (Cons x xs)
  then obtain t where t: "f x s = Inr t" "each f xs t = Inr s'" by auto
  from Cons.prems(2,3) t(1) have "P t" by (metis list.set_intros(1))
  with Cons.IH [OF t(2)] Cons.prems(3) show ?case by (metis list.set_intros(2))
qed simp

text \<open>Collections: frame facts of the operations, and word-to-number conversions.\<close>

named_theorems frame \<open>what an operation leaves unchanged\<close>
named_theorems word_nat \<open>words of the model read as natural numbers\<close>

subsection \<open>Words\<close>

lemma unat_plus_small:
  "unat (a :: 'a::len word) + unat b < 2 ^ LENGTH('a) \<Longrightarrow> unat (a + b) = unat a + unat b"
  by (simp add: unat_word_ariths)

lemma unat_minus_small: "b \<le> a \<Longrightarrow> unat (a - b) = unat a - unat (b :: 'a::len word)"
  by (simp add: unat_sub)

lemma unat_mod_u32 [word_nat]: "unat ((a :: u32) mod b) = unat a mod unat b"
  by (rule unat_mod)

lemma unat_lt_u8: "unat (x :: u8) < 256"
  using unsigned_less [of x] by simp

lemma unat_lt_u16: "unat (x :: u16) < 65536"
  using unsigned_less [of x] by simp

lemma unat_lt_u32: "unat (x :: u32) < 4294967296"
  using unsigned_less [of x] by simp

lemma unat_of_nat_u8 [word_nat]: "n < 256 \<Longrightarrow> unat (of_nat n :: u8) = n"
  by (simp add: unsigned_of_nat take_bit_nat_eq_self_iff)

lemma unat_of_nat_u32 [word_nat]: "n < 4294967296 \<Longrightarrow> unat (of_nat n :: u32) = n"
  by (simp add: unsigned_of_nat take_bit_nat_eq_self_iff)

lemma unat_ucast_up_u8 [word_nat]: "unat (ucast (x :: u8) :: u32) = unat x"
  using unat_lt_u8 [of x] by (simp add: unsigned_ucast_eq take_bit_nat_eq_self_iff)

lemma unat_ucast_up_u16 [word_nat]: "unat (ucast (x :: u16) :: u32) = unat x"
  using unat_lt_u16 [of x] by (simp add: unsigned_ucast_eq take_bit_nat_eq_self_iff)

text \<open>The constant masks of the source are truncations, which the bitwise simplifier knows.\<close>

lemma and_mask_take_bit:
  fixes x :: "'a::len word"
  shows "x AND 0x7 = take_bit 3 x" "x AND 0xF = take_bit 4 x" "x AND 0x7F = take_bit 7 x" "x AND 0xFF = take_bit 8 x"
    "x AND 0x3FF = take_bit 10 x" "x AND 0xFFF = take_bit 12 x" "x AND 0xFFFF = take_bit 16 x"
    "x AND 0x3FFFFF = take_bit 22 x"
  by (simp_all add: take_bit_eq_mask mask_eq_exp_minus_1)

subsection \<open>Lists and folds\<close>

lemma fold_invariant:
  "P s \<Longrightarrow> (\<And>x s. x \<in> set xs \<Longrightarrow> P s \<Longrightarrow> P (f x s)) \<Longrightarrow> P (fold f xs s)"
  by (induction xs arbitrary: s) auto

lemma fold_commute_view:
  assumes "\<And>x s. P s \<Longrightarrow> v (f x s) = g x (v s)" and "\<And>x s. P s \<Longrightarrow> P (f x s)" and "P s"
  shows "v (fold f xs s) = fold g xs (v s)"
  using assms(3) by (induction xs arbitrary: s) (simp_all add: assms(1,2))

end
