(* ===== verification/Io.thy ===== *)
theory Io
  imports Prelude
begin

section \<open>Port input and output\<close>

text \<open>
  The primitives of \<^verbatim>\<open>lib/klib.asm\<close> that talk to the hardware. The devices themselves are not part
  of the program: what a port returns is a parameter \<open>dev\<close> of the model, a function of everything
  that was written to and read from the ports before (newest first) and of the port. Every read and
  write is recorded in the trace, so a theorem about a driver can say which bytes reached which port
  in which order. The processor's interrupt flag is part of the state.
\<close>

datatype io_event =
    Out u32 u8
  | In u32
  | OutWords u32 "u8 list"
  | InWords u32 nat

type_synonym device = "io_event list \<Rightarrow> u32 \<Rightarrow> u8"

record io =
  trace :: "io_event list"
  int_flag :: bool

definition outByte :: "u32 \<Rightarrow> u8 \<Rightarrow> 'a io_scheme \<Rightarrow> 'a io_scheme" where
  "outByte port v s = s\<lparr>trace := Out port v # trace s\<rparr>"

definition inByte :: "device \<Rightarrow> u32 \<Rightarrow> 'a io_scheme \<Rightarrow> u8 \<times> 'a io_scheme" where
  "inByte dev port s = (dev (trace s) port, s\<lparr>trace := In port # trace s\<rparr>)"

definition disableInt :: "'a io_scheme \<Rightarrow> 'a io_scheme" where
  "disableInt s = s\<lparr>int_flag := False\<rparr>"

definition enableInt :: "'a io_scheme \<Rightarrow> 'a io_scheme" where
  "enableInt s = s\<lparr>int_flag := True\<rparr>"

text \<open>
  \<open>portRead\<close> (\<^verbatim>\<open>rep insw\<close>) and \<open>portWrite\<close> (\<^verbatim>\<open>rep outsw\<close>): \<open>nr\<close> words, that is \<open>2 * nr\<close>
  bytes, between a port and memory. \<open>bulk\<close> is the data the device delivers, \<open>mem\<close> the bytes of memory.
  \<open>portWrite\<close> loads the address of the buffer into EDI, but \<^verbatim>\<open>outsw\<close> reads from ESI: what it sends lies at
  the address \<open>esi\<close> that happens to be in that register, and the argument \<open>buf\<close> has no effect.
\<close>

type_synonym bulk_device = "io_event list \<Rightarrow> u32 \<Rightarrow> nat \<Rightarrow> u8"

definition portRead :: "bulk_device \<Rightarrow> u32 \<Rightarrow> nat \<Rightarrow> 'a io_scheme \<Rightarrow> u8 list \<times> 'a io_scheme" where
  "portRead bulk port nr s =
     (map (bulk (trace s) port) [0..<2 * nr], s\<lparr>trace := InWords port nr # trace s\<rparr>)"

definition portWrite :: "(u32 \<Rightarrow> u8) \<Rightarrow> u32 \<Rightarrow> u32 \<Rightarrow> u32 \<Rightarrow> nat \<Rightarrow> 'a io_scheme \<Rightarrow> 'a io_scheme" where
  "portWrite mem esi port buf nr s =
     s\<lparr>trace := OutWords port (map (\<lambda>i. mem (esi + of_nat i)) [0..<2 * nr]) # trace s\<rparr>"

text \<open>
  \<open>enableIrq\<close> and \<open>disableIrq\<close> of \<^verbatim>\<open>lib/klib.asm\<close>: clear or set the mask bit of a line at the
  master (lines below 8) or slave 8259.
\<close>

abbreviation (input) INT_M_CTLMASK :: u32 where "INT_M_CTLMASK \<equiv> 0x21"
abbreviation (input) INT_S_CTLMASK :: u32 where "INT_S_CTLMASK \<equiv> 0xA1"

definition enableIrq :: "device \<Rightarrow> nat \<Rightarrow> 'a io_scheme \<Rightarrow> 'a io_scheme" where
  "enableIrq dev irq s =
     (let port = (if irq < 8 then INT_M_CTLMASK else INT_S_CTLMASK);
          (al, s1) = inByte dev port s
      in outByte port (al AND NOT (push_bit (irq mod 8) 1)) s1)"

definition disableIrq :: "device \<Rightarrow> nat \<Rightarrow> 'a io_scheme \<Rightarrow> 'a io_scheme" where
  "disableIrq dev irq s =
     (let port = (if irq < 8 then INT_M_CTLMASK else INT_S_CTLMASK);
          ah = push_bit (irq mod 8) 1;
          (al, s1) = inByte dev port s
      in if al AND ah \<noteq> 0 then s1 else outByte port (al OR ah) s1)"

text \<open>The bytes the kernel wrote to one port, oldest first.\<close>

fun written :: "u32 \<Rightarrow> io_event list \<Rightarrow> u8 list" where
  "written p [] = []"
| "written p (Out q v # es) = written p es @ (if q = p then [v] else [])"
| "written p (_ # es) = written p es"

lemmas io_defs = outByte_def inByte_def disableInt_def enableInt_def portRead_def portWrite_def

lemma io_more [frame]:
  "io.more (outByte p v s) = io.more s"
  "io.more (snd (inByte dev p s)) = io.more s"
  "io.more (disableInt s) = io.more s"
  "io.more (enableInt s) = io.more s"
  "io.more (enableIrq dev i s) = io.more s"
  "io.more (disableIrq dev i s) = io.more s"
  by (simp_all add: io_defs enableIrq_def disableIrq_def Let_def)

lemma int_flag_simps [simp]:
  "int_flag (enableInt s) = True"
  "int_flag (disableInt s) = False"
  "int_flag (outByte p v s) = int_flag s"
  "trace (outByte p v s) = Out p v # trace s"
  "trace (enableInt s) = trace s"
  "trace (disableInt s) = trace s"
  by (simp_all add: io_defs)

end
