(* ===== verification/Protect.thy ===== *)
theory Protect
  imports Io
begin

section \<open>Protected mode: descriptors, gates, task state segments, interrupt controllers\<close>

text \<open>
  \<^verbatim>\<open>kernel/protect.c\<close> with \<^verbatim>\<open>include/protect.h\<close> and \<^verbatim>\<open>include/int.h\<close>: the layout of segment and gate
  descriptors, the routines that pack and unpack them, the task state segment, the interrupt
  descriptor table and the programming of the two 8259 controllers.
\<close>

abbreviation (input) SELECTOR_KERNEL_CS :: u16 where "SELECTOR_KERNEL_CS \<equiv> 0x08"
abbreviation (input) SELECTOR_KERNEL_DS :: u32 where "SELECTOR_KERNEL_DS \<equiv> 0x10"
abbreviation (input) SELECTOR_FIRST_TASK_TSS :: u32 where "SELECTOR_FIRST_TASK_TSS \<equiv> 0x18"
abbreviation (input) SELECTOR_FIRST_TASK_LDT :: u32 where "SELECTOR_FIRST_TASK_LDT \<equiv> 0x20"
abbreviation (input) PRIVILEGE_KERNEL :: u8 where "PRIVILEGE_KERNEL \<equiv> 0x00"
abbreviation (input) PRIVILEGE_USER :: u8 where "PRIVILEGE_USER \<equiv> 0x60"
abbreviation (input) DA_386IGate :: u8 where "DA_386IGate \<equiv> 0x8E"
abbreviation (input) DA_LIMIT_4K :: u16 where "DA_LIMIT_4K \<equiv> 0x8000"
abbreviation (input) DA_32 :: u16 where "DA_32 \<equiv> 0x4000"
abbreviation (input) DA_CR :: u16 where "DA_CR \<equiv> 0x9A"
abbreviation (input) DA_DRW :: u16 where "DA_DRW \<equiv> 0x92"
abbreviation (input) DA_LDT :: u16 where "DA_LDT \<equiv> 0x82"
abbreviation (input) DA_386TSS :: u16 where "DA_386TSS \<equiv> 0x89"
abbreviation (input) GDT_SIZE :: nat where "GDT_SIZE \<equiv> 128"
abbreviation (input) IDT_SIZE :: nat where "IDT_SIZE \<equiv> 256"

record descriptor =
  limit_low :: u16
  base_low :: u16
  base_mid :: u8
  attr1 :: u8
  limit_high_attr2 :: u8
  base_high :: u8

record gate =
  offset_low :: u16
  selector :: u16
  dcount :: u8
  gattr :: u8
  offset_high :: u16

definition desc0 :: descriptor where
  "desc0 = \<lparr>limit_low = 0, base_low = 0, base_mid = 0, attr1 = 0, limit_high_attr2 = 0, base_high = 0\<rparr>"

definition gate0 :: gate where
  "gate0 = \<lparr>offset_low = 0, selector = 0, dcount = 0, gattr = 0, offset_high = 0\<rparr>"

definition getDescBase :: "descriptor \<Rightarrow> u32" where
  "getDescBase d =
     push_bit 24 (ucast (base_high d)) OR push_bit 16 (ucast (base_mid d)) OR ucast (base_low d)"

definition setDescBase :: "descriptor \<Rightarrow> u32 \<Rightarrow> descriptor" where
  "setDescBase d base =
     d\<lparr>base_low := ucast (base AND 0xFFFF),
       base_mid := ucast (drop_bit 16 base AND 0xFF),
       base_high := ucast (drop_bit 24 base AND 0xFF)\<rparr>"

definition setGdtDesc :: "descriptor \<Rightarrow> u32 \<Rightarrow> u32 \<Rightarrow> u16 \<Rightarrow> descriptor" where
  "setGdtDesc d base limit attribute =
     d\<lparr>limit_low := ucast (limit AND 0xFFFF),
       base_low := ucast (base AND 0xFFFF),
       base_mid := ucast (drop_bit 16 base AND 0xFF),
       attr1 := ucast (attribute AND 0xFF),
       limit_high_attr2 :=
         ucast ((drop_bit 16 limit AND 0x0F) OR (ucast (drop_bit 8 attribute) AND 0xF0)),
       base_high := ucast (drop_bit 24 base AND 0xFF)\<rparr>"

text \<open>
  \<open>getDescLimit\<close> of \<^verbatim>\<open>lib/klib.asm\<close> is the instruction \<^verbatim>\<open>lsl\<close>, on the descriptor its selector
  names: the 20-bit limit, scaled by 4 KB pages when the granularity bit is set.
\<close>

definition getDescLimit :: "descriptor \<Rightarrow> u32" where
  "getDescLimit d =
     (let lim = push_bit 16 (ucast (limit_high_attr2 d AND 0x0F)) OR ucast (limit_low d)
      in if limit_high_attr2 d AND 0x80 \<noteq> 0 then push_bit 12 lim OR 0xFFF else lim)"

text \<open>The task state segment (\<^verbatim>\<open>TSS\<close>), and \<open>setTss\<close>, which fills in every field.\<close>

record tss =
  tss_backlink :: u32
  tss_esp0 :: u32
  tss_ss0 :: u32
  tss_esp1 :: u32
  tss_ss1 :: u32
  tss_esp2 :: u32
  tss_ss2 :: u32
  tss_cr3 :: u32
  tss_eip :: u32
  tss_flags :: u32
  tss_eax :: u32
  tss_ecx :: u32
  tss_edx :: u32
  tss_ebx :: u32
  tss_esp :: u32
  tss_ebp :: u32
  tss_esi :: u32
  tss_edi :: u32
  tss_es :: u32
  tss_cs :: u32
  tss_ss :: u32
  tss_ds :: u32
  tss_fs :: u32
  tss_gs :: u32
  tss_ldt :: u32
  tss_trap :: u16
  tss_iobase :: u16

definition setTss ::
  "u32 \<Rightarrow> u32 \<Rightarrow> u32 \<Rightarrow> u32 \<Rightarrow> u32 \<Rightarrow> u32 \<Rightarrow> u32 \<Rightarrow> u32 \<Rightarrow> u32 \<Rightarrow>
   u32 \<Rightarrow> u32 \<Rightarrow> u32 \<Rightarrow> u32 \<Rightarrow> u32 \<Rightarrow> u32 \<Rightarrow> u32 \<Rightarrow> u32 \<Rightarrow> u32 \<Rightarrow>
   u32 \<Rightarrow> u32 \<Rightarrow> u32 \<Rightarrow> u32 \<Rightarrow> u32 \<Rightarrow> u32 \<Rightarrow> u32 \<Rightarrow> u16 \<Rightarrow> u16 \<Rightarrow> tss"
where
  "setTss
     backlink' esp0' ss0' esp1' ss1' esp2' ss2' cr3' eip' flags' eax' ecx' edx' ebx' esp' ebp'
     esi' edi' es' cs' ss' ds' fs' gs' ldt' trap' iobase' =
     \<lparr>tss_backlink = backlink', tss_esp0 = esp0', tss_ss0 = ss0', tss_esp1 = esp1',
      tss_ss1 = ss1', tss_esp2 = esp2', tss_ss2 = ss2', tss_cr3 = cr3', tss_eip = eip',
      tss_flags = flags', tss_eax = eax', tss_ecx = ecx', tss_edx = edx', tss_ebx = ebx',
      tss_esp = esp', tss_ebp = ebp', tss_esi = esi', tss_edi = edi', tss_es = es', tss_cs = cs',
      tss_ss = ss', tss_ds = ds', tss_fs = fs', tss_gs = gs', tss_ldt = ldt', tss_trap = trap',
      tss_iobase = iobase'\<rparr>"

subsection \<open>The protected-mode tables\<close>

text \<open>
  The entry points of \<^verbatim>\<open>kernel/int.asm\<close> are named by a datatype; the address the linker gives them is
  the parameter \<open>entry\<close>. The handlers that \<open>putIrqHandler\<close> installs are named the same way.
\<close>

datatype isr =
    DivideError | SingleStepException | Nmi | BreakpointException | OverflowException | BoundsCheck
  | InvalOpcode | CoprNotAvailable | DoubleFault | CoprSegOverrun | InvalTss | SegmentNotPresent
  | StackException | GeneralProtection | PageFault | CoprError | Hwint nat | SysCall

datatype irq_handler = TimerHandler | KeyboardHandler | ReadIntr | WriteIntr | RecalIntr

record prot = io +
  GDT :: "nat \<Rightarrow> descriptor"
  IDT :: "nat \<Rightarrow> gate"
  IRQ_TABLE :: "nat \<Rightarrow> irq_handler option"

definition setIdtDesc ::
  "(isr \<Rightarrow> u32) \<Rightarrow> u8 \<Rightarrow> u8 \<Rightarrow> isr \<Rightarrow> u8 \<Rightarrow> 'a prot_scheme \<Rightarrow> 'a prot_scheme" where
  "setIdtDesc entry vector desc_type handler privilege s =
     (let base = entry handler; p = IDT s (unat vector)
      in s\<lparr>IDT := (IDT s)(unat vector :=
            p\<lparr>offset_low := ucast (base AND 0xFFFF),
              selector := SELECTOR_KERNEL_CS,
              gattr := desc_type OR privilege,
              offset_high := ucast (drop_bit 16 base AND 0xFFFF)\<rparr>)\<rparr>)"

text \<open>The vectors, handlers and privileges of \<open>initIdtDesc\<close>, in the order of the calls.\<close>

definition idt_setup :: "(u8 \<times> isr \<times> u8) list" where
  "idt_setup =
    [(0x0, DivideError, PRIVILEGE_KERNEL), (0x1, SingleStepException, PRIVILEGE_KERNEL),
     (0x2, Nmi, PRIVILEGE_KERNEL), (0x3, BreakpointException, PRIVILEGE_USER),
     (0x4, OverflowException, PRIVILEGE_USER), (0x5, BoundsCheck, PRIVILEGE_KERNEL),
     (0x6, InvalOpcode, PRIVILEGE_KERNEL), (0x7, CoprNotAvailable, PRIVILEGE_KERNEL),
     (0x8, DoubleFault, PRIVILEGE_KERNEL), (0x9, CoprSegOverrun, PRIVILEGE_KERNEL),
     (0xA, InvalTss, PRIVILEGE_KERNEL), (0xB, SegmentNotPresent, PRIVILEGE_KERNEL),
     (0xC, StackException, PRIVILEGE_KERNEL), (0xD, GeneralProtection, PRIVILEGE_KERNEL),
     (0xE, PageFault, PRIVILEGE_KERNEL), (0x10, CoprError, PRIVILEGE_KERNEL),
     (0x20, Hwint 0, PRIVILEGE_KERNEL), (0x21, Hwint 1, PRIVILEGE_KERNEL),
     (0x22, Hwint 2, PRIVILEGE_KERNEL), (0x23, Hwint 3, PRIVILEGE_KERNEL),
     (0x24, Hwint 4, PRIVILEGE_KERNEL), (0x25, Hwint 5, PRIVILEGE_KERNEL),
     (0x26, Hwint 6, PRIVILEGE_KERNEL), (0x27, Hwint 7, PRIVILEGE_KERNEL),
     (0x28, Hwint 8, PRIVILEGE_KERNEL), (0x29, Hwint 9, PRIVILEGE_KERNEL),
     (0x2A, Hwint 10, PRIVILEGE_KERNEL), (0x2B, Hwint 11, PRIVILEGE_KERNEL),
     (0x2C, Hwint 12, PRIVILEGE_KERNEL), (0x2D, Hwint 13, PRIVILEGE_KERNEL),
     (0x2E, Hwint 14, PRIVILEGE_KERNEL), (0x2F, Hwint 15, PRIVILEGE_KERNEL),
     (0x80, SysCall, PRIVILEGE_USER)]"

definition initIdtDesc :: "(isr \<Rightarrow> u32) \<Rightarrow> 'a prot_scheme \<Rightarrow> 'a prot_scheme" where
  "initIdtDesc entry =
     fold (\<lambda>(vector, handler, privilege). setIdtDesc entry vector DA_386IGate handler privilege)
       idt_setup"

definition init8259A :: "'a io_scheme \<Rightarrow> 'a io_scheme" where
  "init8259A s =
     fold (\<lambda>(port, v). outByte port v)
       [(0x20, 0x11), (0x21, 0x20), (0x21, 0x4), (0x21, 0x1),
        (0xA0, 0x11), (0xA1, 0x28), (0xA1, 0x2), (0xA1, 0x1),
        (0x21, 0xFB), (0xA1, 0xFF)] s"

definition putIrqHandler :: "nat \<Rightarrow> irq_handler option \<Rightarrow> 'a prot_scheme \<Rightarrow> 'a prot_scheme" where
  "putIrqHandler irq handler s = s\<lparr>IRQ_TABLE := (IRQ_TABLE s)(irq := handler)\<rparr>"

subsection \<open>Descriptors keep their base and limit\<close>

lemma getDescBase_setDescBase [simp]: "getDescBase (setDescBase d b) = b"
proof (rule bit_word_eqI)
  fix n assume "n < LENGTH(32)"
  then consider "n < 16" | "16 \<le> n" "n < 24" | "24 \<le> n" "n < 32" by fastforce
  then show "bit (getDescBase (setDescBase d b)) n = bit b n"
    by cases (auto simp: getDescBase_def setDescBase_def and_mask_take_bit bit_simps)
qed

lemma setGdtDesc_as_setDescBase:
  "setGdtDesc d b l a =
     (setDescBase d b)\<lparr>limit_low := ucast (l AND 0xFFFF), attr1 := ucast (a AND 0xFF),
       limit_high_attr2 :=
         ucast ((drop_bit 16 l AND 0x0F) OR (ucast (drop_bit 8 a) AND 0xF0))\<rparr>"
  by (simp add: setGdtDesc_def setDescBase_def)

lemma getDescBase_setGdtDesc [simp]: "getDescBase (setGdtDesc d b l a) = b"
  using getDescBase_setDescBase [of d b] by (simp add: setGdtDesc_as_setDescBase getDescBase_def)

lemma limit_setGdtDesc:
  "push_bit 16 (ucast (limit_high_attr2 (setGdtDesc d b l a) AND 0x0F) :: u32) OR ucast (limit_low (setGdtDesc d b l a)) =
   take_bit 20 l"
proof (rule bit_word_eqI)
  fix n assume n: "n < LENGTH(32)"
  have m: "(0x0F :: 8 word) = mask 4" "(0x0F :: 32 word) = mask 4" "(0xFFFF :: 32 word) = mask 16" "(0xF0 :: 32 word) = push_bit 4 (mask 4)"
    by (simp_all add: mask_eq_exp_minus_1 push_bit_eq_mult)
  consider "n < 16" | "16 \<le> n" "n < 20" | "20 \<le> n" "n < 32" using n by fastforce
  then show "bit (push_bit 16 (ucast (limit_high_attr2 (setGdtDesc d b l a) AND 0x0F) :: u32) OR ucast (limit_low (setGdtDesc d b l a))) n =
      bit (take_bit 20 l :: u32) n"
    using n by cases (auto simp: setGdtDesc_def m bit_simps)
qed

lemma granularity_setGdtDesc: "limit_high_attr2 (setGdtDesc d b l a) AND 0x80 \<noteq> 0 \<longleftrightarrow> bit a 15"
proof -
  have m: "(0x0F :: 32 word) = mask 4" "(0xF0 :: 32 word) = push_bit 4 (mask 4)"
    by (simp_all add: mask_eq_exp_minus_1 push_bit_eq_mult)
  have "limit_high_attr2 (setGdtDesc d b l a) AND 2 ^ 7 \<noteq> 0 \<longleftrightarrow> bit (limit_high_attr2 (setGdtDesc d b l a)) 7"
    using and_exp_eq_0_iff_not_bit by blast
  then show ?thesis by (simp add: setGdtDesc_def m bit_simps)
qed

lemma getDescLimit_setGdtDesc:
  "getDescLimit (setGdtDesc d b l a) =
     (if bit a 15 then push_bit 12 (take_bit 20 l) OR 0xFFF else take_bit 20 l)"
  unfolding getDescLimit_def Let_def limit_setGdtDesc granularity_setGdtDesc ..

lemma getDescLimit_setDescBase [simp]: "getDescLimit (setDescBase d b) = getDescLimit d"
  by (simp add: getDescLimit_def setDescBase_def)


lemma attribute_setGdtDesc:
  "ucast (attr1 (setGdtDesc d b l a)) OR push_bit 8 (ucast (limit_high_attr2 (setGdtDesc d b l a)) AND 0xF0) =
   (a AND 0xF0FF :: u16)"
proof (rule bit_word_eqI)
  fix n assume n: "n < LENGTH(16)"
  have m: "(0x0F :: 32 word) = mask 4" "(0xF0 :: 32 word) = push_bit 4 (mask 4)" "(0xF0 :: 16 word) = push_bit 4 (mask 4)"
    "(0xFF :: 16 word) = mask 8" "(0xF0FF :: 16 word) = push_bit 12 (mask 4) OR mask 8"
    by (simp_all add: mask_eq_exp_minus_1 push_bit_eq_mult)
  consider "n < 8" | "8 \<le> n" "n < 12" | "12 \<le> n" "n < 16" using n by fastforce
  then show "bit (ucast (attr1 (setGdtDesc d b l a)) OR push_bit 8 (ucast (limit_high_attr2 (setGdtDesc d b l a)) AND 0xF0) :: u16) n =
      bit (a AND 0xF0FF :: u16) n"
    using n by cases (auto simp: setGdtDesc_def m bit_simps)
qed

text \<open>C34. A segment descriptor round trip: what \<open>setGdtDesc\<close> packs, \<open>getDescBase\<close> and the \<^verbatim>\<open>lsl\<close>
  instruction of \<open>getDescLimit\<close> read back: the base in full, the low 20 bits of the limit, scaled to pages
  when the attribute asks for it, and the attributes but for the 4 bits the limit takes; \<open>setDescBase\<close>
  then moves the segment and changes neither limit nor attributes: the three fields that hold them keep
  every bit.\<close>

theorem setGdtDesc_roundtrip:
  "getDescBase (setGdtDesc d b l a) = b \<and>
   getDescLimit (setGdtDesc d b l a) = (if bit a 15 then push_bit 12 (take_bit 20 l) OR 0xFFF else take_bit 20 l) \<and>
   ucast (attr1 (setGdtDesc d b l a)) OR push_bit 8 (ucast (limit_high_attr2 (setGdtDesc d b l a)) AND 0xF0) =
     (a AND 0xF0FF :: u16) \<and>
   (let d' = setDescBase (setGdtDesc d b l a) b'
    in getDescBase d' = b' \<and> getDescLimit d' = getDescLimit (setGdtDesc d b l a) \<and>
       limit_low d' = limit_low (setGdtDesc d b l a) \<and> attr1 d' = attr1 (setGdtDesc d b l a) \<and>
       limit_high_attr2 d' = limit_high_attr2 (setGdtDesc d b l a))"
  unfolding getDescLimit_setGdtDesc attribute_setGdtDesc Let_def
  by (simp add: getDescLimit_setGdtDesc) (simp add: setDescBase_def)

subsection \<open>The interrupt descriptor table\<close>

text \<open>
  The vectors of the processor's exceptions, the vectors to which the two controllers are set, and the
  system call; vector 15 is reserved.
\<close>

definition exceptions :: "(nat \<times> isr) list" where
  "exceptions = [(0, DivideError), (1, SingleStepException), (2, Nmi), (3, BreakpointException),
     (4, OverflowException), (5, BoundsCheck), (6, InvalOpcode), (7, CoprNotAvailable), (8, DoubleFault),
     (9, CoprSegOverrun), (10, InvalTss), (11, SegmentNotPresent), (12, StackException),
     (13, GeneralProtection), (14, PageFault), (16, CoprError)]"

definition vectors :: "(nat \<times> isr) list" where
  "vectors = exceptions @ map (\<lambda>n. (0x20 + n, Hwint n)) [0..<16] @ [(0x80, SysCall)]"

definition vector_isr :: "nat \<Rightarrow> isr option" where
  "vector_isr = map_of vectors"

definition gate_offset :: "gate \<Rightarrow> u32" where
  "gate_offset g = push_bit 16 (ucast (offset_high g)) OR ucast (offset_low g)"

definition opens :: "gate \<Rightarrow> u32 \<Rightarrow> u8 \<Rightarrow> bool" where
  "opens g base attr \<longleftrightarrow> gate_offset g = base \<and> selector g = SELECTOR_KERNEL_CS \<and> gattr g = attr"

lemma halves_OR: "push_bit 16 (ucast (ucast (drop_bit 16 b AND 0xFFFF :: u32) :: u16)) OR ucast (ucast (b AND 0xFFFF) :: u16) = (b :: u32)"
proof (rule bit_word_eqI)
  fix n assume n: "n < LENGTH(32)"
  have m: "(0xFFFF :: 32 word) = mask 16" by (simp add: mask_eq_exp_minus_1)
  show "bit (push_bit 16 (ucast (ucast (drop_bit 16 b AND 0xFFFF :: u32) :: u16)) OR ucast (ucast (b AND 0xFFFF) :: u16) :: u32) n = bit b n"
    using n by (cases "n < 16") (auto simp: m bit_simps)
qed

lemma IDT_setIdtDesc_other: "v \<noteq> unat w \<Longrightarrow> IDT (setIdtDesc entry w t h p s) v = IDT s v"
  by (simp add: setIdtDesc_def Let_def)

lemma setIdtDesc_opens: "opens (IDT (setIdtDesc entry w t h p s) (unat w)) (entry h) (t OR p)"
  using halves_OR [of "entry h"] unfolding setIdtDesc_def opens_def gate_offset_def Let_def by simp

lemma idt_fold_other:
  "v \<notin> (unat \<circ> fst) ` set xs \<Longrightarrow> IDT (fold (\<lambda>(w, h, p). setIdtDesc entry w t h p) xs s) v = IDT s v"
  by (induction xs arbitrary: s) (auto simp: IDT_setIdtDesc_other)

lemma idt_fold_opens:
  "distinct (map (unat \<circ> fst) xs) \<Longrightarrow> (w, h, p) \<in> set xs \<Longrightarrow>
   opens (IDT (fold (\<lambda>(w, h, p). setIdtDesc entry w t h p) xs s) (unat w)) (entry h) (t OR p)"
proof (induction xs arbitrary: s)
  case (Cons x xs)
  show ?case
  proof (cases "x = (w, h, p)")
    case True
    with Cons.prems have "unat w \<notin> (unat \<circ> fst) ` set xs" by simp
    then show ?thesis by (simp add: True idt_fold_other setIdtDesc_opens)
  qed (use Cons in simp)
qed simp

lemma idt_setup_distinct: "distinct (map (unat \<circ> fst) idt_setup)"
  by (simp add: idt_setup_def)

lemma idt_setup_isr: "list_all (\<lambda>(w, h, p). vector_isr (unat w) = Some h) idt_setup"
  unfolding idt_setup_def by code_simp

lemma vectors_set_up:
  "list_all (\<lambda>(v, h). v < 256 \<and> (of_nat v, h, if v \<in> {3, 4, 0x80} then PRIVILEGE_USER else PRIVILEGE_KERNEL) \<in> set idt_setup) vectors"
  unfolding idt_setup_def vectors_def by code_simp

lemma idt_setup_gate:
  assumes "vector_isr v = Some h"
  shows "v < 256 \<and> (of_nat v, h, if v \<in> {3, 4, 0x80} then PRIVILEGE_USER else PRIVILEGE_KERNEL) \<in> set idt_setup"
proof -
  have "(v, h) \<in> set vectors" using assms unfolding vector_isr_def by (rule map_of_SomeD)
  from bspec [OF vectors_set_up [unfolded list_all_iff] this] show ?thesis by (simp only: prod.case)
qed

lemma initIdtDesc_opens:
  assumes "vector_isr v = Some h"
  shows "opens (IDT (initIdtDesc entry s) v) (entry h) (if v \<in> {3, 4, 0x80} then 0xEE else 0x8E)"
proof -
  from idt_setup_gate [OF assms] have v: "v < 256"
    and m: "(of_nat v, h, if v \<in> {3, 4, 0x80} then PRIVILEGE_USER else PRIVILEGE_KERNEL) \<in> set idt_setup" by simp_all
  from v have u: "unat (of_nat v :: u8) = v" by (simp add: unat_of_nat take_bit_eq_mod)
  have "opens (IDT (initIdtDesc entry s) v) (entry h) (DA_386IGate OR (if v \<in> {3, 4, 0x80} then PRIVILEGE_USER else PRIVILEGE_KERNEL))"
    using idt_fold_opens [OF idt_setup_distinct m] unfolding initIdtDesc_def u .
  moreover have "DA_386IGate OR (if v \<in> {3, 4, 0x80} then PRIVILEGE_USER else PRIVILEGE_KERNEL) =
      (if v \<in> {3, 4, 0x80} then 0xEE else 0x8E)" by (simp only: if_distrib) simp
  ultimately show ?thesis by (simp only:)
qed

lemma initIdtDesc_other: "vector_isr v = None \<Longrightarrow> IDT (initIdtDesc entry s) v = IDT s v"
  unfolding initIdtDesc_def using idt_setup_isr by (intro idt_fold_other) (force simp: list_all_iff)

text \<open>C28. After \<open>initIdtDesc\<close> every exception, every line of the interrupt controllers and the system
  call has a present 32-bit interrupt gate to its own entry, in the kernel's code segment; the
  breakpoint, overflow and system call gates, and no others, are open to user programs; no other gate
  is touched.\<close>

theorem initIdtDesc_gates:
  "case vector_isr v of
     None \<Rightarrow> IDT (initIdtDesc entry s) v = IDT s v
   | Some h \<Rightarrow> opens (IDT (initIdtDesc entry s) v) (entry h) (if v \<in> {3, 4, 0x80} then 0xEE else 0x8E)"
  by (cases "vector_isr v") (simp_all only: option.case initIdtDesc_opens initIdtDesc_other)

end
