(* ===== verification/Clock.thy ===== *)
theory Clock
  imports Protect
begin

section \<open>The real-time clock and the start-up time\<close>

text \<open>
  \<^verbatim>\<open>kernel/time.c\<close> with \<^verbatim>\<open>include/time.h\<close>, apart from the timer interrupt (theory \<open>Process\<close>): reading
  the CMOS clock, the conversion of a broken-down time to seconds since 1970, and the programming of
  the 8253 timer. The reference definition is the Gregorian calendar, counted day by day.
\<close>

abbreviation (input) MINUTE :: u32 where "MINUTE \<equiv> 60"
abbreviation (input) HOUR :: u32 where "HOUR \<equiv> 3600"
abbreviation (input) DAY :: u32 where "DAY \<equiv> 86400"
abbreviation (input) YEAR :: u32 where "YEAR \<equiv> 31536000"

text \<open>\<^verbatim>\<open>TIME\<close>, without the fields \<^verbatim>\<open>tm_wday\<close> and \<^verbatim>\<open>tm_yday\<close>, which the source neither sets nor reads.\<close>

record ctime =
  tm_sec :: u16
  tm_min :: u16
  tm_hour :: u16
  tm_mday :: u16
  tm_mon :: u16
  tm_year :: u16

record clock = prot +
  TICKS :: u32
  STARTUP_TIME :: u32

text \<open>
  \<^verbatim>\<open>BCD_TO_BIN\<close>: two decimal digits in one byte. The macro expands its argument twice, so the two
  digits come from two evaluations of it.
\<close>

definition BCD_TO_BIN :: "u8 \<Rightarrow> u8 \<Rightarrow> u16" where
  "BCD_TO_BIN val val' = ucast (val AND 0xF) + ucast (drop_bit 4 val') * 10"

text \<open>The table of \<open>mkTime\<close>: seconds before each month, with February counted as in a leap year.\<close>

definition month_table :: "u32 list" where
  "month_table =
    [0, DAY * 31, DAY * (31 + 29), DAY * (31 + 29 + 31), DAY * (31 + 29 + 31 + 30),
     DAY * (31 + 29 + 31 + 30 + 31), DAY * (31 + 29 + 31 + 30 + 31 + 30),
     DAY * (31 + 29 + 31 + 30 + 31 + 30 + 31), DAY * (31 + 29 + 31 + 30 + 31 + 30 + 31 + 31),
     DAY * (31 + 29 + 31 + 30 + 31 + 30 + 31 + 31 + 30),
     DAY * (31 + 29 + 31 + 30 + 31 + 30 + 31 + 31 + 30 + 31),
     DAY * (31 + 29 + 31 + 30 + 31 + 30 + 31 + 31 + 30 + 31 + 30)]"

definition mkTime :: "ctime \<Rightarrow> u32 outcome" where
  "mkTime t =
     (let year = (if tm_year t > 70 then ucast (tm_year t) - 70
                  else ucast (tm_year t) + 100 - 70) :: u32;
          rs = YEAR * year + DAY * ((year + 1) div 4)
      in if unat (tm_mon t) \<ge> length month_table then Inl (Fault ''month'')
         else
           let rs = rs + month_table ! unat (tm_mon t);
               rs = (if tm_mon t > 1 \<and> (year + 2) mod 4 \<noteq> 0 then rs - DAY else rs);
               rs = rs + DAY * (ucast (tm_mday t) - 1);
               rs = rs + HOUR * ucast (tm_hour t);
               rs = rs + MINUTE * ucast (tm_min t)
           in Inr (rs + ucast (tm_sec t)))"

definition readCmos :: "device \<Rightarrow> u8 \<Rightarrow> 'a io_scheme \<Rightarrow> u16 \<times> 'a io_scheme" where
  "readCmos dev reg s =
     (let (v, s1) = inByte dev 0x71 (outByte 0x70 reg s);
          (v', s2) = inByte dev 0x71 s1
      in (BCD_TO_BIN v v', s2))"

definition initTime :: "device \<Rightarrow> 'a clock_scheme \<Rightarrow> 'a clock_scheme outcome" where
  "initTime dev s =
     (let s = s\<lparr>TICKS := 0\<rparr>;
          (sec, s) = readCmos dev 0x80 s;
          (min, s) = readCmos dev 0x82 s;
          (hour, s) = readCmos dev 0x84 s;
          (mday, s) = readCmos dev 0x87 s;
          (mon, s) = readCmos dev 0x88 s;
          (year, s) = readCmos dev 0x89 s;
          t = \<lparr>tm_sec = sec, tm_min = min, tm_hour = hour, tm_mday = mday, tm_mon = mon - 1,
               tm_year = year\<rparr>
      in andThen (mkTime t) (\<lambda>secs.
         let s = s\<lparr>STARTUP_TIME := secs\<rparr>;
             s = outByte 0x43 0x34 s;
             s = outByte 0x40 (ucast (1193182 div 100 :: u32)) s;
             s = outByte 0x40 (ucast (drop_bit 8 (1193182 div 100 :: u32))) s
         in Inr (putIrqHandler 0 (Some TimerHandler) (enableIrq dev 0 s))))"

subsection \<open>The Gregorian calendar\<close>

definition leap :: "nat \<Rightarrow> bool" where
  "leap y \<longleftrightarrow> 4 dvd y \<and> (\<not> 100 dvd y \<or> 400 dvd y)"

definition days_in_month :: "nat \<Rightarrow> nat \<Rightarrow> nat" where
  "days_in_month y m = [31, if leap y then 29 else 28, 31, 30, 31, 30, 31, 31, 30, 31, 30, 31] ! m"

definition days_before :: "nat \<Rightarrow> nat \<Rightarrow> nat" where
  "days_before y m =
     (\<Sum>k \<leftarrow> [1970..<y]. if leap k then 366 else 365) + (\<Sum>k \<leftarrow> [0..<m]. days_in_month y k)"

definition epoch_seconds :: "nat \<Rightarrow> nat \<Rightarrow> nat \<Rightarrow> nat \<Rightarrow> nat \<Rightarrow> nat \<Rightarrow> nat" where
  "epoch_seconds y m d h mi se =
     86400 * (days_before y m + (d - 1)) + 3600 * h + 60 * mi + se"

text \<open>The year a two-digit year of the CMOS clock stands for in \<open>mkTime\<close>.\<close>

definition full_year :: "nat \<Rightarrow> nat" where
  "full_year yy = (if yy > 70 then 1900 + yy else 2000 + yy)"

text \<open>What the fields of \<open>ctime\<close> hold when the clock is sound.\<close>

definition valid_ctime :: "ctime \<Rightarrow> bool" where
  "valid_ctime t \<longleftrightarrow> unat (tm_year t) < 100 \<and> unat (tm_mon t) < 12 \<and>
     1 \<le> unat (tm_mday t) \<and> unat (tm_mday t) \<le> 31 \<and>
     unat (tm_hour t) < 24 \<and> unat (tm_min t) < 60 \<and> unat (tm_sec t) < 60"

subsection \<open>The calendar arithmetic of mkTime\<close>

lemma leap_1970: 
  assumes "n < 130" shows "leap (1970 + n) \<longleftrightarrow> (n + 2) mod 4 = 0"
proof -
  have "400 dvd (1970 + n)" if "100 dvd (1970 + n)"
  proof -
    from that obtain k where k: "1970 + n = 100 * k" by (elim dvdE)
    with assms have "k = 20" by linarith
    with k show ?thesis by simp
  qed
  moreover have "4 dvd (1970 + n) \<longleftrightarrow> (n + 2) mod 4 = 0"
    using mod_mult_self1 [of "n + 2" 492 4] by (simp add: dvd_eq_mod_eq_0 add.commute)
  ultimately show ?thesis unfolding leap_def by metis
qed
lemma years_sum: "n \<le> 130 \<Longrightarrow> (\<Sum>k \<leftarrow> [1970..<1970 + n]. if leap k then 366 else 365) = 365 * n + (n + 1) div 4"
proof (induction n)
  case (Suc n)
  have "[1970..<1970 + Suc n] = [1970..<1970 + n] @ [1970 + n]"
    by (simp only: add_Suc_right) (rule upt_Suc_append, simp)
  moreover have "(n + 2) div 4 = (n + 1) div 4 + (if (n + 2) mod 4 = 0 then 1 else 0)" by presburger
  ultimately show ?case using Suc leap_1970 [of n] by simp
qed simp
lemma months_sum: 
  assumes "m < 12"
  shows "unat (month_table ! m) =  86400 * ((\<Sum>k \<leftarrow> [0..<m]. days_in_month y k) + (if 1 < m \<and> \<not> leap y then 1 else 0))"
proof -
  from assms have "m \<in> set [0..<12]" by simp
  then show ?thesis
    by (simp add: upt_conv_Cons) (elim disjE; simp add: month_table_def days_in_month_def upt_conv_Cons)
qed

lemma month_table_bound:
  assumes "m < 12"
  shows "unat (month_table ! m) \<le> 86400 * 335"
proof -
  from assms have "m \<in> set [0..<12]" by simp
  then show ?thesis
    by (simp add: upt_conv_Cons) (elim disjE; simp add: month_table_def)
qed

lemma seconds_bound:
  fixes n S d h mi se :: nat
  assumes "n \<le> 100" "S \<le> 335" "d \<le> 30" "h < 24" "mi < 60" "se < 60"
  shows "31536000 * n + 86400 * ((n + 1) div 4) + 86400 * S + (86400 * d + 3600 * h + 60 * mi + se)
    < 4294967296"
proof -
  have "(n + 1) div 4 \<le> 25" using assms(1) by linarith
  with assms show ?thesis by linarith
qed

lemma full_year_1970: "full_year yy = 1970 + (if yy > 70 then yy - 70 else yy + 30)"
  by (simp add: full_year_def)

lemma mkTime_year:
  fixes yy :: u16
  assumes "unat yy < 100"
  shows "(if yy > 70 then ucast yy - 70 else ucast yy + 100 - 70 :: u32)
    = of_nat (if unat yy > 70 then unat yy - 70 else unat yy + 30)"
proof -
  have "yy > 70 \<longleftrightarrow> unat yy > 70" by (simp add: word_less_nat_alt)
  then show ?thesis using assms by simp
qed

lemma div4_of_nat: "n < 1000 \<Longrightarrow> (of_nat n + 1 :: u32) div 4 = of_nat ((n + 1) div 4)"
  by (rule word_unat_eq_iff [THEN iffD2])
    (simp add: unat_div unat_of_nat_u32 unat_word_ariths)
lemma mod4_of_nat: "n < 1000 \<Longrightarrow> (of_nat n + 2 :: u32) mod 4 = of_nat ((n + 2) mod 4)"
  by (rule word_unat_eq_iff [THEN iffD2])
    (simp add: unat_mod unat_of_nat_u32 unat_word_ariths)

lemma mkTime_words:
  assumes v: "valid_ctime t" and n: "n = (if unat (tm_year t) > 70 then unat (tm_year t) - 70 else unat (tm_year t) + 30)"
  shows "mkTime t = Inr (of_nat (31536000 * n + 86400 * ((n + 1) div 4)) + month_table ! unat (tm_mon t)
     - (if 1 < unat (tm_mon t) \<and> (n + 2) mod 4 \<noteq> 0 then DAY else 0)
     + of_nat (86400 * (unat (tm_mday t) - 1) + 3600 * unat (tm_hour t) + 60 * unat (tm_min t) + unat (tm_sec t)))"
proof -
  have l: "\<not> unat (tm_mon t) \<ge> length month_table" using v by (simp add: valid_ctime_def month_table_def)
  have n100: "n < 1000" using v unfolding n valid_ctime_def by auto
  have mon: "tm_mon t > 1 \<longleftrightarrow> 1 < unat (tm_mon t)" by (simp add: word_less_nat_alt)
  have m4: "(of_nat n + 2 :: u32) mod 4 \<noteq> 0 \<longleftrightarrow> (n + 2) mod 4 \<noteq> 0"
    unfolding mod4_of_nat [OF n100] by (simp add: word_unat_eq_iff unat_of_nat_u32)
  have d: "(of_nat (86400 * (unat (tm_mday t) - 1)) :: u32) = DAY * (ucast (tm_mday t) - 1)"
    using v by (simp add: valid_ctime_def of_nat_diff)
  from v have y: "unat (tm_year t) < 100" by (simp add: valid_ctime_def)
  show ?thesis
    unfolding mkTime_def Let_def mkTime_year [OF y, folded n] if_not_P [OF l] div4_of_nat [OF n100] m4 mon
    by (simp only: of_nat_add d) (simp add: algebra_simps)
qed
lemma mkTime_epoch:
  assumes v: "valid_ctime t" shows
   "\<exists>r. mkTime t = Inr r \<and> unat r = epoch_seconds (full_year (unat (tm_year t))) (unat (tm_mon t))
        (unat (tm_mday t)) (unat (tm_hour t)) (unat (tm_min t)) (unat (tm_sec t))"
proof -
  define n where "n = (if unat (tm_year t) > 70 then unat (tm_year t) - 70 else unat (tm_year t) + 30)"
  define m where "m = unat (tm_mon t)"
  let ?y = "full_year (unat (tm_year t))"
  let ?rest = "86400 * (unat (tm_mday t) - 1) + 3600 * unat (tm_hour t) + 60 * unat (tm_min t) + unat (tm_sec t)"
  have y: "?y = 1970 + n" by (simp add: full_year_1970 n_def)
  have n130: "n < 130" "n \<le> 130" "n \<le> 100" and m12: "m < 12" using v by (auto simp: n_def m_def valid_ctime_def)
  let ?S = "\<Sum>k \<leftarrow> [0..<m]. days_in_month ?y k"
  have sb: "?S \<le> 335"
    using months_sum [OF m12, of ?y] month_table_bound [OF m12] by simp
  have lp: "leap ?y \<longleftrightarrow> (n + 2) mod 4 = 0" unfolding y by (rule leap_1970) (rule n130)
  have mt: "month_table ! m = of_nat (86400 * (?S + (if 1 < m \<and> \<not> leap ?y then 1 else 0)))"
    using months_sum [OF m12, of ?y] by (metis of_nat_unat ucast_id)
  have E: "epoch_seconds ?y m (unat (tm_mday t)) (unat (tm_hour t)) (unat (tm_min t)) (unat (tm_sec t))
     = 31536000 * n + 86400 * ((n + 1) div 4) + 86400 * ?S + ?rest"
    unfolding epoch_seconds_def days_before_def y years_sum [OF n130(2)] by (simp add: algebra_simps)
  have "mkTime t = Inr (of_nat (31536000 * n + 86400 * ((n + 1) div 4) + 86400 * ?S + ?rest))"
    unfolding mkTime_words [OF v n_def] m_def [symmetric] mt lp by (auto simp: algebra_simps)
  moreover have "31536000 * n + 86400 * ((n + 1) div 4) + 86400 * ?S + ?rest < 4294967296"
    using v by (intro seconds_bound n130 sb) (auto simp: valid_ctime_def)
  ultimately show ?thesis using unat_of_nat_u32 E by (metis m_def)
qed

text \<open>C25. For every sound clock reading, \<open>mkTime\<close> returns the number of seconds from 1970-01-01 00:00:00
  to that moment by the Gregorian calendar, without wrap-around, for all years 1971 to 2070 that a
  two-digit year can mean. The comment at its call says that it counts from 08:00:00 of that day; it does
  not.\<close>

theorem mkTime_correct:
  assumes "valid_ctime t"
  shows "\<exists>r. mkTime t = Inr r \<and> unat r = epoch_seconds (full_year (unat (tm_year t))) (unat (tm_mon t))
    (unat (tm_mday t)) (unat (tm_hour t)) (unat (tm_min t)) (unat (tm_sec t))"
  using assms by (rule mkTime_epoch)

theorem mkTime_correct_witness:
  "\<exists>r. mkTime \<lparr>tm_sec = 53, tm_min = 55, tm_hour = 19, tm_mday = 21, tm_mon = 7, tm_year = 20\<rparr> = Inr r \<and>
     unat r = epoch_seconds (full_year 20) 7 21 19 55 53"
  using mkTime_correct
    [of "\<lparr>tm_sec = 53, tm_min = 55, tm_hour = 19, tm_mday = 21, tm_mon = 7, tm_year = 20\<rparr>"]
  by (simp add: valid_ctime_def)

text \<open>
  The two-digit year 70 falls on the wrong side of the comparison \<^verbatim>\<open>tm_year > 70\<close>: the first second
  of 1970 is taken for the first second of 2070.
\<close>

lemma mkTime_year_70:
  "mkTime \<lparr>tm_sec = 0, tm_min = 0, tm_hour = 0, tm_mday = 1, tm_mon = 0, tm_year = 70\<rparr>
     = Inr 3155760000"
  by (simp add: mkTime_def month_table_def)

subsection \<open>Reading the CMOS clock\<close>

definition bin_to_bcd :: "nat \<Rightarrow> u8" where
  "bin_to_bcd n = of_nat (16 * (n div 10) + n mod 10)"

lemma BCD_TO_BIN_bcd:
  assumes "n < 100"
  shows "unat (BCD_TO_BIN (bin_to_bcd n) (bin_to_bcd n)) = n"
proof -
  have q: "n div 10 < 10" using assms by linarith
  have "n mod 10 < 10" by simp
  with q have "16 * (n div 10) + n mod 10 < 256" by linarith
  then have u: "unat (bin_to_bcd n) = 16 * (n div 10) + n mod 10"
    unfolding bin_to_bcd_def by (rule unat_of_nat_u8)
  have e: "(16 * (n div 10) + n mod 10) mod 16 = n mod 10"
    "(16 * (n div 10) + n mod 10) div 16 = n div 10" by simp_all
  have "unat (BCD_TO_BIN (bin_to_bcd n) (bin_to_bcd n)) = (n mod 10 + (n div 10 * 10) mod 65536) mod 65536"
    using q by (simp add: BCD_TO_BIN_def and_mask_take_bit unat_word_ariths unsigned_ucast_eq
        unsigned_take_bit_eq unsigned_drop_bit_eq take_bit_eq_mod drop_bit_eq_div u e)
  also have "\<dots> = n"
    using assms q by simp
  finally show ?thesis .
qed

text \<open>A clock chip that shows the bytes \<open>regs\<close>: the first two bytes read from port 0x71 after a register
  number was written to port 0x70 are that register's.\<close>

definition cmos_shows :: "device \<Rightarrow> (u8 \<Rightarrow> u8) \<Rightarrow> bool" where
  "cmos_shows dev regs \<longleftrightarrow> (\<forall>tr r.
     dev (Out 0x70 r # tr) 0x71 = regs r \<and> dev (In 0x71 # Out 0x70 r # tr) 0x71 = regs r)"

definition startup_ctime :: "(u8 \<Rightarrow> u8) \<Rightarrow> ctime" where
  "startup_ctime regs =
     \<lparr>tm_sec = BCD_TO_BIN (regs 0x80) (regs 0x80), tm_min = BCD_TO_BIN (regs 0x82) (regs 0x82),
      tm_hour = BCD_TO_BIN (regs 0x84) (regs 0x84), tm_mday = BCD_TO_BIN (regs 0x87) (regs 0x87),
      tm_mon = BCD_TO_BIN (regs 0x88) (regs 0x88) - 1, tm_year = BCD_TO_BIN (regs 0x89) (regs 0x89)\<rparr>"

lemma readCmos_shows:
  "cmos_shows dev regs \<Longrightarrow>
    readCmos dev r s = (BCD_TO_BIN (regs r) (regs r), s\<lparr>trace := In 0x71 # In 0x71 # Out 0x70 r # trace s\<rparr>)"
  by (simp add: readCmos_def io_defs cmos_shows_def)

lemma enableIrq_fields [simp]:
  "TICKS (enableIrq dev i s) = TICKS s" "STARTUP_TIME (enableIrq dev i s) = STARTUP_TIME s"
  "IRQ_TABLE (enableIrq dev i s') = IRQ_TABLE s'"
  by (simp_all add: enableIrq_def io_defs Let_def)

lemma initTime_mkTime:
  assumes "cmos_shows dev regs" and "mkTime (startup_ctime regs) = Inr r"
  shows "\<exists>s'. initTime dev s = Inr s' \<and> STARTUP_TIME s' = r \<and> TICKS s' = 0 \<and>
    IRQ_TABLE s' = (IRQ_TABLE s)(0 := Some TimerHandler)"
  using assms
  by (simp add: initTime_def readCmos_shows startup_ctime_def putIrqHandler_def outByte_def)

text \<open>A clock that moves from 9 to 10 seconds between the two readings is read as 19.\<close>

lemma readCmos_torn:
  assumes "dev (Out 0x70 r # trace s) 0x71 = 0x09" and "dev (In 0x71 # Out 0x70 r # trace s) 0x71 = 0x10"
  shows "fst (readCmos dev r s) = 19"
  using assms by (simp add: readCmos_def io_defs BCD_TO_BIN_def)

text \<open>C24. On a sound CMOS clock that shows the moment y-m-d h:mi:se in BCD, \<open>initTime\<close> returns with
  \<open>STARTUP_TIME\<close> the number of seconds from 1970-01-01 00:00:00 to that moment, the tick counter at zero and the
  timer's handler installed for line 0, the other lines' handlers unchanged. The comments on
  \<open>STARTUP_TIME\<close> say that it counts from 08:00:00 of that day; it is 28800 seconds more.\<close>

theorem initTime_startup:
  assumes dev: "cmos_shows dev regs"
    and bcd: "regs 0x80 = bin_to_bcd se" "regs 0x82 = bin_to_bcd mi" "regs 0x84 = bin_to_bcd h"
      "regs 0x87 = bin_to_bcd d" "regs 0x88 = bin_to_bcd (m + 1)" "regs 0x89 = bin_to_bcd yy"
    and rng: "se < 60" "mi < 60" "h < 24" "1 \<le> d" "d \<le> 31" "m < 12" "yy < 100"
  shows "\<exists>s'. initTime dev s = Inr s' \<and>
    unat (STARTUP_TIME s') = epoch_seconds (full_year yy) m d h mi se \<and> TICKS s' = 0 \<and>
    IRQ_TABLE s' = (IRQ_TABLE s)(0 := Some TimerHandler)"
proof -
  let ?t = "startup_ctime regs"
  have "unat (tm_mon ?t) = m"
    using BCD_TO_BIN_bcd [of "m + 1"] rng
    by (simp add: startup_ctime_def bcd unat_minus_small word_le_nat_alt)
  then have f: "unat (tm_sec ?t) = se" "unat (tm_min ?t) = mi" "unat (tm_hour ?t) = h"
    "unat (tm_mday ?t) = d" "unat (tm_mon ?t) = m" "unat (tm_year ?t) = yy"
    using rng by (simp_all add: startup_ctime_def bcd BCD_TO_BIN_bcd)
  with rng have "valid_ctime ?t" by (simp add: valid_ctime_def)
  then obtain r where r: "mkTime ?t = Inr r" "unat r = epoch_seconds (full_year yy) m d h mi se"
    using mkTime_epoch f by blast
  with initTime_mkTime [OF dev r(1)] show ?thesis by metis
qed

definition clock_chip :: device where
  "clock_chip tr p =
     (let shown = (\<lambda>r. bin_to_bcd (if r = 0x80 then 46 else if r = 0x82 then 26 else if r = 0x84 then 13
          else if r = 0x87 then 13 else if r = 0x88 then 9 else 20))
      in case tr of Out q r # _ \<Rightarrow> shown r | In _ # Out q r # _ \<Rightarrow> shown r | _ \<Rightarrow> 0)"

definition clock0 :: clock where
  "clock0 = \<lparr>trace = [], int_flag = False, GDT = \<lambda>_. desc0, IDT = \<lambda>_. gate0, IRQ_TABLE = \<lambda>_. None,
     TICKS = 7, STARTUP_TIME = 0\<rparr>"

theorem initTime_startup_witness:
  "\<exists>s'. initTime clock_chip clock0 = Inr s' \<and>
    unat (STARTUP_TIME s') = epoch_seconds (full_year 20) 8 13 13 26 46 \<and> TICKS s' = 0 \<and>
    IRQ_TABLE s' = (IRQ_TABLE clock0)(0 := Some TimerHandler)"
proof -
  have "cmos_shows clock_chip (\<lambda>r. clock_chip [Out 0x70 r] 0x71)"
    by (simp add: cmos_shows_def clock_chip_def)
  from initTime_startup [OF this, of 46 26 13 13 8 20 clock0] show ?thesis
    by (simp add: clock_chip_def)
qed

end
