(* ===== verification/Queue.thy ===== *)
theory Queue
  imports Prelude
begin

section \<open>Terminal queues\<close>

text \<open>
  The ring buffers of \<^verbatim>\<open>include/chr_drv/tty.h\<close> (\<^verbatim>\<open>TTY_QUEUE\<close>), the steps the drivers perform on them,
  and their contract: a bounded first-in first-out queue of characters. The field \<^verbatim>\<open>proc_list\<close> is never
  used by the source and is left out. The buffer is a map from indices; the code reduces every index
  modulo \<^verbatim>\<open>TTY_BUF_SIZE\<close>, and \<open>queue_inv\<close> says so.
\<close>

subsection \<open>The interface of a bounded character queue\<close>

locale char_fifo =
  fixes put :: "'c \<Rightarrow> 'q \<Rightarrow> 'q"
    and take_one :: "'q \<Rightarrow> 'c \<times> 'q"
    and full :: "'q \<Rightarrow> bool"
    and contents :: "'q \<Rightarrow> 'c list"
    and invar :: "'q \<Rightarrow> bool"
    and cap :: nat
  assumes contents_put: "invar q \<Longrightarrow> \<not> full q \<Longrightarrow> contents (put c q) = contents q @ [c]"
    and invar_put: "invar q \<Longrightarrow> invar (put c q)"
    and take_hd: "invar q \<Longrightarrow> contents q \<noteq> [] \<Longrightarrow> fst (take_one q) = hd (contents q)"
    and take_tl: "invar q \<Longrightarrow> contents q \<noteq> [] \<Longrightarrow> contents (snd (take_one q)) = tl (contents q)"
    and invar_take: "invar q \<Longrightarrow> invar (snd (take_one q))"
    and full_iff: "invar q \<Longrightarrow> full q \<longleftrightarrow> length (contents q) = cap"
    and bounded: "invar q \<Longrightarrow> length (contents q) \<le> cap"
begin

lemma invar_puts: "invar q \<Longrightarrow> invar (fold put cs q)"
  by (induction cs arbitrary: q) (simp_all add: invar_put)

text \<open>Characters that fit are appended in order.\<close>

lemma contents_puts:
  "invar q \<Longrightarrow> length (contents q) + length cs \<le> cap \<Longrightarrow>
    contents (fold put cs q) = contents q @ cs"
proof (induction cs arbitrary: q)
  case (Cons c cs)
  then have "\<not> full q" by (simp add: full_iff)
  with Cons show ?case by (simp add: contents_put invar_put)
qed simp

lemma take_Cons:
  "invar q \<Longrightarrow> contents q = c # cs \<Longrightarrow>
    \<exists>q'. take_one q = (c, q') \<and> contents q' = cs \<and> invar q'"
  using take_hd [of q] take_tl [of q] invar_take [of q] by (cases "take_one q") auto

lemma put_then_take:
  assumes "invar q" and "contents q = []" and "0 < cap"
  shows "\<exists>q'. take_one (put c q) = (c, q') \<and> contents q' = [] \<and> invar q'"
proof -
  have "\<not> full q" using assms by (simp add: full_iff)
  then have "contents (put c q) = [c]" using assms by (simp add: contents_put)
  with take_Cons invar_put assms(1) show ?thesis by blast
qed

end

subsection \<open>The ring buffer of the terminals\<close>

abbreviation (input) TTY_BUF_SIZE :: u32 where "TTY_BUF_SIZE \<equiv> 1024"

record tty_queue =
  q_data :: u32
  q_head :: u32
  q_tail :: u32
  q_buf :: "u32 \<Rightarrow> t8"

definition queue_put :: "t8 \<Rightarrow> tty_queue \<Rightarrow> tty_queue" where
  "queue_put c q = q\<lparr>q_buf := (q_buf q)(q_head q := c), q_head := (q_head q + 1) mod TTY_BUF_SIZE\<rparr>"

definition queue_get :: "tty_queue \<Rightarrow> t8 \<times> tty_queue" where
  "queue_get q = (q_buf q (q_tail q), q\<lparr>q_tail := (q_tail q + 1) mod TTY_BUF_SIZE\<rparr>)"

definition fullQueue :: "tty_queue \<Rightarrow> bool" where
  "fullQueue q \<longleftrightarrow> q_tail q = (q_head q + 1) mod TTY_BUF_SIZE"

definition queue_length :: "tty_queue \<Rightarrow> u32" where
  "queue_length q = (q_head q - q_tail q) mod TTY_BUF_SIZE"

definition queue_inv :: "tty_queue \<Rightarrow> bool" where
  "queue_inv q \<longleftrightarrow> q_head q < TTY_BUF_SIZE \<and> q_tail q < TTY_BUF_SIZE"

definition queue_contents :: "tty_queue \<Rightarrow> t8 list" where
  "queue_contents q =
     map (\<lambda>i. q_buf q (of_nat ((unat (q_tail q) + i) mod 1024))) [0..<unat (queue_length q)]"

definition empty_queue :: "u32 \<Rightarrow> tty_queue" where
  "empty_queue d = \<lparr>q_data = d, q_head = 0, q_tail = 0, q_buf = \<lambda>_. 0\<rparr>"

subsection \<open>Index arithmetic of the ring\<close>

text \<open>How many of the 1024 slots lie between the tail and the head.\<close>

definition ring_len :: "nat \<Rightarrow> nat \<Rightarrow> nat" where
  "ring_len h t = (if t \<le> h then h - t else h + 1024 - t)"

lemma unat_mod1024: "unat ((x::u32) mod 1024) = unat x mod 1024"
  by (simp add: unat_mod)

lemma queue_inv_nat: "queue_inv q \<longleftrightarrow> unat (q_head q) < 1024 \<and> unat (q_tail q) < 1024"
  by (simp add: queue_inv_def word_less_nat_alt)

lemma wrapped_diff:
  assumes "a < t" "t < (1024 :: nat)"
  shows "(a + 4294967296 - t) mod 1024 = a + 1024 - t"
proof -
  have "a + 4294967296 - t = (a + 1024 - t) + 4194303 * 1024" using assms by simp
  then show ?thesis using assms by (simp only: mod_mult_self1) simp
qed

lemma queue_length_nat:
  "queue_inv q \<Longrightarrow> unat (queue_length q) = ring_len (unat (q_head q)) (unat (q_tail q))"
  unfolding queue_inv_nat queue_length_def unat_mod1024 unat_sub_if' ring_len_def
  by (auto simp: wrapped_diff)

lemma ring_succ_nat: "unat (h :: u32) < 1024 \<Longrightarrow> unat ((h + 1) mod 1024) = (unat h + 1) mod 1024"
  by (simp add: unat_mod1024 unat_word_ariths)

lemma fullQueue_nat:
  "queue_inv q \<Longrightarrow> fullQueue q \<longleftrightarrow> unat (q_tail q) = (unat (q_head q) + 1) mod 1024"
  by (simp add: fullQueue_def queue_inv_nat word_unat_eq_iff ring_succ_nat del: Suc_eq_plus1)

lemma ring_arith:
  assumes "h < 1024" "t < 1024"
  shows "ring_len h t < 1024"
    and "(t + ring_len h t) mod 1024 = h"
    and "t = (h + 1) mod 1024 \<longleftrightarrow> ring_len h t = 1023"
    and "t \<noteq> (h + 1) mod 1024 \<Longrightarrow> ring_len ((h + 1) mod 1024) t = Suc (ring_len h t)"
    and "ring_len h t \<noteq> 0 \<Longrightarrow> ring_len h ((t + 1) mod 1024) = ring_len h t - 1"
  using assms by (auto simp: ring_len_def mod_Suc)

lemma ring_index_ne:
  assumes "h < 1024" "t < 1024" "i < ring_len h t"
  shows "(t + i) mod 1024 \<noteq> h"
  using assms by (cases "t + i < 1024") (auto simp: ring_len_def le_mod_geq split: if_splits)

lemma length_queue_contents: "length (queue_contents q) = unat (queue_length q)"
  by (simp add: queue_contents_def)

lemma contents_ring:
  "queue_inv q \<Longrightarrow> queue_contents q =
    map (\<lambda>i. q_buf q (of_nat ((unat (q_tail q) + i) mod 1024))) [0..<ring_len (unat (q_head q)) (unat (q_tail q))]"
  by (simp add: queue_contents_def queue_length_nat)

subsection \<open>The ring buffer is a bounded queue\<close>

lemma queue_inv_put: "queue_inv q \<Longrightarrow> queue_inv (queue_put c q)"
  by (simp add: queue_inv_nat queue_put_def ring_succ_nat)

lemma queue_inv_get: "queue_inv q \<Longrightarrow> queue_inv (snd (queue_get q))"
  by (simp add: queue_inv_nat queue_get_def ring_succ_nat)

lemma fullQueue_length: "queue_inv q \<Longrightarrow> fullQueue q \<longleftrightarrow> length (queue_contents q) = 1023"
  using ring_arith(3) [of "unat (q_head q)" "unat (q_tail q)"]
  by (simp add: fullQueue_nat length_queue_contents queue_length_nat queue_inv_nat)

lemma contents_queue_put:
  assumes inv: "queue_inv q" and "\<not> fullQueue q"
  shows "queue_contents (queue_put c q) = queue_contents q @ [c]"
proof -
  define h t where "h = unat (q_head q)" and "t = unat (q_tail q)"
  have ht: "h < 1024" "t < 1024" using inv by (simp_all add: h_def t_def queue_inv_nat)
  have nf: "t \<noteq> (h + 1) mod 1024" using assms by (simp add: fullQueue_nat h_def t_def)
  have len: "ring_len (unat (q_head (queue_put c q))) (unat (q_tail (queue_put c q)))
      = Suc (ring_len h t)"
    using ring_arith(4) [OF ht nf] ring_succ_nat ht by (simp add: queue_put_def t_def h_def)
  have other: "of_nat ((t + i) mod 1024) \<noteq> q_head q" if "i < ring_len h t" for i
  proof
    assume "of_nat ((t + i) mod 1024) = q_head q"
    then have "unat (of_nat ((t + i) mod 1024) :: u32) = h" by (simp add: h_def)
    moreover have "(t + i) mod 1024 < 1024" by simp
    ultimately have "(t + i) mod 1024 = h" by (simp add: word_nat)
    with ring_index_ne [OF ht that] show False by simp
  qed
  have last: "of_nat ((t + ring_len h t) mod 1024) = q_head q"
    unfolding ring_arith(2) [OF ht] by (simp add: h_def)
  show ?thesis
    unfolding contents_ring [OF queue_inv_put [OF inv]] len contents_ring [OF inv]
      h_def [symmetric] t_def [symmetric]
    using other last by (simp add: queue_put_def t_def [symmetric])
qed

lemma contents_queue_get:
  assumes inv: "queue_inv q" and ne: "queue_contents q \<noteq> []"
  shows "queue_contents q = fst (queue_get q) # queue_contents (snd (queue_get q))"
proof -
  define h t where "h = unat (q_head q)" and "t = unat (q_tail q)"
  have ht: "h < 1024" "t < 1024" using inv by (simp_all add: h_def t_def queue_inv_nat)
  have tail': "unat (q_tail (snd (queue_get q))) = (t + 1) mod 1024"
    using ring_succ_nat ht by (simp add: queue_get_def t_def)
  have pos: "ring_len h t \<noteq> 0" using ne inv by (auto simp: contents_ring h_def t_def)
  then obtain n where n: "ring_len h t = Suc n" by (cases "ring_len h t") auto
  have len: "ring_len (unat (q_head (snd (queue_get q)))) (unat (q_tail (snd (queue_get q)))) = n"
    using ring_arith(5) [OF ht pos] tail' n by (simp add: queue_get_def h_def)
  have first: "queue_contents q = q_buf q (q_tail q) #
      map (\<lambda>i. q_buf q (of_nat ((t + Suc i) mod 1024))) [0..<n]"
    unfolding contents_ring [OF inv] h_def [symmetric] t_def [symmetric] n
    using ht by (simp add: upt_conv_Cons map_Suc_upt [symmetric] t_def del: upt_Suc)
  have "(((t + 1) mod 1024) + i) mod 1024 = (t + Suc i) mod 1024" for i
    by (simp add: mod_add_left_eq)
  then have "queue_contents (snd (queue_get q)) =
      map (\<lambda>i. q_buf q (of_nat ((t + Suc i) mod 1024))) [0..<n]"
    unfolding contents_ring [OF queue_inv_get [OF inv]] len using tail' by (simp add: queue_get_def)
  with first show ?thesis by (simp add: queue_get_def)
qed

lemma length_contents_bound: "queue_inv q \<Longrightarrow> length (queue_contents q) \<le> 1023"
  using ring_arith(1) [of "unat (q_head q)" "unat (q_tail q)"]
  by (simp add: length_queue_contents queue_length_nat queue_inv_nat)

interpretation tty_fifo: char_fifo queue_put queue_get fullQueue queue_contents queue_inv 1023
proof unfold_locales
  fix q :: tty_queue
  assume "queue_inv q" and "queue_contents q \<noteq> []"
  from contents_queue_get [OF this]
  show "fst (queue_get q) = hd (queue_contents q)"
    and "queue_contents (snd (queue_get q)) = tl (queue_contents q)" by simp_all
qed (simp_all add: contents_queue_put queue_inv_put queue_inv_get fullQueue_length
    length_contents_bound)

lemma queue_empty_iff: "queue_inv q \<Longrightarrow> queue_contents q = [] \<longleftrightarrow> q_head q = q_tail q"
  by (auto simp: contents_ring ring_len_def queue_inv_nat word_unat_eq_iff split: if_splits)

lemma empty_queue_facts [simp]:
  "queue_inv (empty_queue d)" "queue_contents (empty_queue d) = []"
  by (simp_all add: empty_queue_def queue_inv_def queue_contents_def queue_length_def)

end
