(* ===== verification/Console.thy ===== *)
theory Console
  imports Clock Queue
begin

section \<open>The console\<close>

text \<open>
  \<^verbatim>\<open>kernel/chr_drv/console.c\<close>: the cursor, the text memory of the display and the output routine of the
  console terminal, with the data of \<^verbatim>\<open>include/chr_drv/tty.h\<close> and \<^verbatim>\<open>termios.h\<close> it reads. The text
  memory is a map from addresses to 16-bit cells. The abstract counterpart is a terminal of numbered
  rows and columns that knows nothing of addresses, of the display window or of the hardware.
\<close>

record termios =
  c_iflag :: u32
  c_oflag :: u32
  c_cflag :: u32
  c_lflag :: u32
  c_line :: u8
  c_cc :: "nat \<Rightarrow> u8"

datatype tty_write = ConWrite | RsWrite

record tty_struct =
  tty_termios :: termios
  tty_pgrp :: u32
  tty_stopped :: t32
  tty_writer :: tty_write
  read_q :: tty_queue
  write_q :: tty_queue
  secondary :: tty_queue

record console = clock +
  TTY_TABLE :: "nat \<Rightarrow> tty_struct"
  con_origin :: u32
  con_scr_end :: u32
  con_x :: u32
  con_y :: u32
  con_pos :: u32
  con_top :: u32
  con_bottom :: u32
  con_attr :: u16
  video :: "u32 \<Rightarrow> u16"

abbreviation (input) VIDEO_NUM_COLUMNS :: u32 where "VIDEO_NUM_COLUMNS \<equiv> 80"
abbreviation (input) VIDEO_SIZE_ROW :: u32 where "VIDEO_SIZE_ROW \<equiv> 160"
abbreviation (input) VIDEO_MEM_START :: u32 where "VIDEO_MEM_START \<equiv> 0xB8000"
abbreviation (input) VIDEO_MEM_END :: u32 where "VIDEO_MEM_END \<equiv> 0xC0000"
abbreviation (input) VERASE :: nat where "VERASE \<equiv> 2"

subsection \<open>Programming the display controller\<close>

definition setCursor :: "'a console_scheme \<Rightarrow> 'a console_scheme" where
  "setCursor s =
     (let s = disableInt s;
          s = outByte 0x3D4 0xE s;
          s = outByte 0x3D5 (ucast (drop_bit 9 (con_pos s - VIDEO_MEM_START) AND 0xFF)) s;
          s = outByte 0x3D4 0xF s;
          s = outByte 0x3D5 (ucast (drop_bit 1 (con_pos s - VIDEO_MEM_START) AND 0xFF)) s
      in enableInt s)"

definition setOrigin :: "'a console_scheme \<Rightarrow> 'a console_scheme" where
  "setOrigin s =
     (let s = disableInt s;
          s = outByte 0x3D4 12 s;
          s = outByte 0x3D5 (ucast (drop_bit 9 (con_origin s - VIDEO_MEM_START) AND 0xFF)) s;
          s = outByte 0x3D4 13 s;
          s = outByte 0x3D5 (ucast (drop_bit 1 (con_origin s - VIDEO_MEM_START) AND 0xFF)) s
      in enableInt s)"

subsection \<open>Cursor movement\<close>

definition scrollUp :: "'a console_scheme \<Rightarrow> 'a console_scheme" where
  "scrollUp s =
     (if con_scr_end s < VIDEO_MEM_END
      then setCursor (setOrigin (s\<lparr>con_origin := con_origin s + VIDEO_SIZE_ROW,
             con_scr_end := con_scr_end s + VIDEO_SIZE_ROW,
             con_y := con_y s + 1, con_pos := con_pos s + VIDEO_SIZE_ROW\<rparr>))
      else s)"

definition scrollDown :: "'a console_scheme \<Rightarrow> 'a console_scheme" where
  "scrollDown s =
     (if con_origin s > VIDEO_MEM_START
      then setCursor (setOrigin (s\<lparr>con_origin := con_origin s - VIDEO_SIZE_ROW,
             con_scr_end := con_scr_end s - VIDEO_SIZE_ROW,
             con_y := con_y s - 1, con_pos := con_pos s - VIDEO_SIZE_ROW\<rparr>))
      else s)"

definition lf :: "'a console_scheme \<Rightarrow> 'a console_scheme" where
  "lf s =
     (if con_y s + 1 < con_bottom s
      then s\<lparr>con_y := con_y s + 1, con_pos := con_pos s + VIDEO_SIZE_ROW\<rparr>
      else scrollUp s)"

definition cr :: "'a console_scheme \<Rightarrow> 'a console_scheme" where
  "cr s = s\<lparr>con_pos := con_pos s - con_x s * 2, con_x := 0\<rparr>"

definition del :: "'a console_scheme \<Rightarrow> 'a console_scheme" where
  "del s =
     (if con_x s \<noteq> 0
      then let s = s\<lparr>con_pos := con_pos s - 2, con_x := con_x s - 1\<rparr>
           in s\<lparr>video := (video s)(con_pos s := con_attr s OR 0x20)\<rparr>
      else s)"

text \<open>The wrap at the end of a line: back to its start and down one line.\<close>

definition wrap_line :: "'a console_scheme \<Rightarrow> 'a console_scheme" where
  "wrap_line s =
     lf (s\<lparr>con_x := con_x s - VIDEO_NUM_COLUMNS, con_pos := con_pos s - VIDEO_SIZE_ROW\<rparr>)"

subsection \<open>Output\<close>

text \<open>
  One turn of the loop of \<open>conWrite\<close> after it has taken \<open>ch\<close> from the queue. \<open>ch\<close> is a signed
  \<^verbatim>\<open>char\<close>; the erase character is an unsigned byte, so the two are equal only below 128.
\<close>

definition con_char :: "u8 \<Rightarrow> t8 \<Rightarrow> 'a console_scheme \<Rightarrow> 'a console_scheme" where
  "con_char erase ch s =
     (if 31 < sint ch \<and> sint ch < 127 then
        let s = (if con_x s \<ge> VIDEO_NUM_COLUMNS then wrap_line s else s)
        in s\<lparr>video := (video s)(con_pos s := con_attr s OR ucast ch),
             con_x := con_x s + 1, con_pos := con_pos s + 2\<rparr>
      else if ch = 27 then s
      else if ch = 10 \<or> ch = 11 \<or> ch = 12 then lf s
      else if ch = 13 then cr s
      else if sint ch = uint erase then del s
      else if ch = 8 then
        (if con_x s \<noteq> 0 then s\<lparr>con_x := con_x s - 1, con_pos := con_pos s - 2\<rparr> else s)
      else if ch = 9 then
        let n = 8 - (con_x s AND 7);
            s = s\<lparr>con_x := con_x s + n, con_pos := con_pos s + n * 2\<rparr>
        in if con_x s > VIDEO_NUM_COLUMNS then wrap_line s else s
      else s)"

definition con_step :: "nat \<Rightarrow> 'a console_scheme \<Rightarrow> 'a console_scheme" where
  "con_step chan s =
     (let tty = TTY_TABLE s chan;
          (ch, q) = queue_get (write_q tty)
      in con_char (c_cc (tty_termios tty) VERASE) ch
           (s\<lparr>TTY_TABLE := (TTY_TABLE s)(chan := tty\<lparr>write_q := q\<rparr>)\<rparr>))"

primrec con_loop :: "nat \<Rightarrow> nat \<Rightarrow> 'a console_scheme \<Rightarrow> 'a console_scheme" where
  "con_loop chan 0 s = s"
| "con_loop chan (Suc nr) s = con_loop chan nr (con_step chan s)"

definition conWrite :: "nat \<Rightarrow> 'a console_scheme \<Rightarrow> 'a console_scheme" where
  "conWrite chan s =
     setCursor (con_loop chan (unat (queue_length (write_q (TTY_TABLE s chan)))) s)"

definition initConsole :: "'a console_scheme \<Rightarrow> 'a console_scheme" where
  "initConsole s =
     setCursor (setOrigin (s\<lparr>con_x := 0, con_y := 9, con_top := 0, con_bottom := 25,
       con_pos := 0xB8000 + 9 * 160 + 0 * 2\<rparr>))"

text \<open>The controller commands change nothing but the port trace and the interrupt flag.\<close>

lemma crt_fields [simp]:
  "TTY_TABLE (setCursor s) = TTY_TABLE s" "TTY_TABLE (setOrigin s) = TTY_TABLE s"
  "con_origin (setCursor s) = con_origin s" "con_origin (setOrigin s) = con_origin s"
  "con_scr_end (setCursor s) = con_scr_end s" "con_scr_end (setOrigin s) = con_scr_end s"
  "con_x (setCursor s) = con_x s" "con_x (setOrigin s) = con_x s"
  "con_y (setCursor s) = con_y s" "con_y (setOrigin s) = con_y s"
  "con_pos (setCursor s) = con_pos s" "con_pos (setOrigin s) = con_pos s"
  "con_top (setCursor s) = con_top s" "con_top (setOrigin s) = con_top s"
  "con_bottom (setCursor s) = con_bottom s" "con_bottom (setOrigin s) = con_bottom s"
  "con_attr (setCursor s) = con_attr s" "con_attr (setOrigin s) = con_attr s"
  "video (setCursor s) = video s" "video (setOrigin s) = video s"
  by (simp_all add: setCursor_def setOrigin_def io_defs Let_def)

subsection \<open>The invariant of the cursor\<close>

text \<open>
  The cursor's address is the cell of its row and column, the display window follows the row once
  the row has left the first screen, and no row beyond 204 is ever reached. \<open>window\<close> is the number of
  rows the display has scrolled.
\<close>

definition con_inv :: "'a console_scheme \<Rightarrow> bool" where
  "con_inv s \<longleftrightarrow> con_x s \<le> 80 \<and> con_y s \<le> 204 \<and> con_bottom s = 25 \<and>
     con_pos s = 0xB8000 + 160 * con_y s + 2 * con_x s \<and>
     con_origin s = 0xB8000 + 160 * (if con_y s \<le> 24 then 0 else con_y s - 24) \<and>
     con_scr_end s = con_origin s + 4000"

lemma scr_end_row:
  fixes k :: u32
  assumes "k \<le> 180"
  shows "0xB8000 + 160 * k + 4000 < 0xC0000 \<longleftrightarrow> k < 180"
proof -
  have "unat k \<le> 180" using assms by (simp add: word_le_nat_alt)
  then show ?thesis by (auto simp: word_less_nat_alt unat_word_ariths)
qed

lemma row_lt: "(y::u32) \<le> 204 \<Longrightarrow> y + 1 < 25 \<longleftrightarrow> y < 24"
  by (auto simp: word_less_nat_alt word_le_nat_alt unat_word_ariths)

lemma row_window: "(y::u32) \<le> 204 \<Longrightarrow> \<not> y < 24 \<Longrightarrow> 
   y - 24 \<le> 180 \<and> (y - 24 < 180 \<longleftrightarrow> y < 204) \<and> (y < 204 \<longrightarrow> y + 1 \<le> 204 \<and> \<not> y + 1 \<le> 24)"
  by (auto simp: word_less_nat_alt word_le_nat_alt unat_minus_small unat_word_ariths)

definition window :: "u32 \<Rightarrow> u32" where
  "window y = (if y \<le> 24 then 0 else y - 24)"
lemma window_eq: "\<not> y < 24 \<Longrightarrow> window y = y - 24"
  by (auto simp: window_def not_less dest: antisym)

lemma lf_spec:
  assumes "con_inv s"
  shows "con_y (lf s) = (if con_y s < 204 then con_y s + 1 else con_y s) \<and> con_x (lf s) = con_x s \<and> video (lf s) = video s \<and> con_attr (lf s) = con_attr s
    \<and> TTY_TABLE (lf s) = TTY_TABLE s \<and> con_inv (lf s)"
proof (cases "con_y s < 24")
  case True
  then have "con_y s + 1 < 25" "con_y s \<le> 24" "con_y s + 1 \<le> 24" "con_y s < 204" "con_y s + 1 \<le> 204"
    by (auto simp: word_less_nat_alt word_le_nat_alt unat_word_ariths)
  with assms show ?thesis by (auto simp: lf_def con_inv_def)
next
  case False
  let ?y = "con_y s"
  have y: "?y \<le> 204" using assms by (simp add: con_inv_def)
  note w = row_window [OF y False]
  have nlt: "\<not> ?y + 1 < con_bottom s" using False row_lt [OF y] assms by (simp add: con_inv_def)
  have org: "con_origin s = 0xB8000 + 160 * (?y - 24)" using assms window_eq [OF False] by (simp add: con_inv_def window_def)
  have sc: "con_scr_end s < 0xC0000 \<longleftrightarrow> ?y < 204"
    using scr_end_row [of "?y - 24"] w assms org by (simp add: con_inv_def)
  show ?thesis
  proof (cases "?y < 204")
    case True
    then show ?thesis using assms nlt sc w org
     by (simp add: lf_def scrollUp_def con_inv_def algebra_simps)
  next
    case f: False
    then show ?thesis using assms nlt sc by (simp add: lf_def scrollUp_def)
  qed
qed

subsection \<open>The abstract terminal\<close>

text \<open>
  A grid of numbered cells, 80 to a row; the cell of row \<open>r\<close> and column \<open>c\<close> is number \<open>80 * r + c\<close>.
  A line feed moves down until row 204, the last one the display memory is scrolled to, and then
  stays there. The abstraction reads the column and row off the cursor and the cells off the display
  memory.
\<close>

record terminal =
  t_col :: nat
  t_row :: nat
  t_cells :: "nat \<Rightarrow> u16"
  t_pen :: u16

definition term_newline :: "terminal \<Rightarrow> terminal" where
  "term_newline t = (if t_row t < 204 then t\<lparr>t_row := t_row t + 1\<rparr> else t)"

definition term_wrap :: "terminal \<Rightarrow> terminal" where
  "term_wrap t = term_newline (t\<lparr>t_col := t_col t - 80\<rparr>)"

definition term_poke :: "u16 \<Rightarrow> terminal \<Rightarrow> terminal" where
  "term_poke c t = t\<lparr>t_cells := (t_cells t)(80 * t_row t + t_col t := t_pen t OR c)\<rparr>"

definition term_char :: "u8 \<Rightarrow> t8 \<Rightarrow> terminal \<Rightarrow> terminal" where
  "term_char erase ch t =
     (if 31 < sint ch \<and> sint ch < 127 then
        let t = (if t_col t \<ge> 80 then term_wrap t else t)
        in (term_poke (ucast ch) t)\<lparr>t_col := t_col t + 1\<rparr>
      else if ch = 27 then t
      else if ch = 10 \<or> ch = 11 \<or> ch = 12 then term_newline t
      else if ch = 13 then t\<lparr>t_col := 0\<rparr>
      else if sint ch = uint erase then
        (if t_col t = 0 then t else term_poke 0x20 (t\<lparr>t_col := t_col t - 1\<rparr>))
      else if ch = 8 then t\<lparr>t_col := t_col t - 1\<rparr>
      else if ch = 9 then
        let t = t\<lparr>t_col := 8 * (t_col t div 8) + 8\<rparr> in if t_col t > 80 then term_wrap t else t
      else t)"

definition cells_of :: "(u32 \<Rightarrow> u16) \<Rightarrow> nat \<Rightarrow> u16" where
  "cells_of v i = (if i < 16400 then v (0xB8000 + 2 * of_nat i) else 0)"

definition con_abs :: "'a console_scheme \<Rightarrow> terminal" where
  "con_abs s =
     \<lparr>t_col = unat (con_x s), t_row = unat (con_y s),
      t_cells = cells_of (video s),
      t_pen = con_attr s\<rparr>"

lemma cell_inj:
  assumes "i < 16400" "j < 16400" "(0xB8000 + 2 * of_nat i :: u32) = 0xB8000 + 2 * of_nat j"
  shows "i = j"
proof -
  have "(of_nat (2 * i) :: u32) = of_nat (2 * j)" using assms(3) by simp
  then have "unat (of_nat (2 * i) :: u32) = unat (of_nat (2 * j) :: u32)" by simp
  then show ?thesis
    using assms(1,2) unat_of_nat_u32 [of "2 * i"] unat_of_nat_u32 [of "2 * j"] by linarith
qed

lemma cells_of_upd:
  assumes "i < 16400"
  shows "cells_of (v(0xB8000 + 2 * of_nat i := c)) = (cells_of v)(i := c)"
proof (rule ext)
  fix k
  show "cells_of (v(0xB8000 + 2 * of_nat i := c)) k = ((cells_of v)(i := c)) k"
    using cell_inj [of k i] assms by (cases "k = i") (auto simp only: cells_of_def fun_upd_apply split: if_splits)
qed

lemma con_abs_poke:
  assumes "con_inv s" and "con_x s < 80"
  shows "con_abs (s\<lparr>video := (video s)(con_pos s := con_attr s OR c)\<rparr>) = term_poke c (con_abs s)"
proof -
  let ?i = "80 * unat (con_y s) + unat (con_x s)"
  have i: "?i < 16400" using assms by (auto simp: con_inv_def word_less_nat_alt word_le_nat_alt)
  have pos: "con_pos s = 0xB8000 + 2 * of_nat ?i" using assms(1) by (simp add: con_inv_def)
  have "cells_of ((video s)(con_pos s := con_attr s OR c)) =
      (cells_of (video s))(?i := con_attr s OR c)"
    unfolding pos using i by (rule cells_of_upd)
  then show ?thesis by (simp add: con_abs_def term_poke_def)
qed
lemma unat_row_succ: "(y :: u32) < 204 \<Longrightarrow> unat (y + 1) = unat y + 1"
  using unat_plus_small [of y 1] by (simp add: word_less_nat_alt)

lemma con_abs_lf:
  assumes "con_inv s"
  shows "con_abs (lf s) = term_newline (con_abs s)"
  using lf_spec [OF assms] unat_row_succ [of "con_y s"]
  by (cases "con_y s < 204") (simp_all add: con_abs_def term_newline_def word_less_nat_alt)

lemma wrap_spec:
  assumes "con_inv (s\<lparr>con_x := con_x s - 80, con_pos := con_pos s - 160\<rparr>)" "80 \<le> con_x s"
  shows "con_inv (wrap_line s) \<and> con_abs (wrap_line s) = term_wrap (con_abs s) \<and> 
    con_x (wrap_line s) = con_x s - 80 \<and> TTY_TABLE (wrap_line s) = TTY_TABLE s"
proof -
  let ?s = "s\<lparr>con_x := con_x s - 80, con_pos := con_pos s - 160\<rparr>"
  have "con_abs ?s = (con_abs s)\<lparr>t_col := t_col (con_abs s) - 80\<rparr>"
    using assms(2) by (simp add: con_abs_def unat_minus_small)
  with lf_spec [OF assms(1)] con_abs_lf [OF assms(1)] show ?thesis
    by (simp add: wrap_line_def term_wrap_def)
qed

subsection \<open>Every character is handled as on the abstract terminal\<close>

lemma x_succ: "(x :: u32) < 80 \<Longrightarrow> x + 1 \<le> 80 \<and> unat (x + 1) = unat x + 1"
  using unat_plus_small [of x 1] by (simp add: word_less_nat_alt word_le_nat_alt)

lemma x_pred: "(x :: u32) \<noteq> 0 \<Longrightarrow> x \<le> 80 \<Longrightarrow> x - 1 < 80 \<and> x - 1 \<le> 80 \<and> unat (x - 1) = unat x - 1"
  using unat_minus_small [of 1 x] by (auto simp: word_less_nat_alt word_le_nat_alt word_unat_eq_iff)

lemma putc_spec:
  fixes c :: u16 and s :: "'a console_scheme"
  assumes "con_inv s" and "con_x s < 80"
  defines "s' \<equiv> s\<lparr>video := (video s)(con_pos s := con_attr s OR c),
      con_x := con_x s + 1, con_pos := con_pos s + 2\<rparr>"
  shows "con_inv s'" and "con_abs s' = (term_poke c (con_abs s))\<lparr>t_col := t_col (con_abs s) + 1\<rparr>"
proof -
  show "con_inv s'" using assms x_succ [of "con_x s"] by (simp add: con_inv_def)
  have "con_abs s' = (con_abs (s\<lparr>video := (video s)(con_pos s := con_attr s OR c)\<rparr>))\<lparr>t_col := t_col (con_abs s) + 1\<rparr>"
    using assms x_succ [of "con_x s"] by (simp add: con_abs_def)
  then show "con_abs s' = (term_poke c (con_abs s))\<lparr>t_col := t_col (con_abs s) + 1\<rparr>"
    by (simp add: con_abs_poke assms)
qed

lemma back_spec:
  assumes "con_inv s" and "con_x s \<noteq> 0"
  defines "s' \<equiv> s\<lparr>con_pos := con_pos s - 2, con_x := con_x s - 1\<rparr>"
  shows "con_inv s'" and "con_abs s' = (con_abs s)\<lparr>t_col := t_col (con_abs s) - 1\<rparr>" and "con_x s' < 80"
  using assms x_pred [of "con_x s"] by (simp_all add: con_inv_def con_abs_def algebra_simps)

lemma del_spec:
  assumes "con_inv s"
  shows "con_inv (del s)"
    and "con_abs (del s) = (if t_col (con_abs s) = 0 then con_abs s
      else term_poke 0x20 ((con_abs s)\<lparr>t_col := t_col (con_abs s) - 1\<rparr>))"
proof -
  have col: "t_col (con_abs s) = 0 \<longleftrightarrow> con_x s = 0" by (simp add: con_abs_def word_unat_eq_iff)
  have "con_inv (del s) \<and> con_abs (del s) = (if con_x s = 0 then con_abs s
      else term_poke 0x20 ((con_abs s)\<lparr>t_col := t_col (con_abs s) - 1\<rparr>))"
  proof (cases "con_x s = 0")
    case False
    note b = back_spec [OF assms False]
    from con_abs_poke [OF b(1,3), where c = "0x20"] b False show ?thesis
      by (simp add: del_def Let_def con_inv_def)
  qed (simp add: del_def assms)
  with col show "con_inv (del s)"
    and "con_abs (del s) = (if t_col (con_abs s) = 0 then con_abs s
      else term_poke 0x20 ((con_abs s)\<lparr>t_col := t_col (con_abs s) - 1\<rparr>))" by simp_all
qed

lemma cr_spec:
  assumes "con_inv s"
  shows "con_inv (cr s)" and "con_abs (cr s) = (con_abs s)\<lparr>t_col := 0\<rparr>"
  using assms by (simp_all add: cr_def con_inv_def con_abs_def)

lemma tab_col:
  fixes x :: u32
  assumes "x \<le> 80"
  shows "unat (x + (8 - (x AND 7))) = 8 * (unat x div 8) + 8"
proof -
  have u: "unat (x AND 7) = unat x mod 8"
    by (simp only: and_mask_take_bit take_bit_eq_mod) (simp add: unat_mod)
  have m: "unat x mod 8 < 8" by simp
  have d: "unat (8 - (x AND 7)) = 8 - unat x mod 8"
    using m by (subst unat_minus_small) (simp_all add: word_le_nat_alt u)
  have "unat x \<le> 80" using assms by (simp add: word_le_nat_alt)
  then have "unat (x + (8 - (x AND 7))) = unat x + (8 - unat x mod 8)"
    using m by (subst unat_plus_small) (simp_all add: d)
  also have "\<dots> = 8 * (unat x div 8) + 8"
    using m div_mult_mod_eq [of "unat x" 8] by linarith
  finally show ?thesis .
qed

lemma tab_spec:
  assumes inv: "con_inv s"
  defines "n \<equiv> 8 - (con_x s AND 7)"
  defines "s' \<equiv> s\<lparr>con_x := con_x s + n, con_pos := con_pos s + n * 2\<rparr>"
  defines "r \<equiv> if con_x s' > 80 then wrap_line s' else s'"
  defines "t \<equiv> (con_abs s)\<lparr>t_col := 8 * (t_col (con_abs s) div 8) + 8\<rparr>"
  shows "con_inv r \<and> con_abs r = (if t_col t > 80 then term_wrap t else t) \<and> TTY_TABLE r = TTY_TABLE s"
proof -
  from inv have x: "con_x s \<le> 80" by (simp add: con_inv_def)
  have ux: "unat (con_x s') = 8 * (unat (con_x s) div 8) + 8"
    using tab_col [OF x] by (simp add: s'_def n_def)
  have abs: "con_abs s' = t"
    using ux by (simp add: con_abs_def t_def s'_def)
  have gt: "con_x s' > 80 \<longleftrightarrow> t_col t > 80"
    using ux by (simp add: t_def con_abs_def word_less_nat_alt)
  show ?thesis
  proof (cases "con_x s' > 80")
    case True
    have "unat (con_x s) \<le> 80" using x by (simp add: word_le_nat_alt)
    then have "unat (con_x s') \<le> 88" unfolding ux by linarith
    then have "con_x s' - 80 \<le> 80"
      using True by (simp add: word_le_nat_alt word_less_nat_alt unat_minus_small)
    moreover have "con_pos s' = 0xB8000 + 160 * con_y s' + 2 * con_x s'"
      using inv by (simp add: con_inv_def s'_def algebra_simps)
    ultimately have "con_inv (s'\<lparr>con_x := con_x s' - 80, con_pos := con_pos s' - 160\<rparr>)"
      using inv by (simp add: con_inv_def s'_def algebra_simps)
    from wrap_spec [OF this] True abs gt show ?thesis by (simp add: r_def s'_def)
  next
    case False
    then have "con_inv s'" using inv by (simp add: con_inv_def s'_def algebra_simps not_less)
    with False gt abs show ?thesis by (simp add: r_def s'_def)
  qed
qed

lemma printable_spec:
  assumes inv: "con_inv s"
  defines "s1 \<equiv> if con_x s \<ge> 80 then wrap_line s else s"
  shows "con_inv s1 \<and> con_abs s1 = (if t_col (con_abs s) \<ge> 80 then term_wrap (con_abs s) else con_abs s) \<and>
    con_x s1 < 80 \<and> TTY_TABLE s1 = TTY_TABLE s"
proof (cases "con_x s \<ge> 80")
  case True
  with inv have x: "con_x s = 80" by (simp add: con_inv_def)
  with inv have "con_inv (s\<lparr>con_x := con_x s - 80, con_pos := con_pos s - 160\<rparr>)"
    by (simp add: con_inv_def algebra_simps)
  moreover have "t_col (con_abs s) = 80" using x by (simp add: con_abs_def)
  ultimately show ?thesis using wrap_spec [of s] x by (simp add: s1_def)
next
  case False
  with inv show ?thesis by (simp add: s1_def con_abs_def word_le_nat_alt word_less_nat_alt)
qed

lemma con_char_spec:
  assumes inv: "con_inv s"
  shows "con_inv (con_char e c s) \<and> con_abs (con_char e c s) = term_char e c (con_abs s)"
proof -
  have col: "t_col (con_abs s) = unat (con_x s)" by (simp add: con_abs_def)
  consider (print) "31 < sint c \<and> sint c < 127" | (ctrl) "\<not> (31 < sint c \<and> sint c < 127)" "c \<noteq> 9" "c \<noteq> 8"
     | (bs) "c = 8" "sint c \<noteq> uint e" | (tab) "c = 9" "sint c \<noteq> uint e" | (erase) "c = 8 \<or> c = 9" "sint c = uint e" by blast
  then show ?thesis
  proof cases
    case print
    from printable_spec [OF inv] putc_spec [of "if con_x s \<ge> 80 then wrap_line s else s" "ucast c"] print
    show ?thesis by (simp add: con_char_def term_char_def Let_def)
  next
    case ctrl
    have "con_char e c s =
        (if c = 27 then s else if c = 10 \<or> c = 11 \<or> c = 12 then lf s
         else if c = 13 then cr s else if sint c = uint e then del s else s)"
      by (simp only: con_char_def ctrl if_False)
    moreover have "term_char e c (con_abs s) =
        (if c = 27 then con_abs s else if c = 10 \<or> c = 11 \<or> c = 12 then term_newline (con_abs s)
         else if c = 13 then (con_abs s)\<lparr>t_col := 0\<rparr>
         else if sint c = uint e then con_abs (del s) else con_abs s)"
      by (simp only: term_char_def ctrl if_False del_spec [OF inv])
    ultimately show ?thesis
      using inv lf_spec [OF inv] con_abs_lf [OF inv] cr_spec [OF inv] del_spec(1) [OF inv]
      by (simp only: split: if_split) blast
  next
    case bs
    then show ?thesis using inv back_spec [OF inv]
      by (simp add: con_char_def term_char_def con_abs_def con_inv_def)
  next
    case tab
    then show ?thesis using tab_spec [OF inv] by (simp add: con_char_def term_char_def Let_def)
  next
    case erase
    then show ?thesis using del_spec [OF inv] by (auto simp: con_char_def term_char_def)
  qed
qed

lemma con_char_tty [simp]: "TTY_TABLE (con_char e c s) = TTY_TABLE s"
  by (simp add: con_char_def Let_def lf_def scrollUp_def cr_def del_def wrap_line_def)

subsection \<open>A whole write\<close>

definition tty_inv :: "'a console_scheme \<Rightarrow> bool" where
  "tty_inv s \<longleftrightarrow> (\<forall>chan. queue_inv (read_q (TTY_TABLE s chan)) \<and> queue_inv (write_q (TTY_TABLE s chan)))"

definition erase_of :: "'a console_scheme \<Rightarrow> nat \<Rightarrow> u8" where
  "erase_of s chan = c_cc (tty_termios (TTY_TABLE s chan)) VERASE"

abbreviation (input) pending :: "nat \<Rightarrow> 'a console_scheme \<Rightarrow> t8 list" where
  "pending chan s \<equiv> queue_contents (write_q (TTY_TABLE s chan))"

lemma con_inv_tty [simp]: "con_inv (s\<lparr>TTY_TABLE := t\<rparr>) = con_inv s" "con_abs (s\<lparr>TTY_TABLE := t\<rparr>) = con_abs s"
  by (simp_all add: con_inv_def con_abs_def)

lemma crt_inv [simp]: "con_inv (setCursor s) = con_inv s" "con_abs (setCursor s) = con_abs s"
   "con_inv (setOrigin s) = con_inv s" "con_abs (setOrigin s) = con_abs s"
  by (simp_all add: con_inv_def con_abs_def)

text \<open>Everything of the terminals except the write queue of one channel.\<close>

definition tty_config :: "tty_struct \<Rightarrow> tty_struct" where
  "tty_config t = t\<lparr>write_q := empty_queue 0\<rparr>"

definition only_queue :: "nat \<Rightarrow> 'a console_scheme \<Rightarrow> 'b console_scheme \<Rightarrow> bool" where
  "only_queue chan s s' \<longleftrightarrow> (\<forall>k. k \<noteq> chan \<longrightarrow> TTY_TABLE s' k = TTY_TABLE s k) \<and>
     tty_config (TTY_TABLE s' chan) = tty_config (TTY_TABLE s chan)"

lemma only_queue_refl [simp]: "only_queue chan s s"
  by (simp add: only_queue_def)

lemma only_queue_trans [trans]:
  "only_queue chan s s' \<Longrightarrow> only_queue chan s' s'' \<Longrightarrow> only_queue chan s s''"
  by (simp add: only_queue_def)

lemma tty_config_eqD:
  assumes "tty_config t = tty_config t'"
  shows "tty_termios t = tty_termios t'" "tty_writer t = tty_writer t'" "read_q t = read_q t'"
  using assms by (cases t; cases t'; simp add: tty_config_def)+

lemma only_queue_termios:
  "only_queue chan s s' \<Longrightarrow> tty_termios (TTY_TABLE s' k) = tty_termios (TTY_TABLE s k)"
  "only_queue chan s s' \<Longrightarrow> tty_writer (TTY_TABLE s' k) = tty_writer (TTY_TABLE s k)"
  "only_queue chan s s' \<Longrightarrow> erase_of s' k = erase_of s k"
  by (cases "k = chan"; auto simp: only_queue_def erase_of_def dest: tty_config_eqD)+

lemma con_step_spec:
  assumes inv: "con_inv s" and q: "queue_inv (write_q (TTY_TABLE s chan))" and p: "pending chan s = c # cs"
  shows "con_inv (con_step chan s)"
    and "con_abs (con_step chan s) = term_char (erase_of s chan) c (con_abs s)"
    and "pending chan (con_step chan s) = cs"
    and "TTY_TABLE (con_step chan s) = (TTY_TABLE s)(chan :=
      (TTY_TABLE s chan)\<lparr>write_q := snd (queue_get (write_q (TTY_TABLE s chan)))\<rparr>)"
proof -
  obtain q' where g: "queue_get (write_q (TTY_TABLE s chan)) = (c, q')" "queue_contents q' = cs"
    using tty_fifo.take_Cons [OF q p] by blast
  let ?s = "s\<lparr>TTY_TABLE := (TTY_TABLE s)(chan := (TTY_TABLE s chan)\<lparr>write_q := q'\<rparr>)\<rparr>"
  have st: "con_step chan s = con_char (erase_of s chan) c ?s"
    by (simp add: con_step_def erase_of_def g Let_def)
  have "con_inv ?s" using inv by simp
  note cc = con_char_spec [OF this, of "erase_of s chan" c]
  show "con_inv (con_step chan s)" "con_abs (con_step chan s) = term_char (erase_of s chan) c (con_abs s)"
    using cc unfolding st by simp_all
  show "pending chan (con_step chan s) = cs" "TTY_TABLE (con_step chan s) = (TTY_TABLE s)(chan :=
      (TTY_TABLE s chan)\<lparr>write_q := snd (queue_get (write_q (TTY_TABLE s chan)))\<rparr>)"
    unfolding st by (simp_all add: g)
qed

lemma con_loop_spec:
  assumes "con_inv s" and "tty_inv s" and "pending chan s = cs"
  shows "con_inv (con_loop chan (length cs) s) \<and> tty_inv (con_loop chan (length cs) s) \<and>
    con_abs (con_loop chan (length cs) s) = fold (term_char (erase_of s chan)) cs (con_abs s) \<and>
    pending chan (con_loop chan (length cs) s) = [] \<and> only_queue chan s (con_loop chan (length cs) s)"
  using assms
proof (induction cs arbitrary: s)
  case (Cons c cs)
  have q: "queue_inv (write_q (TTY_TABLE s chan))" using Cons.prems by (simp add: tty_inv_def)
  note st = con_step_spec [OF Cons.prems(1) q Cons.prems(3)]
  have "tty_inv (con_step chan s)"
    using Cons.prems(2) queue_inv_get by (simp add: tty_inv_def st(4))
  note IH = Cons.IH [OF st(1) this st(3)]
  have er: "erase_of (con_step chan s) chan = erase_of s chan" by (simp add: erase_of_def st(4))
  have "only_queue chan s (con_step chan s)" by (simp add: only_queue_def st(4) tty_config_def)
  with IH er st(2) show ?case by (auto intro: only_queue_trans)
qed simp

lemma conWrite_spec:
  assumes "con_inv s" and "tty_inv s"
  shows "con_inv (conWrite chan s)" and "tty_inv (conWrite chan s)"
    and "con_abs (conWrite chan s) = fold (term_char (erase_of s chan)) (pending chan s) (con_abs s)"
    and "pending chan (conWrite chan s) = []"
    and "only_queue chan s (conWrite chan s)"
proof -
  have "conWrite chan s = setCursor (con_loop chan (length (pending chan s)) s)"
    by (simp add: conWrite_def length_queue_contents)
  with con_loop_spec [OF assms refl, of chan]
  show "con_inv (conWrite chan s)" and "tty_inv (conWrite chan s)"
    and "con_abs (conWrite chan s) = fold (term_char (erase_of s chan)) (pending chan s) (con_abs s)"
    and "pending chan (conWrite chan s) = []"
    and "only_queue chan s (conWrite chan s)"
    by (simp_all add: tty_inv_def only_queue_def)
qed

subsection \<open>Where the console writes\<close>

definition in_video :: "u32 \<Rightarrow> bool" where
  "in_video a \<longleftrightarrow> 0xB8000 \<le> a \<and> a < 0xC0020"

lemma pos_in_video:
  assumes "con_inv s" and "con_x s < 80"
  shows "in_video (con_pos s)"
proof -
  let ?i = "160 * unat (con_y s) + 2 * unat (con_x s)"
  have i: "?i < 32800" using assms by (auto simp: con_inv_def word_less_nat_alt word_le_nat_alt)
  have "con_pos s = of_nat (0xB8000 + ?i)" using assms(1) by (simp add: con_inv_def)
  then have "unat (con_pos s) = 0xB8000 + ?i"
    using unat_of_nat_u32 [of "0xB8000 + ?i"] i by simp
  then show ?thesis using i by (simp add: in_video_def word_less_nat_alt word_le_nat_alt)
qed

lemma video_lf [simp]: "video (lf s) = video s"
  by (simp add: lf_def scrollUp_def)

lemma video_con_char:
  assumes inv: "con_inv s" and a: "\<not> in_video a"
  shows "video (con_char e c s) a = video s a"
proof -
  have "video (del s) a = video s a"
    using pos_in_video [OF back_spec(1,3) [OF inv]] inv a by (auto simp: del_def Let_def)
  moreover have "con_pos (if con_x s \<ge> 80 then wrap_line s else s) \<noteq> a"
    using printable_spec [OF inv] pos_in_video a by metis
  ultimately show ?thesis
    by (auto simp: con_char_def Let_def cr_def wrap_line_def)
qed

lemma video_conWrite:
  assumes "con_inv s" and "tty_inv s" and a: "\<not> in_video a"
  shows "video (conWrite chan s) a = video s a"
proof -
  have "video (con_loop chan (length cs) s) a = video s a" if "pending chan s = cs" for cs
    using assms(1,2) that
  proof (induction cs arbitrary: s)
    case (Cons c cs)
    have q: "queue_inv (write_q (TTY_TABLE s chan))" using Cons.prems by (simp add: tty_inv_def)
    note st = con_step_spec [OF Cons.prems(1) q Cons.prems(3)]
    have "tty_inv (con_step chan s)"
      using Cons.prems(2) queue_inv_get by (simp add: tty_inv_def st(4))
    from Cons.IH [OF st(1) this st(3)] show ?case
      using video_con_char [OF _ a, of "s\<lparr>TTY_TABLE := t\<rparr>" for t] Cons.prems(1)
      by (simp add: con_step_def Let_def split: prod.split)
  qed simp
  then show ?thesis by (simp add: conWrite_def length_queue_contents [symmetric])
qed

subsection \<open>Lines of text, and the end of the display memory\<close>

lemma initConsole_inv:
  "con_origin s = 0xB8000 \<Longrightarrow> con_scr_end s = 0xB8FA0 \<Longrightarrow> con_inv (initConsole s)"
  by (simp add: initConsole_def con_inv_def)

lemma con_inv_fold: "con_inv s \<Longrightarrow>
   con_inv (fold (con_char e) cs s) \<and> con_abs (fold (con_char e) cs s) = fold (term_char e) cs (con_abs s)"
  by (induction cs arbitrary: s) (simp_all add: con_char_spec)

definition printable :: "t8 \<Rightarrow> bool" where
  "printable c \<longleftrightarrow> 31 < sint c \<and> sint c < 127"

text \<open>A list of cells written over consecutive cells of the grid.\<close>

definition overlay :: "nat \<Rightarrow> u16 list \<Rightarrow> (nat \<Rightarrow> u16) \<Rightarrow> nat \<Rightarrow> u16" where
  "overlay i0 ws f i = (if i0 \<le> i \<and> i < i0 + length ws then ws ! (i - i0) else f i)"

lemma overlay_Nil: "overlay i0 [] f = f"
  by (auto simp: overlay_def fun_eq_iff)

lemma overlay_Cons: "overlay i0 (w # ws) f = overlay (Suc i0) ws (f(i0 := w))"
  by (auto simp: overlay_def fun_eq_iff nth_Cons')

lemma term_print:
  assumes "\<forall>c \<in> set cs. printable c" and "t_col t + length cs \<le> 80"
  shows "fold (term_char e) cs t = t\<lparr>t_col := t_col t + length cs,
    t_cells := overlay (80 * t_row t + t_col t) (map (\<lambda>c. t_pen t OR ucast c) cs) (t_cells t)\<rparr>"
  using assms
proof (induction cs arbitrary: t)
  case (Cons c cs)
  let ?t = "term_char e c t"
  have t': "?t = (term_poke (ucast c) t)\<lparr>t_col := t_col t + 1\<rparr>"
    using Cons.prems by (simp add: term_char_def printable_def)
  have "t_col ?t + length cs \<le> 80" using Cons.prems by (simp add: t' term_poke_def)
  with Cons show ?case by (simp add: t' term_poke_def overlay_Cons)
qed (simp add: overlay_Nil)

lemma term_lfs:
  "t_row t + n \<le> 204 \<Longrightarrow> fold (term_char e) (replicate n 10) t = t\<lparr>t_row := t_row t + n\<rparr>"
  by (induction n arbitrary: t) (simp_all add: term_char_def term_newline_def)

text \<open>
  The window of the display moves as long as its end lies below the end of the display memory, and its
  height is not a divisor of that distance: the last row reached lies partly beyond it. After 195 line
  feeds from the first screen, the 65th character of the line is stored at \<^verbatim>\<open>VIDEO_MEM_END\<close>.
\<close>

lemma con_overrun:
  assumes "con_origin s = 0xB8000" and "con_scr_end s = 0xB8FA0"
  shows "video (fold (con_char e) (replicate 195 10 @ replicate 65 65) (initConsole s)) VIDEO_MEM_END
    = con_attr s OR 65"
proof -
  let ?s = "fold (con_char e) (replicate 195 10 @ replicate 65 65) (initConsole s)"
  let ?t = "con_abs (initConsole s)"
  have t: "t_col ?t = 0" "t_row ?t = 9" "t_pen ?t = con_attr s"
    by (simp_all add: con_abs_def initConsole_def)
  have pr: "\<forall>c \<in> set (replicate 65 (65 :: t8)). printable c" by (simp add: printable_def)
  have L: "fold (term_char e) (replicate 195 10) ?t = ?t\<lparr>t_row := 9 + 195\<rparr>"
    by (rule term_lfs [of ?t 195 e, unfolded t(2)]) simp
  have P: "fold (term_char e) (replicate 65 65) (?t\<lparr>t_row := 9 + 195\<rparr>) = ?t\<lparr>t_row := 204, t_col := 65, t_cells :=
      overlay 16320 (map (\<lambda>c. con_attr s OR ucast c) (replicate 65 (65 :: t8))) (t_cells ?t)\<rparr>"
    using term_print [OF pr, of "?t\<lparr>t_row := 9 + 195\<rparr>" e] t by (simp del: fold_replicate)
  have "con_abs ?s = fold (term_char e) (replicate 195 10 @ replicate 65 65) ?t"
    using con_inv_fold [OF initConsole_inv [OF assms], of e] by blast
  also have "\<dots> = ?t\<lparr>t_row := 204, t_col := 65, t_cells :=
      overlay 16320 (map (\<lambda>c. con_attr s OR ucast c) (replicate 65 (65 :: t8))) (t_cells ?t)\<rparr>"
    by (simp only: fold_append comp_def L P)
  finally have "cells_of (video ?s) 16384 = con_attr s OR 65"
    by (simp add: con_abs_def overlay_def nth_replicate)
  then show ?thesis by (simp add: cells_of_def)
qed

end
