(* ===== verification/Tty.thy ===== *)
theory Tty
  imports Console
begin

section \<open>Terminals\<close>

text \<open>
  \<^verbatim>\<open>kernel/chr_drv/tty.c\<close> and \<^verbatim>\<open>serial.c\<close>: the terminal table, the output processing of
  \<open>ttyWrite\<close> and its loop over the driver's write routine. \<^verbatim>\<open>(char *buf, int nr)\<close> is the list of
  the \<open>nr\<close> bytes at \<open>buf\<close>; the bytes not yet processed are the rest of the list.
\<close>

abbreviation (input) OPOST :: nat where "OPOST \<equiv> 0"
abbreviation (input) OLCUC :: nat where "OLCUC \<equiv> 1"
abbreviation (input) ONLCR :: nat where "ONLCR \<equiv> 2"
abbreviation (input) OCRNL :: nat where "OCRNL \<equiv> 3"
abbreviation (input) ONLRET :: nat where "ONLRET \<equiv> 5"
abbreviation (input) NR_TTY :: nat where "NR_TTY \<equiv> 3"

subsection \<open>The terminal table\<close>

definition INIT_C_CC :: "u8 list" where
  "INIT_C_CC = [3, 28, 127, 21, 4, 0, 1, 0, 17, 19, 26, 0, 18, 15, 23, 22, 0]"

definition init_c_cc :: "nat \<Rightarrow> u8" where
  "init_c_cc i = (if i < 17 then INIT_C_CC ! i else 0)"

definition console_tty :: tty_struct where
  "console_tty =
     \<lparr>tty_termios = \<lparr>c_iflag = 0x100, c_oflag = 0x5, c_cflag = 0, c_lflag = 0xA0B, c_line = 0,
        c_cc = init_c_cc\<rparr>,
      tty_pgrp = 0, tty_stopped = 0, tty_writer = ConWrite,
      read_q = empty_queue 0, write_q = empty_queue 0, secondary = empty_queue 0\<rparr>"

definition serial_tty :: "u32 \<Rightarrow> tty_struct" where
  "serial_tty port =
     \<lparr>tty_termios = \<lparr>c_iflag = 0, c_oflag = 0, c_cflag = 0x3B, c_lflag = 0, c_line = 0,
        c_cc = init_c_cc\<rparr>,
      tty_pgrp = 0, tty_stopped = 0, tty_writer = RsWrite,
      read_q = empty_queue port, write_q = empty_queue port, secondary = empty_queue 0\<rparr>"

definition TTY_TABLE_init :: "nat \<Rightarrow> tty_struct" where
  "TTY_TABLE_init chan =
     (if chan = 0 then console_tty else if chan = 1 then serial_tty 0x3F8 else serial_tty 0x2F8)"

subsection \<open>Writing\<close>

definition rsWrite :: "nat \<Rightarrow> 'a console_scheme \<Rightarrow> 'a console_scheme" where
  "rsWrite chan s = s"

text \<open>The call through the pointer \<^verbatim>\<open>tty->write\<close>.\<close>

definition tty_write_fn :: "nat \<Rightarrow> 'a console_scheme \<Rightarrow> 'a console_scheme" where
  "tty_write_fn chan s =
     (case tty_writer (TTY_TABLE s chan) of ConWrite \<Rightarrow> conWrite chan s | RsWrite \<Rightarrow> rsWrite chan s)"

text \<open>The mapping of one character by the output flags, before the carriage return is inserted.\<close>

definition map_out :: "u32 \<Rightarrow> t8 \<Rightarrow> t8" where
  "map_out oflag c =
     (if c = 13 \<and> bit oflag OCRNL then 10 else if c = 10 \<and> bit oflag ONLRET then 13 else c)"

text \<open>
  The inner loop: it stops when no byte is left or the queue is full, and it returns the bytes left,
  the flag \<^verbatim>\<open>cr_flag\<close> and the queue.
\<close>

function tty_fill :: "u32 \<Rightarrow> t8 list \<Rightarrow> bool \<Rightarrow> tty_queue \<Rightarrow> t8 list \<times> bool \<times> tty_queue" where
  "tty_fill oflag [] cr_flag q = ([], cr_flag, q)"
| "tty_fill oflag (b # bs) cr_flag q =
     (if fullQueue q then (b # bs, cr_flag, q)
      else if bit oflag OPOST then
        let c = map_out oflag b
        in if c = 10 \<and> \<not> cr_flag \<and> bit oflag ONLCR
           then tty_fill oflag (b # bs) True (queue_put 13 q)
           else tty_fill oflag bs False (queue_put (if bit oflag OLCUC then c - 0x20 else c) q)
      else tty_fill oflag bs False (queue_put b q))"
  by pat_completeness auto
termination
  by (relation "measure (\<lambda>(oflag, bs, cr_flag, q). 2 * length bs + (if cr_flag then 0 else 1))")
    (auto split: if_splits)

definition set_write_q :: "nat \<Rightarrow> tty_queue \<Rightarrow> 'a console_scheme \<Rightarrow> 'a console_scheme" where
  "set_write_q chan q s =
     s\<lparr>TTY_TABLE := (TTY_TABLE s)(chan := (TTY_TABLE s chan)\<lparr>write_q := q\<rparr>)\<rparr>"

text \<open>The outer loop, with fuel: a driver that takes nothing from the queue keeps it going for ever.\<close>

fun tty_loop ::
  "nat \<Rightarrow> nat \<Rightarrow> t8 list \<Rightarrow> bool \<Rightarrow> 'a console_scheme \<Rightarrow> 'a console_scheme outcome" where
  "tty_loop fuel chan [] cr_flag s = Inr s"
| "tty_loop 0 chan (b # bs) cr_flag s = Inl NoFuel"
| "tty_loop (Suc fuel) chan (b # bs) cr_flag s =
     (let tty = TTY_TABLE s chan;
          (rest, cr_flag, q) = tty_fill (c_oflag (tty_termios tty)) (b # bs) cr_flag (write_q tty)
      in tty_loop fuel chan rest cr_flag (tty_write_fn chan (set_write_q chan q s)))"

definition ttyWrite ::
  "nat \<Rightarrow> nat \<Rightarrow> t8 list \<Rightarrow> 'a console_scheme \<Rightarrow> (nat \<times> 'a console_scheme) outcome" where
  "ttyWrite fuel chan buf s =
     (if chan \<ge> NR_TTY then Inl (Fault ''TTY_TABLE'')
      else andThen (tty_loop fuel chan buf False s) (\<lambda>s. Inr (length buf, s)))"

definition initTty :: "device \<Rightarrow> 'a console_scheme \<Rightarrow> 'a console_scheme" where
  "initTty dev s = putIrqHandler 1 (Some KeyboardHandler) (enableIrq dev 1 (initConsole s))"

subsection \<open>What the output processing sends\<close>

text \<open>
  The bytes sent for a list of characters. The flag says that the carriage return before the first one
  has been sent already.
\<close>

fun post :: "u32 \<Rightarrow> bool \<Rightarrow> t8 list \<Rightarrow> t8 list" where
  "post oflag crf [] = []"
| "post oflag crf (b # bs) =
     (if bit oflag OPOST then
        let c = map_out oflag b
        in (if c = 10 \<and> \<not> crf \<and> bit oflag ONLCR then [13] else []) @
           (if bit oflag OLCUC then c - 0x20 else c) # post oflag False bs
      else b # post oflag False bs)"

lemma length_post: "length (post oflag crf bs) \<le> 2 * length bs"
proof (induction bs arbitrary: crf)
  case (Cons b bs)
  from Cons.IH [of False] show ?case by (auto simp: Let_def)
qed simp

definition fill_result ::
  "u32 \<Rightarrow> bool \<Rightarrow> t8 list \<Rightarrow> tty_queue \<Rightarrow> t8 list \<times> bool \<times> tty_queue \<Rightarrow> bool" where
  "fill_result oflag crf bs q r \<longleftrightarrow>
     (case r of (bs', crf', q') \<Rightarrow> \<exists>xs. q' = fold queue_put xs q \<and>
        length (queue_contents q) + length xs \<le> 1023 \<and>
        post oflag crf bs = xs @ post oflag crf' bs' \<and> (bs' = [] \<or> fullQueue q'))"

lemma fill_result_step:
  assumes "queue_inv q" "\<not> fullQueue q" "post oflag crf bs = c # post oflag crf2 bs2"
    and "fill_result oflag crf2 bs2 (queue_put c q) r"
  shows "fill_result oflag crf bs q r"
proof -
  obtain bs' crf' q' where r: "r = (bs', crf', q')" by (cases r)
  from assms(4) obtain xs where xs: "q' = fold queue_put xs (queue_put c q)"
      "length (queue_contents (queue_put c q)) + length xs \<le> 1023"
      "post oflag crf2 bs2 = xs @ post oflag crf' bs'" "bs' = [] \<or> fullQueue q'"
    unfolding fill_result_def r prod.case by blast
  then have "q' = fold queue_put (c # xs) q" "length (queue_contents q) + length (c # xs) \<le> 1023"
    "post oflag crf bs = (c # xs) @ post oflag crf' bs'"
    using assms(3) contents_queue_put [OF assms(1,2)] by simp_all
  with xs(4) show ?thesis unfolding fill_result_def r prod.case by blast
qed

lemma tty_fill_result:
  "queue_inv q \<Longrightarrow> fill_result oflag crf bs q (tty_fill oflag bs crf q)"
proof (induction oflag bs crf q rule: tty_fill.induct)
  case (1 oflag crf q)
  then show ?case using length_contents_bound [of q] by (auto simp: fill_result_def)
next
  case (2 oflag b bs crf q)
  show ?case
  proof (cases "fullQueue q")
    case True
    with 2(4) length_contents_bound [of q] show ?thesis
      by (auto simp: fill_result_def intro!: exI [of _ "[]"])
  next
    case False
    note step = fill_result_step [OF 2(4) False]
    note put = queue_inv_put [OF 2(4)]
    show ?thesis
    proof (cases "bit oflag OPOST")
      case o: True
      show ?thesis
      proof (cases "map_out oflag b = 10 \<and> \<not> crf \<and> bit oflag ONLCR")
        case True
        have "post oflag crf (b # bs) = 13 # post oflag True (b # bs)"
          using o True by simp
        from step [OF this] 2(1) [OF False o refl True put] show ?thesis
          using False o True by simp
      next
        case c: False
        let ?c = "if bit oflag OLCUC then map_out oflag b - 0x20 else map_out oflag b"
        have "post oflag crf (b # bs) = ?c # post oflag False bs"
          using o c by (simp add: Let_def)
        from step [OF this] 2(2) [OF False o refl c put] show ?thesis
          by (subst tty_fill.simps(2))
            (simp only: Let_def if_not_P [OF False] if_P [OF o] if_not_P [OF c])
      qed
    next
      case o: False
      then have "post oflag crf (b # bs) = b # post oflag False bs" by simp
      from step [OF this] 2(3) [OF False o put] show ?thesis using False o by simp
    qed
  qed
qed

lemma tty_fill_spec:
  assumes "queue_inv q" and "tty_fill oflag bs crf q = (bs', crf', q')"
  obtains xs where "q' = fold queue_put xs q" "length (queue_contents q) + length xs \<le> 1023"
    "post oflag crf bs = xs @ post oflag crf' bs'" "bs' = [] \<or> fullQueue q'"
  using tty_fill_result [OF assms(1), of oflag crf bs] assms(2) by (auto simp: fill_result_def)

lemma tty_fill_inv:
  assumes "queue_inv q" and "tty_fill oflag bs crf q = (bs', crf', q')"
  shows "queue_inv q'"
  using assms(2) tty_fifo.invar_puts [OF assms(1)] by (elim tty_fill_spec [OF assms(1)]) metis

lemma tty_fill_contents:
  assumes "queue_inv q" and "tty_fill oflag bs crf q = (bs', crf', q')"
  obtains xs where "queue_contents q' = queue_contents q @ xs"
    "post oflag crf bs = xs @ post oflag crf' bs'" "bs' = [] \<or> length (queue_contents q') = 1023"
proof -
  obtain xs where xs: "q' = fold queue_put xs q" "length (queue_contents q) + length xs \<le> 1023"
    "post oflag crf bs = xs @ post oflag crf' bs'" "bs' = [] \<or> fullQueue q'"
    using assms by (rule tty_fill_spec)
  show ?thesis
  proof (rule that)
    show "queue_contents q' = queue_contents q @ xs"
      using tty_fifo.contents_puts [OF assms(1) xs(2)] xs(1) by simp
  qed (use xs tty_fill_inv [OF assms] in \<open>auto simp: fullQueue_length\<close>)
qed

subsection \<open>The contract of a driver, and delivery through it\<close>

text \<open>
  What \<open>ttyWrite\<close> needs of the routine behind \<^verbatim>\<open>tty->write\<close>: \<open>drive\<close> takes everything queued, in order,
  and shows it. \<open>enq\<close> queues bytes that fit.
\<close>

primrec deliver :: "('s \<Rightarrow> 's) \<Rightarrow> ('x \<Rightarrow> 's \<Rightarrow> 's) \<Rightarrow> 'x list \<Rightarrow> 's \<Rightarrow> 's" where
  "deliver drive enq [] s = s"
| "deliver drive enq (xs # xss) s = deliver drive enq xss (drive (enq xs s))"

locale tty_driver =
  fixes drive :: "'s \<Rightarrow> 's"
    and enq :: "t8 list \<Rightarrow> 's \<Rightarrow> 's"
    and queued :: "'s \<Rightarrow> t8 list"
    and view :: "'s \<Rightarrow> 'v"
    and show_byte :: "t8 \<Rightarrow> 'v \<Rightarrow> 'v"
    and ok :: "'s \<Rightarrow> bool"
  assumes enq_ok: "ok s \<Longrightarrow> ok (enq xs s)"
    and queued_enq: "ok s \<Longrightarrow> length (queued s) + length xs \<le> 1023 \<Longrightarrow> queued (enq xs s) = queued s @ xs"
    and view_enq: "ok s \<Longrightarrow> view (enq xs s) = view s"
    and drive_ok: "ok s \<Longrightarrow> ok (drive s)"
    and drained: "ok s \<Longrightarrow> queued (drive s) = []"
    and shown: "ok s \<Longrightarrow> view (drive s) = fold show_byte (queued s) (view s)"
begin

lemma deliver_one:
  assumes "ok s" "queued s = []" "length xs \<le> 1023"
  shows "ok (drive (enq xs s)) \<and> queued (drive (enq xs s)) = [] \<and>
    view (drive (enq xs s)) = fold show_byte xs (view s)"
  using assms by (simp add: enq_ok drive_ok drained shown queued_enq view_enq)

lemma deliver_chunks:
  "ok s \<Longrightarrow> queued s = [] \<Longrightarrow> \<forall>xs \<in> set xss. length xs \<le> 1023 \<Longrightarrow>
    ok (deliver drive enq xss s) \<and> queued (deliver drive enq xss s) = [] \<and>
    view (deliver drive enq xss s) = fold show_byte (concat xss) (view s)"
proof (induction xss arbitrary: s)
  case (Cons xs xss)
  have "length xs \<le> 1023" using Cons.prems by simp
  with deliver_one [OF Cons.prems(1,2)] Cons.IH Cons.prems(3) show ?case by simp
qed simp

end

definition tty_enq :: "nat \<Rightarrow> t8 list \<Rightarrow> 'a console_scheme \<Rightarrow> 'a console_scheme" where
  "tty_enq chan xs s = set_write_q chan (fold queue_put xs (write_q (TTY_TABLE s chan))) s"

text \<open>A terminal of the console, with its settings fixed.\<close>

definition console_ok :: "nat \<Rightarrow> termios \<Rightarrow> 'a console_scheme \<Rightarrow> bool" where
  "console_ok chan t s \<longleftrightarrow> con_inv s \<and> tty_inv s \<and>
     tty_termios (TTY_TABLE s chan) = t \<and> tty_writer (TTY_TABLE s chan) = ConWrite"

lemma set_write_q_simps [simp]:
  "con_inv (set_write_q chan q s) = con_inv s"
  "con_abs (set_write_q chan q s) = con_abs s"
  "tty_termios (TTY_TABLE (set_write_q chan q s) k) = tty_termios (TTY_TABLE s k)"
  "tty_writer (TTY_TABLE (set_write_q chan q s) k) = tty_writer (TTY_TABLE s k)"
  "write_q (TTY_TABLE (set_write_q chan q s) chan) = q"
  "video (set_write_q chan q s) = video s"
  by (simp_all add: set_write_q_def)

lemma set_write_q_inv: "tty_inv s \<Longrightarrow> queue_inv q \<Longrightarrow> tty_inv (set_write_q chan q s)"
  by (simp add: set_write_q_def tty_inv_def)

lemma set_write_q_only: "only_queue chan s (set_write_q chan q s)"
  by (simp add: set_write_q_def only_queue_def tty_config_def)

interpretation console_driver: tty_driver "tty_write_fn chan" "tty_enq chan" "pending chan" con_abs
    "term_char (c_cc t VERASE)" "console_ok chan t" for chan t
proof unfold_locales
  fix s :: "'a console_scheme" and xs
  assume ok: "console_ok chan t s"
  then have q: "queue_inv (write_q (TTY_TABLE s chan))" by (simp add: console_ok_def tty_inv_def)
  show "console_ok chan t (tty_enq chan xs s)"
    using ok tty_fifo.invar_puts [OF q] by (simp add: console_ok_def tty_enq_def set_write_q_inv)
  show "con_abs (tty_enq chan xs s) = con_abs s" by (simp add: tty_enq_def)
  show "length (pending chan s) + length xs \<le> 1023 \<Longrightarrow>
      pending chan (tty_enq chan xs s) = pending chan s @ xs"
    using tty_fifo.contents_puts [OF q] by (simp add: tty_enq_def)
  have drv: "tty_write_fn chan s = conWrite chan s"
    using ok by (simp add: tty_write_fn_def console_ok_def)
  have "con_inv s" "tty_inv s" "c_cc t VERASE = erase_of s chan"
    using ok by (auto simp: console_ok_def erase_of_def)
  note cw = conWrite_spec [OF this(1,2), of chan]
  show "console_ok chan t (tty_write_fn chan s)"
    using cw(1,2) only_queue_termios [OF cw(5)] ok unfolding drv by (simp add: console_ok_def)
  show "pending chan (tty_write_fn chan s) = []"
    and "con_abs (tty_write_fn chan s) = fold (term_char (c_cc t VERASE)) (pending chan s) (con_abs s)"
    using cw(3,4) \<open>c_cc t VERASE = erase_of s chan\<close> unfolding drv by simp_all
qed

text \<open>Every turn of the outer loop is a delivery of the next bytes of the output.\<close>

lemma tty_loop_console:
  "console_ok chan t s \<Longrightarrow> pending chan s = [] \<Longrightarrow> length (post (c_oflag t) crf bs) \<le> fuel \<Longrightarrow>
    \<exists>xss. tty_loop fuel chan bs crf s = Inr (deliver (tty_write_fn chan) (tty_enq chan) xss s) \<and>
      (\<forall>xs \<in> set xss. length xs \<le> 1023) \<and> concat xss = post (c_oflag t) crf bs"
proof (induction fuel arbitrary: bs crf s)
  case 0
  then show ?case by (cases bs) (auto simp: Let_def split: if_splits intro: exI [of _ "[]"])
next
  case (Suc fuel)
  show ?case
  proof (cases bs)
    case Nil
    then show ?thesis by (auto intro: exI [of _ "[]"])
  next
    case (Cons b cs)
    let ?f = "c_oflag t"
    obtain bs' crf' q' where fill: "tty_fill ?f bs crf (write_q (TTY_TABLE s chan)) = (bs', crf', q')"
      by (cases "tty_fill ?f bs crf (write_q (TTY_TABLE s chan))")
    have q: "queue_inv (write_q (TTY_TABLE s chan))" and t: "tty_termios (TTY_TABLE s chan) = t"
      using Suc.prems(1) by (simp_all add: console_ok_def tty_inv_def)
    obtain xs where xs: "q' = fold queue_put xs (write_q (TTY_TABLE s chan))" "length xs \<le> 1023"
        "post ?f crf bs = xs @ post ?f crf' bs'" "bs' = [] \<or> fullQueue q'"
      using tty_fill_spec [OF q fill] Suc.prems(2) by (metis add_0 list.size(3))
    let ?s = "tty_write_fn chan (tty_enq chan xs s)"
    have s': "tty_loop (Suc fuel) chan bs crf s = tty_loop fuel chan bs' crf' ?s"
      using fill t by (simp add: Cons tty_enq_def xs(1) Let_def del: tty_fill.simps)
    have len: "length (post ?f crf' bs') \<le> fuel"
    proof (cases "bs' = []")
      case False
      then have "length (queue_contents q') = 1023"
        using xs(4) tty_fill_inv [OF q fill] by (simp add: fullQueue_length)
      then have "length xs = 1023"
        using tty_fifo.contents_puts [OF q] xs(1,2) Suc.prems(2) by simp
      with Suc.prems(3) xs(3) show ?thesis by simp
    qed simp
    have "console_ok chan t ?s" "pending chan ?s = []"
      using console_driver.deliver_one [OF Suc.prems(1,2) xs(2)] by simp_all
    from Suc.IH [OF this len] obtain xss where
      "tty_loop fuel chan bs' crf' ?s = Inr (deliver (tty_write_fn chan) (tty_enq chan) xss ?s)"
      "\<forall>xs \<in> set xss. length xs \<le> 1023" "concat xss = post ?f crf' bs'" by blast
    with s' xs(2,3) show ?thesis by (intro exI [of _ "xs # xss"]) simp
  qed
qed

lemma ttyWrite_delivers:
  assumes "console_ok chan t s" and "pending chan s = []" and "chan < NR_TTY" and "2 * length cs \<le> fuel"
  shows "\<exists>s'. ttyWrite fuel chan cs s = Inr (length cs, s') \<and> console_ok chan t s' \<and> pending chan s' = [] \<and>
    con_abs s' = fold (term_char (c_cc t VERASE)) (post (c_oflag t) False cs) (con_abs s)"
proof -
  have "length (post (c_oflag t) False cs) \<le> fuel"
    using length_post [of "c_oflag t" False cs] assms(4) by linarith
  from tty_loop_console [OF assms(1,2) this] obtain xss where
    L: "tty_loop fuel chan cs False s = Inr (deliver (tty_write_fn chan) (tty_enq chan) xss s)"
      "\<forall>xs \<in> set xss. length xs \<le> 1023" "concat xss = post (c_oflag t) False cs" by blast
  from console_driver.deliver_chunks [OF assms(1,2) L(2)] show ?thesis
    unfolding ttyWrite_def L(1) using assms(3) L(3) by simp
qed

subsection \<open>A driver that takes nothing\<close>

text \<open>
  \<open>rsWrite\<close> is empty in the source, so it does not meet the contract: what is queued stays queued. A write
  that fits into the free part of the queue returns; a longer one keeps the loop going for ever.
\<close>

lemma tty_write_serial: "tty_writer (TTY_TABLE s chan) = RsWrite \<Longrightarrow> tty_write_fn chan s = s"
  by (simp add: tty_write_fn_def rsWrite_def)

lemma tty_loop_serial:
  assumes "queue_inv (write_q (TTY_TABLE s chan))" and "tty_writer (TTY_TABLE s chan) = RsWrite"
    and "length (pending chan s) + length (post (c_oflag (tty_termios (TTY_TABLE s chan))) crf bs) > 1023"
  shows "tty_loop fuel chan bs crf s = Inl NoFuel"
  using assms
proof (induction fuel arbitrary: bs crf s)
  case 0
  then show ?case using length_contents_bound [OF 0(1)] by (cases bs) auto
next
  case (Suc fuel)
  let ?f = "c_oflag (tty_termios (TTY_TABLE s chan))"
  show ?case
  proof (cases bs)
    case Nil
    then show ?thesis using Suc.prems length_contents_bound [OF Suc.prems(1)] by simp
  next
    case (Cons b cs)
    obtain bs' crf' q' where fill: "tty_fill ?f bs crf (write_q (TTY_TABLE s chan)) = (bs', crf', q')"
      by (cases "tty_fill ?f bs crf (write_q (TTY_TABLE s chan))")
    obtain xs where xs: "queue_contents q' = pending chan s @ xs" "post ?f crf bs = xs @ post ?f crf' bs'"
        "bs' = [] \<or> length (queue_contents q') = 1023"
      using Suc.prems(1) fill by (rule tty_fill_contents)
    let ?s = "set_write_q chan q' s"
    have inv: "queue_inv q'" using Suc.prems(1) fill by (rule tty_fill_inv)
    have st: "tty_loop (Suc fuel) chan bs crf s = tty_loop fuel chan bs' crf' ?s"
      using fill Suc.prems(2) by (simp add: Cons tty_write_serial Let_def del: tty_fill.simps)
    have "length (pending chan ?s) + length (post ?f crf' bs') > 1023"
      using xs Suc.prems(3) by simp
    then show ?thesis unfolding st using inv Suc.prems(2) by (intro Suc.IH) simp_all
  qed
qed

lemma post_eq_Nil: "post oflag crf bs = [] \<longleftrightarrow> bs = []"
  by (cases bs) (simp_all add: Let_def)

lemma tty_loop_serial_fits:
  assumes "queue_inv (write_q (TTY_TABLE s chan))" and "tty_writer (TTY_TABLE s chan) = RsWrite"
    and "length (pending chan s) + length (post (c_oflag (tty_termios (TTY_TABLE s chan))) False bs) \<le> 1023"
  shows "\<exists>s'. tty_loop (Suc 0) chan bs False s = Inr s' \<and>
    pending chan s' = pending chan s @ post (c_oflag (tty_termios (TTY_TABLE s chan))) False bs"
proof (cases bs)
  case (Cons b cs)
  let ?f = "c_oflag (tty_termios (TTY_TABLE s chan))"
  obtain bs' crf' q' where fill: "tty_fill ?f bs False (write_q (TTY_TABLE s chan)) = (bs', crf', q')"
    by (cases "tty_fill ?f bs False (write_q (TTY_TABLE s chan))")
  obtain xs where xs: "queue_contents q' = pending chan s @ xs" "post ?f False bs = xs @ post ?f crf' bs'"
      "bs' = [] \<or> length (queue_contents q') = 1023"
    using assms(1) fill by (rule tty_fill_contents)
  then have "bs' = []" using assms(3) post_eq_Nil [of ?f crf' bs']
    by (metis (no_types, lifting) add.right_neutral append_assoc append_self_conv length_append
        length_0_conv add_le_same_cancel1 le_zero_eq)
  then show ?thesis
    using fill xs assms(2) by (simp add: Cons tty_write_serial Let_def del: tty_fill.simps)
qed simp

subsection \<open>The program's properties\<close>

text \<open>What a write sends, and the state at boot, before \<open>initConsole\<close>.\<close>

definition tty_sent :: "'a console_scheme \<Rightarrow> nat \<Rightarrow> t8 list \<Rightarrow> t8 list" where
  "tty_sent s chan cs = post (c_oflag (tty_termios (TTY_TABLE s chan))) False cs"

definition console_boot :: console where
  "console_boot = \<lparr>trace = [], int_flag = False, GDT = \<lambda>_. desc0, IDT = \<lambda>_. gate0, IRQ_TABLE = \<lambda>_. None,
     TICKS = 0, STARTUP_TIME = 0, TTY_TABLE = TTY_TABLE_init,
     con_origin = 0xB8000, con_scr_end = 0xB8FA0, con_x = 0, con_y = 9, con_pos = 0, con_top = 0,
     con_bottom = 25, con_attr = 0x0F00, video = \<lambda>_. 0\<rparr>"

lemma initConsole_tty [simp]: "TTY_TABLE (initConsole s) = TTY_TABLE s"
  by (simp add: initConsole_def)

lemma TTY_TABLE_init_inv: "queue_inv (read_q (TTY_TABLE_init k))" "queue_inv (write_q (TTY_TABLE_init k))"
    "queue_contents (write_q (TTY_TABLE_init k)) = []"
  by (simp_all add: TTY_TABLE_init_def console_tty_def serial_tty_def)

lemma console_boot_inv: "con_inv (initConsole console_boot)" "tty_inv (initConsole console_boot)"
  by (rule initConsole_inv) (simp_all add: console_boot_def tty_inv_def TTY_TABLE_init_inv)

lemma console_boot_ok:
  "console_ok 0 (tty_termios console_tty) (initConsole console_boot)"
  "pending 0 (initConsole console_boot) = []"
  using console_boot_inv by (simp_all add: console_ok_def)
    (simp_all add: console_boot_def TTY_TABLE_init_def console_tty_def)

text \<open>C10. A write to a console terminal whose queue is empty always returns, for every buffer and any
  interleaving of queue and loop, with the length of the buffer; what the terminal then shows is the
  result of interpreting the post-processed characters one after the other on the abstract terminal,
  nothing is left in the queue, and the cursor invariant holds again. \<^verbatim>\<open>2 * length cs\<close> turns of the outer
  loop are enough.\<close>

theorem ttyWrite_console:
  assumes "con_inv s" and "tty_inv s" and "chan < 3" and "tty_writer (TTY_TABLE s chan) = ConWrite"
    and "queue_contents (write_q (TTY_TABLE s chan)) = []" and "2 * length cs \<le> fuel"
  shows "\<exists>s'. ttyWrite fuel chan cs s = Inr (length cs, s') \<and>
    con_abs s' = fold (term_char (erase_of s chan)) (tty_sent s chan cs) (con_abs s) \<and>
    queue_contents (write_q (TTY_TABLE s' chan)) = [] \<and> con_inv s' \<and> tty_inv s'"
proof -
  have "console_ok chan (tty_termios (TTY_TABLE s chan)) s" using assms(1,2,4) by (simp add: console_ok_def)
  from ttyWrite_delivers [OF this assms(5,3,6)] show ?thesis
    unfolding console_ok_def erase_of_def tty_sent_def by blast
qed

theorem ttyWrite_console_witness:
  "\<exists>s'. ttyWrite 6 0 [72, 105, 10] (initConsole console_boot) = Inr (3, s') \<and>
    con_abs s' = fold (term_char 127) [72, 105, 13, 10] (con_abs (initConsole console_boot))"
proof -
  have c: "tty_writer (TTY_TABLE (initConsole console_boot) 0) = ConWrite"
    "erase_of (initConsole console_boot) 0 = 127"
    "tty_sent (initConsole console_boot) 0 [72, 105, 10] = [72, 105, 13, 10]"
    by (simp_all add: console_boot_def TTY_TABLE_init_def console_tty_def erase_of_def init_c_cc_def INIT_C_CC_def
       tty_sent_def map_out_def bit_simps nth_Cons')
  from ttyWrite_console [OF console_boot_inv _ c(1) console_boot_ok(2), of "[72, 105, 10]" 6]
  show ?thesis unfolding c(2,3) by auto
qed

text \<open>C12. \<open>conWrite\<close> refines the abstract terminal: it takes every queued character in order and its effect
  on cursor and display memory, with the moving display window, is the abstract terminal's; other
  terminals and the settings are unchanged.\<close>

theorem conWrite_refines:
  assumes "con_inv s" and "tty_inv s"
  shows "con_abs (conWrite chan s) =
      fold (term_char (erase_of s chan)) (queue_contents (write_q (TTY_TABLE s chan))) (con_abs s) \<and>
    queue_contents (write_q (TTY_TABLE (conWrite chan s) chan)) = [] \<and>
    con_inv (conWrite chan s) \<and> tty_inv (conWrite chan s) \<and> only_queue chan s (conWrite chan s)"
  using conWrite_spec [OF assms, of chan] by blast

theorem conWrite_refines_witness:
  "con_abs (conWrite 0 (tty_enq 0 [65, 9, 66] (initConsole console_boot))) =
     fold (term_char 127) [65, 9, 66] (con_abs (initConsole console_boot))"
proof -
  let ?s = "tty_enq 0 [65, 9, 66] (initConsole console_boot)"
  note e = console_driver.enq_ok [OF console_boot_ok(1), of "[65, 9, 66]"]
  have "queue_contents (write_q (TTY_TABLE ?s 0)) = [65, 9, 66]"
    using console_driver.queued_enq [OF console_boot_ok(1), of "[65, 9, 66]"] console_boot_ok(2) by simp
  moreover have "con_abs ?s = con_abs (initConsole console_boot)"
    using console_driver.view_enq [OF console_boot_ok(1)] by simp
  moreover have "erase_of ?s 0 = 127"
    by (simp add: tty_enq_def console_boot_def TTY_TABLE_init_def console_tty_def erase_of_def init_c_cc_def INIT_C_CC_def)
  ultimately show ?thesis using conWrite_refines [of ?s 0] e by (simp add: console_ok_def)
qed

text \<open>C36. Whatever is written, the console stores only into the text memory and the 32 bytes behind it.\<close>

theorem conWrite_confined:
  assumes "con_inv s" and "tty_inv s" and "a < 0xB8000 \<or> 0xC0020 \<le> a"
  shows "video (conWrite chan s) a = video s a"
  using assms video_conWrite [of s a chan] by (auto simp: in_video_def not_le not_less)

theorem conWrite_confined_witness:
  "video (conWrite 0 (initConsole console_boot)) 0x7000 = 0"
  using conWrite_confined [OF console_boot_inv, of "0x7000" 0]
  by (simp add: initConsole_def) (simp add: console_boot_def)

text \<open>The bound of the previous property is not the end of the display memory: 195 line feeds and 65
  letters put a cell at \<^verbatim>\<open>VIDEO_MEM_END\<close>, the first address behind it.\<close>

theorem console_overruns_display:
  assumes "con_origin s = 0xB8000" and "con_scr_end s = 0xB8FA0"
  shows "video (fold (con_char e) (replicate 195 10 @ replicate 65 65) (initConsole s)) 0xC0000
    = con_attr s OR 65"
  using con_overrun [OF assms] by simp

theorem console_overruns_display_witness:
  "video (fold (con_char 127) (replicate 195 10 @ replicate 65 65) (initConsole console_boot)) 0xC0000 = 0xF41"
  using console_overruns_display [of console_boot 127] by (simp add: console_boot_def del: fold_replicate fold_append)

text \<open>C35. A write to a serial terminal returns when the post-processed bytes fit into the free part of its
  queue, and they stay queued: \<open>rsWrite\<close> never takes a byte. A longer write never returns, whatever the
  fuel.\<close>

theorem ttyWrite_serial:
  assumes "queue_inv (write_q (TTY_TABLE s chan))" and "tty_writer (TTY_TABLE s chan) = RsWrite" and "chan < 3"
  shows "if length (queue_contents (write_q (TTY_TABLE s chan))) + length (tty_sent s chan cs) \<le> 1023
    then \<exists>s'. ttyWrite 1 chan cs s = Inr (length cs, s') \<and>
      queue_contents (write_q (TTY_TABLE s' chan)) = queue_contents (write_q (TTY_TABLE s chan)) @ tty_sent s chan cs
    else \<forall>fuel. ttyWrite fuel chan cs s = Inl NoFuel"
proof (cases "length (queue_contents (write_q (TTY_TABLE s chan))) + length (tty_sent s chan cs) \<le> 1023")
  case True
  then show ?thesis using tty_loop_serial_fits [OF assms(1,2), of cs] assms(3)
    by (auto simp: ttyWrite_def tty_sent_def)
next
  case False
  then have "tty_loop fuel chan cs False s = Inl NoFuel" for fuel
    unfolding tty_sent_def by (intro tty_loop_serial [OF assms(1,2)]) simp
  with False show ?thesis using assms(3) by (simp add: ttyWrite_def)
qed

theorem ttyWrite_serial_witness:
  "\<forall>fuel. ttyWrite fuel 1 (replicate 1024 65) (initConsole console_boot) = Inl NoFuel"
proof -
  let ?s = "initConsole console_boot"
  have c: "write_q (TTY_TABLE ?s 1) = empty_queue 0x3F8" "tty_writer (TTY_TABLE ?s 1) = RsWrite"
    "c_oflag (tty_termios (TTY_TABLE ?s 1)) = 0"
    by (simp_all add: console_boot_def TTY_TABLE_init_def serial_tty_def)
  have "post 0 False (replicate n 65) = replicate n 65" for n by (induction n) simp_all
  then show ?thesis using ttyWrite_serial [of ?s 1 "replicate 1024 65"]
    unfolding tty_sent_def c by simp
qed

end
