(* ===== verification/Print.thy ===== *)
theory Print
  imports Tty "HOL-Library.Signed_Division"
begin

section \<open>Formatted output\<close>

text \<open>
  \<^verbatim>\<open>kernel/print.c\<close>: \<open>number\<close>, \<open>vsprintf\<close> and \<open>printk\<close>. The format is the list of characters before
  its terminating zero; the arguments are the words on the stack above the format, read by index. The
  parameter \<open>tx\<close> is what the routines read and the model does not store: \<open>string_at\<close> gives the
  characters of the zero-terminated string at an address, and \<open>in_front\<close> the bytes of the stack in front of
  the table of digits, a local array of \<open>number\<close>, which \<open>number\<close> reads for a negative remainder
  (see below). The string a routine builds is returned instead of being stored through a pointer, so that writing it into the 512
  bytes of \<^verbatim>\<open>buf\<close> is one explicit check.
\<close>

record texts =
  string_at :: "u32 \<Rightarrow> t8 list"
  in_front :: "t32 \<Rightarrow> int \<Rightarrow> int \<Rightarrow> u32 \<Rightarrow> t8 list \<Rightarrow> nat \<Rightarrow> t8"

text \<open>The memory of the examples: empty strings, and zeros on the stack.\<close>

definition no_texts :: texts where
  "no_texts = \<lparr>string_at = \<lambda>_. [], in_front = \<lambda>_ _ _ _ _ _. 0\<rparr>"

abbreviation (input) ZEROPAD :: u32 where "ZEROPAD \<equiv> 1"
abbreviation (input) LEFT :: u32 where "LEFT \<equiv> 2"
abbreviation (input) SMALL :: u32 where "SMALL \<equiv> 4"
abbreviation (input) SIGN :: u32 where "SIGN \<equiv> 8"

subsection \<open>Numbers\<close>

definition up :: "t8 list" where
  "up = [48, 49, 50, 51, 52, 53, 54, 55, 56, 57, 65, 66, 67, 68, 69, 70]"

definition low :: "t8 list" where
  "low = [48, 49, 50, 51, 52, 53, 54, 55, 56, 57, 97, 98, 99, 100, 101, 102]"

text \<open>
  The digits into \<^verbatim>\<open>tmp[10]\<close>, least significant first. \<^verbatim>\<open>%\<close> and \<^verbatim>\<open>/\<close> truncate towards zero as in C, so
  a negative number gives a negative index into the digits: the byte read is the one \<open>r\<close> in front of the
  table when the remainder is \<open>- r\<close>. These bytes are those of the stack frame at that moment, which the C
  text leaves open: they are the argument \<open>front\<close>, a function of the digits already in \<^verbatim>\<open>tmp\<close> and of the
  distance. The loop goes on with them, as the compiled code does.
\<close>

function num_digits :: "(t8 list \<Rightarrow> nat \<Rightarrow> t8) \<Rightarrow> t8 list \<Rightarrow> int \<Rightarrow> int \<Rightarrow> t8 list \<Rightarrow> t8 list outcome" where
  "num_digits front digits base num tmp =
     (if num = 0 then Inr tmp
      else if base = 0 then Inl (Fault ''division'')
      else if length tmp \<ge> 10 then Inl (Fault ''tmp'')
      else if num smod base \<ge> int (length digits) then Inl (Fault ''digits'')
      else
        let r = num smod base;
            digit = (if r < 0 then front tmp (nat (- r)) else digits ! nat r)
        in num_digits front digits base (num sdiv base) (tmp @ [digit]))"
  by pat_completeness auto
termination
  by (relation "measure (\<lambda>(front, digits, base, num, tmp). 10 - length tmp)") auto

declare num_digits.simps [simp del]

definition number :: "texts \<Rightarrow> t32 \<Rightarrow> int \<Rightarrow> int \<Rightarrow> u32 \<Rightarrow> t8 list outcome" where
  "number tx num base width flags =
     (let front = in_front tx num base width flags;
          c = (if flags AND ZEROPAD \<noteq> 0 then 48 else 32);
          neg = (flags AND SIGN \<noteq> 0 \<and> sint num < 0);
          num = (if neg then - num else num);
          width = (if neg then width - 1 else width);
          digits = (if flags AND SMALL \<noteq> 0 then low else up)
      in andThen (if num = 0 then Inr [48] else num_digits front digits base (sint num) []) (\<lambda>tmp.
         let sign = (if neg then [45] else []);
             prefix = (if base = 16 then [48, if flags AND SMALL \<noteq> 0 then 120 else 88] else []);
             width = (if base = 16 then width - 2 else width) - int (length tmp);
             pad = replicate (nat width) c
         in Inr (sign @ prefix @ (if flags AND LEFT = 0 then pad @ rev tmp else rev tmp @ pad))))"

subsection \<open>Formats\<close>

fun fmt_flags :: "t8 list \<Rightarrow> u32 \<Rightarrow> u32 \<times> t8 list" where
  "fmt_flags [] flags = (flags, [])"
| "fmt_flags (c # fmt) flags =
     (if c = 45 then fmt_flags fmt (flags OR LEFT)
      else if c = 48 then fmt_flags fmt (flags OR ZEROPAD)
      else (flags, c # fmt))"

text \<open>\<^verbatim>\<open>field_width = i * 10 + *fmt - '0'\<close>, where \<^verbatim>\<open>i\<close> is zero throughout: the last digit counts.\<close>

fun fmt_width :: "t8 list \<Rightarrow> int \<Rightarrow> int \<times> t8 list" where
  "fmt_width [] width = (width, [])"
| "fmt_width (c # fmt) width =
     (if 48 \<le> sint c \<and> sint c \<le> 57 then fmt_width fmt (0 * 10 + sint c - 48) else (width, c # fmt))"

definition fmt_char :: "t8 \<Rightarrow> int \<Rightarrow> u32 \<Rightarrow> t8 list" where
  "fmt_char c width flags =
     (let pad = replicate (nat (width - 1)) 32
      in if flags AND LEFT = 0 then pad @ [c] else [c] @ pad)"

definition fmt_string :: "t8 list \<Rightarrow> int \<Rightarrow> u32 \<Rightarrow> t8 list" where
  "fmt_string s width flags =
     (let pad = replicate (nat (width - int (length s))) 32
      in if flags AND LEFT = 0 then pad @ s else s @ pad)"

definition null_string :: "t8 list" where
  "null_string = [60, 78, 85, 76, 76, 62]"

text \<open>One conversion: the text, and whether it took an argument; \<open>None\<close> is the default case.\<close>

definition convert :: "texts \<Rightarrow> t8 \<Rightarrow> u32 \<Rightarrow> int \<Rightarrow> u32 \<Rightarrow> t8 list outcome option" where
  "convert tx c arg width flags =
     (if c = 99 then Some (Inr (fmt_char (ucast arg) width flags))
      else if c = 115 then Some (Inr (fmt_string (if arg = 0 then null_string else string_at tx arg) width flags))
      else if c = 120 then Some (number tx arg 16 width (flags OR SMALL))
      else if c = 88 then Some (number tx arg 16 width flags)
      else if c = 100 \<or> c = 105 then Some (number tx arg 10 width (flags OR SIGN))
      else if c = 117 then Some (number tx arg 10 width flags)
      else None)"

lemma fmt_flags_length: "fmt_flags fmt flags = (flags', fmt') \<Longrightarrow> length fmt' \<le> length fmt"
  by (induction fmt flags rule: fmt_flags.induct) (auto split: if_splits)

lemma fmt_width_length: "fmt_width fmt w = (w', fmt') \<Longrightarrow> length fmt' \<le> length fmt"
  by (induction fmt w rule: fmt_width.induct) (auto split: if_splits)

function vsprintf :: "texts \<Rightarrow> (nat \<Rightarrow> u32) \<Rightarrow> nat \<Rightarrow> t8 list \<Rightarrow> t8 list outcome" where
  "vsprintf tx args k [] = Inr []"
| "vsprintf tx args k (c # fmt) =
     (if c \<noteq> 37 then andThen (vsprintf tx args k fmt) (\<lambda>rest. Inr (c # rest))
      else case fmt_flags fmt 0 of (flags, fmt1) \<Rightarrow>
        case fmt_width fmt1 (-1) of (width, fmt2) \<Rightarrow>
          (case fmt2 of
             [] \<Rightarrow> Inr [37]
           | d # fmt3 \<Rightarrow>
               (case convert tx d (args k) width flags of
                  None \<Rightarrow> andThen (vsprintf tx args k fmt3)
                            (\<lambda>rest. Inr ((if d \<noteq> 37 then [37] else []) @ [d] @ rest))
                | Some text \<Rightarrow> andThen text (\<lambda>text.
                    andThen (vsprintf tx args (k + 1) fmt3) (\<lambda>rest. Inr (text @ rest))))))"
  by pat_completeness auto
termination
  by (relation "measure (\<lambda>(tx, args, k, fmt). length fmt)")
    (auto dest!: sym [of "(_, _)" "fmt_flags _ _"] sym [of "(_, _)" "fmt_width _ _"]
      fmt_flags_length fmt_width_length)

subsection \<open>Kernel output\<close>

definition printk ::
  "texts \<Rightarrow> nat \<Rightarrow> t8 list \<Rightarrow> (nat \<Rightarrow> u32) \<Rightarrow> 'a console_scheme \<Rightarrow> (nat \<times> 'a console_scheme) outcome"
where
  "printk tx fuel fmt args s =
     andThen (vsprintf tx args 0 fmt) (\<lambda>text.
       if length text + 1 > 512 then Inl (Fault ''buf'')
       else andThen (ttyWrite fuel 0 text s) (\<lambda>(n, s). Inr (length text, s)))"

subsection \<open>What the digits mean\<close>

definition digit_val :: "t8 \<Rightarrow> int" where
  "digit_val c = (if 48 \<le> sint c \<and> sint c \<le> 57 then sint c - 48
     else if 65 \<le> sint c \<and> sint c \<le> 70 then sint c - 55 else sint c - 87)"

text \<open>The number a string of digits denotes, and the condition that it has no leading zero.\<close>

definition text_val :: "int \<Rightarrow> t8 list \<Rightarrow> int" where
  "text_val base s = foldl (\<lambda>v c. v * base + digit_val c) 0 s"

definition canonical :: "t8 list \<Rightarrow> bool" where
  "canonical s \<longleftrightarrow> s = [48] \<or> (s \<noteq> [] \<and> hd s \<noteq> 48)"

lemma digit_tables:
  assumes "0 \<le> d" and "d < 16" and "digits \<in> {up, low}"
  shows "digit_val (digits ! nat d) = d" and "0 < d \<Longrightarrow> digits ! nat d \<noteq> 48"
proof -
  have d: "nat d \<in> set [0..<16]" using assms(1,2) by simp
  have "list_all (\<lambda>i. digit_val (up ! i) = int i \<and> digit_val (low ! i) = int i \<and>
      (i = 0 \<or> up ! i \<noteq> 48 \<and> low ! i \<noteq> 48)) [0..<16]"
    by (simp add: digit_val_def up_def low_def upt_conv_Cons)
  then have "digit_val (up ! nat d) = d \<and> digit_val (low ! nat d) = d \<and>
      (d = 0 \<or> up ! nat d \<noteq> 48 \<and> low ! nat d \<noteq> 48)"
    using d assms(1) unfolding list_all_iff by fastforce
  with assms(3) show "digit_val (digits ! nat d) = d" "0 < d \<Longrightarrow> digits ! nat d \<noteq> 48" by auto
qed

lemma text_val_rev: "text_val base (rev ds @ [c]) = text_val base (rev ds) * base + digit_val c"
  by (simp add: text_val_def)

lemma smod_sdiv_pos: "0 \<le> (a :: int) \<Longrightarrow> 0 < b \<Longrightarrow> a smod b = a mod b \<and> a sdiv b = a div b"
  by (auto simp: signed_modulo_int_def signed_divide_int_def sgn_if)

lemma num_digits_pos:
  assumes base: "base = 10 \<or> base = 16" and tab: "digits \<in> {up, low}"
  shows "0 \<le> num \<Longrightarrow> num < base ^ n \<Longrightarrow> length tmp + n = 10 \<Longrightarrow>
    \<exists>ds. num_digits front digits base num tmp = Inr (tmp @ ds) \<and> text_val base (rev ds) = num \<and>
      (0 < num \<longrightarrow> ds \<noteq> [] \<and> last ds \<noteq> 48)"
proof (induction n arbitrary: num tmp)
  case 0
  then show ?case by (auto simp: num_digits.simps text_val_def)
next
  case (Suc n)
  show ?case
  proof (cases "num = 0")
    case True
    then show ?thesis by (auto simp: num_digits.simps text_val_def)
  next
    case False
    define d where "d = num mod base"
    have d: "0 \<le> d" "d < base" "d < 16" using base by (auto simp: d_def intro: order.strict_trans2)
    have len: "length digits = 16" using tab by (auto simp: up_def low_def)
    have "0 \<le> num div base" "num div base < base ^ n"
      using Suc.prems(1,2) base by (auto simp: div_less_iff_less_mult mult.commute pos_imp_zdiv_nonneg_iff)
    then obtain ds where ds: "num_digits front digits base (num div base) (tmp @ [digits ! nat d]) = Inr ((tmp @ [digits ! nat d]) @ ds)"
      "text_val base (rev ds) = num div base" "0 < num div base \<longrightarrow> ds \<noteq> [] \<and> last ds \<noteq> 48"
      using Suc.IH [of "num div base" "tmp @ [digits ! nat d]"] Suc.prems(3) by auto
    have step: "num_digits front digits base num tmp = Inr (tmp @ (digits ! nat d # ds))"
      using ds(1) False d len Suc.prems(1,3) base smod_sdiv_pos [of num base]
      by (subst num_digits.simps) (auto simp: d_def Let_def)
    have "text_val base (rev (digits ! nat d # ds)) = num"
      using digit_tables(1) [OF d(1,3) tab] ds(2)
      by (simp add: text_val_def d_def div_mult_mod_eq)
    moreover have "last (digits ! nat d # ds) \<noteq> 48"
    proof (cases "0 < num div base")
      case True
      then show ?thesis using ds(3) by simp
    next
      case z: False
      then have "num div base = 0" using \<open>0 \<le> num div base\<close> by simp
      then have "d = num" using div_mult_mod_eq [of num base] by (simp add: d_def)
      moreover have "ds = []" using ds(1) \<open>num div base = 0\<close> by (simp add: num_digits.simps)
      ultimately show ?thesis using digit_tables(2) [OF d(1,3) tab] False Suc.prems(1) by simp
    qed
    ultimately show ?thesis using step by blast
  qed
qed

lemma sint_u32_bounds: "- 2147483648 \<le> sint (x :: u32)" "sint (x :: u32) < 2147483648"
  using sint_ge [of x] sint_lt [of x] by simp_all

lemma sint_u32_cases: "sint (x :: u32) = uint x \<or> sint x = uint x - 4294967296"
proof -
  have "take_bit 32 (uint x) = uint x" by (rule bintr_uint) simp
  then show ?thesis using signed_take_bit_eq_take_bit_minus [of 31 "uint x"] by (auto simp: sint_uint)
qed

lemma sint_inj_u32: "sint (x :: u32) = sint y \<longleftrightarrow> x = y"
  using signed_word_eqI [of x y] by blast

lemma sint_minus_u32:
  assumes "x \<noteq> (0x80000000 :: u32)"
  shows "sint (- x) = - sint x"
proof -
  have "sint x \<noteq> sint (0x80000000 :: u32)" unfolding sint_inj_u32 by (rule assms)
  then have "sint x \<noteq> - 2147483648" by simp
  then have "- 2147483648 \<le> - sint x" "- sint x < 2147483648" using sint_u32_bounds [of x] by simp_all
  then have "signed_take_bit 31 (- sint x) = - sint x"
    using signed_take_bit_int_eq_self [of 31 "- sint x"] by simp
  then show ?thesis unfolding sint_word_ariths by simp
qed

text \<open>The layout of a number: sign, prefix, padding and digits.\<close>

definition number_layout :: "int \<Rightarrow> int \<Rightarrow> u32 \<Rightarrow> bool \<Rightarrow> t8 list \<Rightarrow> t8 list" where
  "number_layout base width flags neg ds =
     (let sign = (if neg then [45] else []);
          prefix = (if base = 16 then [48, if flags AND SMALL \<noteq> 0 then 120 else 88] else []);
          gap = width - int (length sign + length prefix + length ds);
          pad = replicate (nat gap) (if flags AND ZEROPAD \<noteq> 0 then 48 else 32)
      in sign @ prefix @ (if flags AND LEFT = 0 then pad @ ds else ds @ pad))"

lemma length_number_layout:
  "length (number_layout base width flags neg ds) =
     max (nat width) (length ds + (if neg then 1 else 0) + (if base = 16 then 2 else 0))"
proof -
  have "nat (w - int k) + k = max (nat w) k" for w k by linarith
  from this [of width "length ds + (if neg then 1 else 0) + (if base = 16 then 2 else 0)"] show ?thesis
    by (cases neg; cases "base = 16"; cases "flags AND LEFT = 0")
      (simp_all add: number_layout_def Let_def algebra_simps)
qed

text \<open>
  The digits of a number whose remainders are negative, least significant first: as many as the number has,
  a zero where the remainder is zero, and elsewhere the byte as far in front of the table as the remainder.
\<close>

definition stray_digits :: "(t8 list \<Rightarrow> nat \<Rightarrow> t8) \<Rightarrow> int \<Rightarrow> int \<Rightarrow> t8 list \<Rightarrow> bool" where
  "stray_digits front base m ds \<longleftrightarrow> ds \<noteq> [] \<and> base ^ (length ds - 1) \<le> m \<and> m < base ^ length ds \<and>
     (\<forall>i < length ds. ds ! i = (if m div base ^ i mod base = 0 then 48 else front (take i ds) (nat (m div base ^ i mod base))))"

lemma int_div_less_iff:
  assumes "0 < (b :: int)"
  shows "a div b < c \<longleftrightarrow> a < b * c"
proof -
  have m: "a = b * (a div b) + a mod b" "0 \<le> a mod b" "a mod b < b" using assms by simp_all
  have "b * (a div b) + b \<le> b * c" if "a div b < c"
    using mult_left_mono [of "a div b + 1" c b] that assms by (simp add: distrib_left)
  moreover have "b * c \<le> b * (a div b)" if "c \<le> a div b" using mult_left_mono [OF that] assms by simp
  ultimately show ?thesis using m by linarith
qed

lemma stray_digits_Cons:
  assumes "stray_digits (\<lambda>t. front (c # t)) base (m div base) ds" and "0 < base" and "0 \<le> m"
    and "c = (if m mod base = 0 then 48 else front [] (nat (m mod base)))"
  shows "stray_digits front base m (c # ds)"
proof -
  obtain k where k: "length ds = Suc k" using assms(1) by (cases ds) (auto simp: stray_digits_def)
  have lo: "base ^ k \<le> m div base" and hi: "m div base < base ^ Suc k"
    using assms(1) by (auto simp: stray_digits_def k)
  have "base ^ k * base \<le> m div base * base" using lo assms(2) by (intro mult_right_mono) auto
  also have "\<dots> \<le> m" using assms(2) div_mult_mod_eq [of m base] pos_mod_sign [of base m] by linarith
  finally have "base ^ length ds \<le> m" by (simp add: k mult.commute)
  moreover have "m < base ^ Suc (length ds)"
    using hi int_div_less_iff [OF assms(2), of m "base ^ Suc k"] by (simp add: k ac_simps)
  moreover have "(c # ds) ! i = (if m div base ^ i mod base = 0 then 48
      else front (take i (c # ds)) (nat (m div base ^ i mod base)))" if "i < length (c # ds)" for i
  proof (cases i)
    case (Suc j)
    have "m div base ^ i = m div base div base ^ j"
      using assms(2) by (simp add: Suc zdiv_zmult2_eq)
    then show ?thesis using assms(1) that by (simp add: Suc stray_digits_def)
  qed (simp add: assms(4))
  ultimately show ?thesis by (simp add: stray_digits_def)
qed

lemma smod_sdiv_neg: "(a :: int) < 0 \<Longrightarrow> 0 < b \<Longrightarrow> a smod b = - (- a mod b) \<and> a sdiv b = - (- a div b)"
  by (auto simp: signed_modulo_int_def signed_divide_int_def sgn_if)

lemma num_digits_neg:
  assumes base: "base = 10 \<or> base = 16" and tab: "digits \<in> {up, low}"
  shows "0 < m \<Longrightarrow> m < base ^ n \<Longrightarrow> length tmp + n = 10 \<Longrightarrow>
    \<exists>ds. num_digits front digits base (- m) tmp = Inr (tmp @ ds) \<and> stray_digits (\<lambda>t. front (tmp @ t)) base m ds"
proof (induction n arbitrary: m tmp)
  case (Suc n)
  have b: "0 < base" "base \<noteq> 0" using base by auto
  define c where "c = (if m mod base = 0 then 48 else front tmp (nat (m mod base)))"
  have d: "digits ! 0 = 48" "length digits = 16" using tab by (auto simp: up_def low_def)
  have r: "m smod base = m mod base" "m sdiv base = m div base"
    using smod_sdiv_pos [of m base] Suc.prems(1) b by simp_all
  have p: "0 \<le> m mod base" using b by simp
  then have c: "(if 0 < m mod base then front tmp (nat (m mod base)) else digits ! nat (- (m mod base))) = c"
    unfolding c_def using d(1) by auto
  have "\<not> int (length digits) \<le> - (m mod base)" using p unfolding d(2) by linarith
  then have step: "num_digits front digits base (- m) tmp = num_digits front digits base (- (m div base)) (tmp @ [c])"
    using Suc.prems(1,3) b c by (subst num_digits.simps) (auto simp: Let_def r split: if_splits)
  show ?case
  proof (cases "m div base = 0")
    case True
    then have "m < base" using Suc.prems(1) b by (simp add: zdiv_eq_0_iff)
    then have "stray_digits (\<lambda>t. front (tmp @ t)) base m [c]"
      using Suc.prems(1) by (simp add: stray_digits_def c_def)
    moreover have "num_digits front digits base (- m) tmp = Inr (tmp @ [c])"
      unfolding step True by (simp add: num_digits.simps)
    ultimately show ?thesis by blast
  next
    case False
    have "0 \<le> m div base" using Suc.prems(1) b by (simp add: pos_imp_zdiv_nonneg_iff)
    with False have "0 < m div base" by simp
    moreover have "m div base < base ^ n"
      using Suc.prems(2) int_div_less_iff [OF b(1), of m "base ^ n"] by simp
    ultimately obtain ds where ds: "num_digits front digits base (- (m div base)) (tmp @ [c]) = Inr ((tmp @ [c]) @ ds)"
      "stray_digits (\<lambda>t. front ((tmp @ [c]) @ t)) base (m div base) ds"
      using Suc.IH [of "m div base" "tmp @ [c]"] Suc.prems(3) by auto
    have "stray_digits (\<lambda>t. front (tmp @ t)) base m (c # ds)"
      using ds(2) Suc.prems(1) b by (intro stray_digits_Cons) (simp_all add: c_def)
    moreover have "num_digits front digits base (- m) tmp = Inr (tmp @ (c # ds))" unfolding step ds(1) by simp
    ultimately show ?thesis by blast
  qed
qed simp

lemma num_digits_length: "num_digits front ds b n tmp = Inr r \<Longrightarrow> length tmp \<le> 10 \<Longrightarrow> length r \<le> 10"
proof (induction front ds b n tmp rule: num_digits.induct)
  case (1 front ds b n tmp)
  from "1.prems" show ?case using "1.IH" unfolding num_digits.simps [of front ds b n tmp] by (auto simp: Let_def split: if_splits)
qed

text \<open>
  The digits of a conversion, most significant first: those of the absolute value when no remainder is
  negative, the bytes in front of the table otherwise.
\<close>

definition number_digits :: "texts \<Rightarrow> t32 \<Rightarrow> int \<Rightarrow> int \<Rightarrow> u32 \<Rightarrow> t8 list \<Rightarrow> bool" where
  "number_digits tx num base width flags ds \<longleftrightarrow>
     (if 0 \<le> sint num \<or> flags AND SIGN \<noteq> 0 \<and> num \<noteq> 0x80000000
      then canonical ds \<and> text_val base ds = \<bar>sint num\<bar>
      else stray_digits (in_front tx num base width flags) base \<bar>sint num\<bar> (rev ds))"

text \<open>Every number in the bases of the kernel has digits, and they fit into \<^verbatim>\<open>tmp\<close>.\<close>

lemma number_total:
  assumes base: "base = 10 \<or> base = 16"
  shows "\<exists>ds. number_digits tx num base width flags ds \<and> length ds \<le> 10 \<and>
    number tx num base width flags = Inr (number_layout base width flags (flags AND SIGN \<noteq> 0 \<and> sint num < 0) ds)"
proof -
  let ?neg = "flags AND SIGN \<noteq> 0 \<and> sint num < 0" and ?digits = "if flags AND SMALL \<noteq> 0 then low else up"
  let ?front = "in_front tx num base width flags"
  define m where "m = (if ?neg then - num else num)"
  have tab: "?digits \<in> {up, low}" by simp
  have bound: "\<bar>sint num\<bar> < base ^ 10"
    using base sint_u32_bounds [of num] by (elim disjE; simp add: abs_less_iff)
  have "\<exists>ds. (if m = 0 then Inr [48] else num_digits ?front ?digits base (sint m) []) = Inr ds \<and>
      number_digits tx num base width flags (rev ds)"
  proof (cases "0 \<le> sint num \<or> flags AND SIGN \<noteq> 0 \<and> num \<noteq> 0x80000000")
    case True
    then have m: "sint m = \<bar>sint num\<bar>" by (auto simp: m_def sint_minus_u32)
    then have m0: "m = 0 \<longleftrightarrow> sint num = 0" using sint_inj_u32 [of m 0] by simp
    obtain ds where ds: "num_digits ?front ?digits base (sint m) [] = Inr ds"
        "text_val base (rev ds) = \<bar>sint num\<bar>" "0 < \<bar>sint num\<bar> \<longrightarrow> ds \<noteq> [] \<and> last ds \<noteq> 48"
      using num_digits_pos [OF base tab, of "\<bar>sint num\<bar>" 10 "[]" ?front] bound m by auto
    have "canonical (rev (if m = 0 then [48] else ds))"
      using ds(3) m0 by (auto simp: canonical_def hd_rev)
    moreover have "text_val base (rev (if m = 0 then [48] else ds)) = \<bar>sint num\<bar>"
      using ds(2) m0 by (auto simp: text_val_def digit_val_def)
    ultimately show ?thesis using True ds(1) by (intro exI [of _ "if m = 0 then [48] else ds"]) (simp add: number_digits_def)
  next
    case False
    then have m: "sint m = - \<bar>sint num\<bar>" "0 < \<bar>sint num\<bar>" by (auto simp: m_def)
    then have "m \<noteq> 0" by auto
    with num_digits_neg [OF base tab m(2) bound, of "[]" ?front] m(1) False show ?thesis
      by (auto simp: number_digits_def)
  qed
  then obtain ds where ds: "(if m = 0 then Inr [48] else num_digits ?front ?digits base (sint m) []) = Inr ds"
      "number_digits tx num base width flags (rev ds)" by blast
  have "length (rev ds) \<le> 10" using ds(1) by (auto split: if_splits dest: num_digits_length)
  moreover have "number tx num base width flags = Inr (number_layout base width flags ?neg (rev ds))"
    using ds(1) unfolding number_def Let_def m_def [symmetric] number_layout_def by (simp add: algebra_simps)
  ultimately show ?thesis using ds(2) by blast
qed

lemma number_correct_layout:
  assumes base: "base = 10 \<or> base = 16" and nmin: "num \<noteq> 0x80000000"
    and sg: "0 \<le> sint num \<or> flags AND SIGN \<noteq> 0"
  shows "\<exists>ds. canonical ds \<and> text_val base ds = \<bar>sint num\<bar> \<and>
    number tx num base width flags = Inr (number_layout base width flags (sint num < 0) ds)"
proof -
  have "(flags AND SIGN \<noteq> 0 \<and> sint num < 0) = (sint num < 0)" using sg by auto
  with number_total [OF base, of tx num width flags] nmin sg show ?thesis by (auto simp: number_digits_def)
qed

text \<open>\<^verbatim>\<open>%X\<close> and \<^verbatim>\<open>%x\<close> without flags and width.\<close>

lemma number_hex:
  assumes "fl = 0 \<or> fl = 4"
  shows "\<exists>ds. number_digits tx v 16 (-1) fl ds \<and> length ds \<le> 10 \<and>
    number tx v 16 (-1) fl = Inr ([48, if fl = 0 then 88 else 120] @ ds)"
proof -
  obtain ds where ds: "number_digits tx v 16 (-1) fl ds" "length ds \<le> 10"
    "number tx v 16 (-1) fl = Inr (number_layout 16 (-1) fl (fl AND SIGN \<noteq> 0 \<and> sint v < 0) ds)"
    using number_total [of 16 tx v "-1" fl] by auto
  have "number_layout 16 (-1) fl (fl AND SIGN \<noteq> 0 \<and> sint v < 0) ds = [48, if fl = 0 then 88 else 120] @ ds"
    using assms by (auto simp: number_layout_def)
  with ds show ?thesis by auto
qed

text \<open>All ones has one digit, the byte in front of the table.\<close>

lemma number_digits_all_ones:
  assumes "number_digits tx 0xFFFFFFFF 16 width flags ds" and "flags AND SIGN = 0"
  shows "ds = [in_front tx 0xFFFFFFFF 16 width flags [] 1]"
proof -
  have s: "stray_digits (in_front tx 0xFFFFFFFF 16 width flags) 16 1 (rev ds)"
    using assms by (simp add: number_digits_def)
  have "length ds - 1 = 0"
  proof (rule ccontr)
    assume "length ds - 1 \<noteq> 0"
    then have "(1 :: int) < 16 ^ (length ds - 1)" by simp
    with s show False by (simp add: stray_digits_def)
  qed
  with s have "length ds = 1" by (cases ds) (auto simp: stray_digits_def)
  then obtain c where "ds = [c]" by (auto simp: length_Suc_conv)
  with s show ?thesis by (simp add: stray_digits_def)
qed

subsection \<open>Formats\<close>

definition plain_text :: "t8 list \<Rightarrow> bool" where
  "plain_text s \<longleftrightarrow> 37 \<notin> set s"

lemma vsprintf_plain:
  "plain_text s \<Longrightarrow> vsprintf tx args k (s @ fmt) =
     andThen (vsprintf tx args k fmt) (\<lambda>rest. Inr (s @ rest))"
proof (induction s)
  case (Cons c s)
  then show ?case by (simp add: plain_text_def andThen_assoc)
next
  case Nil
  then show ?case by (cases "vsprintf tx args k fmt") simp_all
qed

text \<open>A conversion without flags and width: it takes one argument and goes on behind its letter.\<close>

lemma vsprintf_convert:
  assumes "convert tx c (args k) (-1) 0 = Some text"
  shows "vsprintf tx args k (37 # c # fmt) =
    andThen text (\<lambda>text. andThen (vsprintf tx args (k + 1) fmt) (\<lambda>rest. Inr (text @ rest)))"
proof -
  have "c \<in> {99, 115, 120, 88, 100, 105, 117}" using assms by (auto simp: convert_def split: if_splits)
  then have "fmt_flags (c # fmt) 0 = (0, c # fmt)" "fmt_width (c # fmt) (-1) = (-1, c # fmt)" by auto
  then show ?thesis using assms by (simp del: fmt_flags.simps fmt_width.simps)
qed

lemma vsprintf_one:
  assumes "plain_text pre" and "plain_text suf" and "convert tx c (args k) (-1) 0 = Some (Inr text)"
  shows "vsprintf tx args k (pre @ 37 # c # suf) = Inr (pre @ text @ suf)"
  using vsprintf_plain [OF assms(1), of tx args k "37 # c # suf"] vsprintf_convert [of tx c args k "Inr text" suf, OF assms(3)]
    vsprintf_plain [OF assms(2), of tx args "k + 1" "[]"] by simp

subsection \<open>The properties of formatted output\<close>

text \<open>C26. For every non-negative number, and every negative one but the least when it is printed as signed,
  \<open>number\<close> returns (within the ten bytes of \<^verbatim>\<open>tmp\<close>) the sign, the prefix, the padding and digits that
  denote its absolute value in the base, without leading zero, and the text fills the width.\<close>

theorem number_correct:
  assumes "base = 10 \<or> base = 16" and "num \<noteq> 0x80000000" and "0 \<le> sint num \<or> flags AND SIGN \<noteq> 0"
  shows "\<exists>ds text. number tx num base width flags = Inr text \<and>
    text = number_layout base width flags (sint num < 0) ds \<and> canonical ds \<and> text_val base ds = \<bar>sint num\<bar> \<and>
    length text = max (nat width) (length ds + (if sint num < 0 then 1 else 0) + (if base = 16 then 2 else 0))"
  using number_correct_layout [OF assms] length_number_layout by blast

theorem number_correct_witness:
  "\<exists>ds text. number no_texts (- 42) 10 5 8 = Inr text \<and> text = number_layout 10 5 8 True ds \<and>
    text_val 10 ds = 42 \<and> length text = max 5 (Suc (length ds))"
  using number_correct [of 10 "- 42" 8 no_texts 5] by auto

text \<open>The unsigned conversions are not unsigned: \<^verbatim>\<open>%u\<close>, \<^verbatim>\<open>%x\<close> and \<^verbatim>\<open>%X\<close> of any value from
  \<^verbatim>\<open>0x80000000\<close> up divide it as a negative number. The digits they print are as many as those of its
  negation, and each that is not zero is a byte in front of the table of digits.\<close>

lemma unsigned_conversions_stray:
  assumes "c \<in> {117, 120, 88}" and "0x80000000 \<le> arg" and "flags AND SIGN = 0"
  shows "\<exists>base flags' ds. convert tx c arg width flags = Some (Inr (number_layout base width flags' False ds)) \<and>
    stray_digits (in_front tx arg base width flags') base (- sint arg) (rev ds)"
proof -
  have neg: "sint arg < 0"
    using sint_u32_cases [of arg] uint_bounded [of arg] sint_u32_bounds(2) [of arg] assms(2)
    by (auto simp: word_le_def)
  have sg: "(flags OR SMALL) AND SIGN = 0" using assms(3) by (simp add: bit.conj_disj_distrib2)
  have *: "\<exists>ds. number tx arg base width fl = Inr (number_layout base width fl False ds) \<and>
      stray_digits (in_front tx arg base width fl) base (- sint arg) (rev ds)"
    if "base = 10 \<or> base = 16" "fl AND SIGN = 0" for base fl
    using number_total [OF that(1), of tx arg width fl] neg that(2) by (auto simp: number_digits_def)
  consider "c = 117" | "c = 120" | "c = 88" using assms(1) by blast
  then show ?thesis
  proof cases
    case 1
    with * [of 10 flags] assms(3) show ?thesis by (fastforce simp: convert_def)
  next
    case 2
    with * [of 16 "flags OR SMALL"] sg show ?thesis by (fastforce simp: convert_def)
  next
    case 3
    with * [of 16 flags] assms(3) show ?thesis by (fastforce simp: convert_def)
  qed
qed

text \<open>A format with one \<^verbatim>\<open>%d\<close> between two plain texts gives the texts with the decimal numeral of the
  argument between them, a minus sign in front when it is negative.\<close>

theorem vsprintf_decimal:
  assumes "plain_text pre" and "plain_text suf" and "args 0 \<noteq> 0x80000000"
  shows "\<exists>ds. canonical ds \<and> text_val 10 ds = \<bar>sint (args 0)\<bar> \<and>
    vsprintf tx args 0 (pre @ [37, 100] @ suf) = Inr (pre @ (if sint (args 0) < 0 then [45] else []) @ ds @ suf)"
proof -
  have "0 \<le> sint (args 0) \<or> (0 OR SIGN) AND SIGN \<noteq> 0" by simp
  from number_correct_layout [OF _ assms(3) this, of 10 tx "-1"] obtain ds where
    ds: "canonical ds" "text_val 10 ds = \<bar>sint (args 0)\<bar>"
      "number tx (args 0) 10 (-1) (0 OR SIGN) = Inr (number_layout 10 (-1) (0 OR SIGN) (sint (args 0) < 0) ds)" by auto
  have l: "number_layout 10 (-1) (0 OR SIGN) neg ds = (if neg then [45] else []) @ ds" for neg
    by (simp add: number_layout_def)
  have "convert tx 100 (args 0) (-1) 0 = Some (Inr ((if sint (args 0) < 0 then [45] else []) @ ds))"
    using ds(3) l by (simp add: convert_def)
  from vsprintf_one [of pre suf tx 100 args 0, OF assms(1,2) this] ds(1,2) show ?thesis by auto
qed

theorem vsprintf_decimal_witness:
  "\<exists>ds. text_val 10 ds = 7 \<and> vsprintf no_texts (\<lambda>_. - 7) 0 [110, 61, 37, 100, 10] = Inr ([110, 61, 45] @ ds @ [10])"
  using vsprintf_decimal [of "[110, 61]" "[10]" "\<lambda>_. - 7" no_texts]
  by (auto simp: plain_text_def simp del: vsprintf.simps)

text \<open>C27. When the formatted text fits into \<^verbatim>\<open>buf\<close>, \<open>printk\<close> returns its length and the console shows its
  characters, post-processed, one after the other; a longer text overruns \<^verbatim>\<open>buf\<close>.\<close>

theorem printk_shows:
  assumes "con_inv s" and "tty_inv s" and "tty_writer (TTY_TABLE s 0) = ConWrite"
    and "queue_contents (write_q (TTY_TABLE s 0)) = []"
    and "vsprintf tx args 0 fmt = Inr text"
  shows "if length text < 512
    then \<exists>s'. printk tx 1022 fmt args s = Inr (length text, s') \<and> con_inv s' \<and> tty_inv s' \<and>
      queue_contents (write_q (TTY_TABLE s' 0)) = [] \<and>
      con_abs s' = fold (term_char (erase_of s 0)) (tty_sent s 0 text) (con_abs s)
    else printk tx 1022 fmt args s = Inl (Fault ''buf'')"
proof (cases "length text < 512")
  case True
  have "console_ok 0 (tty_termios (TTY_TABLE s 0)) s" using assms(1-3) by (simp add: console_ok_def)
  from ttyWrite_delivers [OF this assms(4), of "text" 1022] True assms(5) show ?thesis
    by (auto simp: printk_def console_ok_def erase_of_def tty_sent_def)
qed (simp add: printk_def assms(5))

theorem printk_shows_witness:
  "\<exists>s'. printk no_texts 1022 [72, 105, 10] (\<lambda>_. 0) (initConsole console_boot) = Inr (3, s') \<and>
    con_abs s' = fold (term_char (erase_of (initConsole console_boot) 0)) (tty_sent (initConsole console_boot) 0 [72, 105, 10])
      (con_abs (initConsole console_boot))"
  using printk_shows [OF console_boot_inv _ console_boot_ok(2), of no_texts "\<lambda>_. 0" "[72, 105, 10]" "[72, 105, 10]"]
    console_boot_ok(1) by (auto simp: console_ok_def)

end
