(* ===== verification/Keyboard.thy ===== *)
theory Keyboard
  imports Tty
begin

section \<open>The keyboard\<close>

text \<open>
  \<^verbatim>\<open>kernel/chr_drv/keyboard.c\<close> with the key map of \<^verbatim>\<open>include/chr_drv/keyboard.h\<close>: the interrupt handler
  from the scan code to the read queue of terminal 0, the lock and modifier states, and the keyboard's
  lights. The wait for the controller has fuel: a controller that never gets ready keeps it going.
\<close>

record keyboard = console +
  shift_l :: bool
  shift_r :: bool
  alt_l :: bool
  alt_r :: bool
  ctrl_l :: bool
  ctrl_r :: bool
  caps_lock :: bool
  num_lock :: bool
  scroll_lock :: bool
  code_with_E0 :: bool

abbreviation (input) KB_DATA :: u32 where "KB_DATA \<equiv> 0x60"
abbreviation (input) KB_CMD :: u32 where "KB_CMD \<equiv> 0x64"
abbreviation (input) LED_CODE :: u8 where "LED_CODE \<equiv> 0xED"

subsection \<open>The key map\<close>

text \<open>One row for each scan code: the key alone, with shift, and after \<^verbatim>\<open>E0\<close>.\<close>

definition keymap :: "u32 list list" where
  "keymap =
    [[0, 0, 0], [1, 1, 0], [49, 33, 0], [50, 64, 0], [51, 35, 0], [52, 36, 0], [53, 37, 0],
     [54, 94, 0], [55, 38, 0], [56, 42, 0], [57, 40, 0], [48, 41, 0], [45, 95, 0], [61, 43, 0],
     [4, 4, 0], [2, 2, 0], [113, 81, 0], [119, 87, 0], [101, 69, 0], [114, 82, 0], [116, 84, 0],
     [121, 89, 0], [117, 85, 0], [105, 73, 0], [111, 79, 0], [112, 80, 0], [91, 123, 0],
     [93, 125, 0], [3, 3, 48], [10, 10, 11], [97, 65, 0], [115, 83, 0], [100, 68, 0],
     [102, 70, 0], [103, 71, 0], [104, 72, 0], [106, 74, 0], [107, 75, 0], [108, 76, 0],
     [59, 58, 0], [39, 34, 0], [96, 126, 0], [8, 8, 0], [92, 124, 0], [122, 90, 0], [120, 88, 0],
     [99, 67, 0], [118, 86, 0], [98, 66, 0], [110, 78, 0], [109, 77, 0], [44, 60, 0],
     [46, 62, 0], [47, 63, 44], [9, 9, 0], [42, 42, 0], [12, 12, 13], [32, 32, 0], [14, 14, 0],
     [17, 17, 0], [18, 18, 0], [19, 19, 0], [20, 20, 0], [21, 21, 0], [22, 22, 0], [23, 23, 0],
     [24, 24, 0], [25, 25, 0], [26, 26, 0], [15, 15, 0], [16, 16, 0], [57, 55, 33], [58, 56, 37],
     [59, 57, 35], [46, 45, 0], [54, 52, 39], [55, 53, 0], [56, 54, 40], [47, 43, 0],
     [51, 49, 34], [52, 50, 38], [53, 51, 36], [50, 48, 31], [49, 46, 32], [0, 0, 0], [0, 0, 0],
     [0, 0, 0], [27, 27, 0], [28, 28, 0], [0, 0, 0], [0, 0, 0], [0, 0, 5], [0, 0, 6], [0, 0, 7],
     [0, 0, 0], [0, 0, 0], [0, 0, 0], [0, 0, 0], [0, 0, 0], [0, 0, 0], [0, 0, 0], [0, 0, 0],
     [0, 0, 0], [0, 0, 0], [0, 0, 0], [0, 0, 0], [0, 0, 0], [0, 0, 0], [0, 0, 0], [0, 0, 0],
     [0, 0, 0], [0, 0, 0], [0, 0, 0], [0, 0, 0], [0, 0, 0], [0, 0, 0], [0, 0, 0], [0, 0, 0],
     [0, 0, 0], [0, 0, 0], [0, 0, 0], [0, 0, 0], [0, 0, 0], [0, 0, 0], [0, 0, 0], [0, 0, 0],
     [0, 0, 0], [0, 0, 0]]"

text \<open>
  The handler reads a row through \<^verbatim>\<open>u_8 *keyrow\<close>, though the entries are 32 bits wide: \<^verbatim>\<open>keyrow[i]\<close>
  is byte \<open>i\<close> of the row on a little-endian machine.
\<close>

definition keyrow :: "u8 \<Rightarrow> nat \<Rightarrow> u8" where
  "keyrow scan i =
     ucast (drop_bit (8 * (i mod 4)) (keymap ! unat (scan AND 0x7F) ! (i div 4)))"

subsection \<open>The lights\<close>

fun kbWait :: "device \<Rightarrow> nat \<Rightarrow> 'a io_scheme \<Rightarrow> 'a io_scheme outcome" where
  "kbWait dev 0 s = Inl NoFuel"
| "kbWait dev (Suc fuel) s =
     (let (kb_stat, s) = inByte dev KB_CMD s
      in if kb_stat AND 0x02 \<noteq> 0 then kbWait dev fuel s else Inr s)"

text \<open>\<^verbatim>\<open>while (kb_read = !KB_ACK)\<close> assigns zero, so the loop reads once.\<close>

definition kbAck :: "device \<Rightarrow> 'a io_scheme \<Rightarrow> 'a io_scheme" where
  "kbAck dev s = snd (inByte dev KB_DATA s)"

definition kb_leds :: "'a keyboard_scheme \<Rightarrow> u8" where
  "kb_leds s = push_bit 2 (of_bool (caps_lock s)) OR push_bit 1 (of_bool (num_lock s)) OR
     of_bool (scroll_lock s)"

definition setLeds :: "device \<Rightarrow> nat \<Rightarrow> 'a keyboard_scheme \<Rightarrow> 'a keyboard_scheme outcome" where
  "setLeds dev fuel s =
     (let leds = kb_leds s
      in andThen (kbWait dev fuel s) (\<lambda>s.
         andThen (kbWait dev fuel (kbAck dev (outByte KB_DATA LED_CODE s))) (\<lambda>s.
         Inr (kbAck dev (outByte KB_DATA leds s)))))"

subsection \<open>The interrupt handler\<close>

definition kb_modifier ::
  "device \<Rightarrow> nat \<Rightarrow> t8 \<Rightarrow> bool \<Rightarrow> 'a keyboard_scheme \<Rightarrow> 'a keyboard_scheme outcome" where
  "kb_modifier dev fuel key pressed s =
     (if key = 0x08 then Inr (s\<lparr>shift_l := pressed\<rparr>)
      else if key = 0x09 then Inr (s\<lparr>shift_r := pressed\<rparr>)
      else if key = 0x0A then Inr (s\<lparr>ctrl_l := pressed\<rparr>)
      else if key = 0x0B then Inr (s\<lparr>ctrl_r := pressed\<rparr>)
      else if key = 0x0C then Inr (s\<lparr>alt_l := pressed\<rparr>)
      else if key = 0x0D then Inr (s\<lparr>alt_r := pressed\<rparr>)
      else if key = 0x0E then
        (if pressed then setLeds dev fuel (s\<lparr>caps_lock := \<not> caps_lock s\<rparr>) else Inr s)
      else if key = 0x0F then
        (if pressed then setLeds dev fuel (s\<lparr>num_lock := \<not> num_lock s\<rparr>) else Inr s)
      else if key = 0x10 then
        (if pressed then setLeds dev fuel (s\<lparr>scroll_lock := \<not> scroll_lock s\<rparr>) else Inr s)
      else Inr s)"

text \<open>The keys of the number pad, with the two readings of the pad's digits.\<close>

definition pad_key :: "bool \<Rightarrow> t8 \<Rightarrow> t8" where
  "pad_key num key =
     (if \<not> (0x2C \<le> sint key \<and> sint key \<le> 0x3B) then key
      else if key = 0x2C then 0x2F
      else if key = 0x2D then 0x2A
      else if key = 0x2E then 0x2D
      else if key = 0x2F then 0x2B
      else if key = 0x30 then 0x03
      else if num then (if 0x32 \<le> sint key \<and> sint key \<le> 0x3B then key - 0x32 + 0x30
                        else if key = 0x31 then 0x2E else key)
      else if key = 0x39 then 0x21
      else if key = 0x33 then 0x22
      else if key = 0x3B then 0x23
      else if key = 0x35 then 0x24
      else if key = 0x32 then 0x1F
      else if key = 0x3A then 0x25
      else if key = 0x34 then 0x26
      else if key = 0x36 then 0x27
      else if key = 0x38 then 0x28
      else if key = 0x31 then 0x20
      else key)"

definition kb_enqueue :: "t8 \<Rightarrow> 'a console_scheme \<Rightarrow> 'a console_scheme" where
  "kb_enqueue key s =
     s\<lparr>TTY_TABLE := (TTY_TABLE s)(0 := (TTY_TABLE s 0)\<lparr>read_q := queue_put key (read_q (TTY_TABLE s 0))\<rparr>)\<rparr>"

text \<open>The column of the key map: \<^verbatim>\<open>E0\<close> wins over shift, and caps lock inverts shift for letters.\<close>

definition kb_column :: "u8 \<Rightarrow> 'a keyboard_scheme \<Rightarrow> nat" where
  "kb_column scan s =
     (let caps = (shift_l s \<or> shift_r s);
          letter = (0x61 \<le> keyrow scan 0 \<and> keyrow scan 0 \<le> 0x7A \<or>
                    0x41 \<le> keyrow scan 1 \<and> keyrow scan 1 \<le> 0x5A);
          caps = (if caps_lock s \<and> letter then \<not> caps else caps)
      in if code_with_E0 s then 2 else if caps then 1 else 0)"

definition keyboardHandler ::
  "device \<Rightarrow> nat \<Rightarrow> 'a keyboard_scheme \<Rightarrow> 'a keyboard_scheme outcome" where
  "keyboardHandler dev fuel s =
     (let (scan_code, s) = inByte dev KB_DATA s
      in if scan_code = 0xE1 then Inr s
         else if scan_code = 0xE0 then Inr (s\<lparr>code_with_E0 := True\<rparr>)
         else
           let pressed = (scan_code AND 0x80 = 0);
               key = keyrow scan_code (kb_column scan_code s);
               s = s\<lparr>code_with_E0 := False\<rparr>
           in andThen (kb_modifier dev fuel key pressed s) (\<lambda>s.
              Inr (if pressed then kb_enqueue (pad_key (num_lock s) key) s else s)))"

subsection \<open>The bytes of the key map\<close>

lemma keymap_rows: "length keymap = 128" "\<forall>row \<in> set keymap. length row = 3 \<and> row ! 0 < 256"
  by (simp_all add: keymap_def)

lemma scan_row: "unat (scan AND 0x7F :: u8) < length keymap"
proof -
  have "unat (scan AND 0x7F) = unat scan mod 128"
    unfolding and_mask_take_bit by (simp add: unsigned_take_bit_eq take_bit_eq_mod unat_mod)
  then show ?thesis by (simp add: keymap_rows)
qed

text \<open>Only the first entry of a row is ever seen: the bytes for shift and for \<^verbatim>\<open>E0\<close> are zero.\<close>

lemma keyrow_high [simp]: "keyrow scan (Suc 0) = 0" "keyrow scan 2 = 0"
proof -
  let ?x = "keymap ! unat (scan AND 0x7F) ! 0"
  have "keymap ! unat (scan AND 0x7F) \<in> set keymap" using scan_row by (rule nth_mem)
  then have "?x < 256" using keymap_rows by blast
  then have x: "unat ?x < 256" by (simp add: word_less_nat_alt)
  have "drop_bit 8 ?x = 0" "drop_bit 16 ?x = 0"
    using x by (simp_all add: word_unat_eq_iff drop_bit_eq_div unat_div)
  then show "keyrow scan (Suc 0) = 0" "keyrow scan 2 = 0" by (simp_all add: keyrow_def)
qed

lemma keyrow_first: "keyrow scan 0 = ucast (keymap ! unat (scan AND 0x7F) ! 0)"
  by (simp add: keyrow_def)

subsection \<open>Waiting for the controller\<close>

lemma kbWait_ready:
  assumes "dev (trace s) KB_CMD AND 0x02 = 0"
  shows "kbWait dev (Suc fuel) s = Inr (snd (inByte dev KB_CMD s))"
  using assms by (simp add: inByte_def)

lemma kbWait_only_reads:
  "kbWait dev fuel s = Inr s' \<Longrightarrow> io.more s' = io.more s \<and> int_flag s' = int_flag s \<and> written p (trace s') = written p (trace s)"
  by (induction dev fuel s rule: kbWait.induct) (auto simp: inByte_def split: if_splits)

lemma kbAck_frame [simp]: "io.more (kbAck dev s) = io.more s" "written p (trace (kbAck dev s)) = written p (trace s)"
  by (simp_all add: kbAck_def inByte_def)

lemma kb_view:
  assumes "io.more (s' :: 'a keyboard_scheme) = io.more s"
  shows "TTY_TABLE s' = TTY_TABLE s" "shift_l s' = shift_l s" "shift_r s' = shift_r s"
    "caps_lock s' = caps_lock s" "num_lock s' = num_lock s" "code_with_E0 s' = code_with_E0 s"
  using assms by (cases s; cases s'; simp)+

lemma setLeds_result:
  assumes "setLeds dev fuel s = Inr s'"
  shows "io.more s' = io.more s" and "written KB_DATA (trace s') = written KB_DATA (trace s) @ [LED_CODE, kb_leds s]"
proof -
  obtain s1 s2 where s: "kbWait dev fuel s = Inr s1"
      "kbWait dev fuel (kbAck dev (outByte KB_DATA LED_CODE s1)) = Inr s2"
      "s' = kbAck dev (outByte KB_DATA (kb_leds s) s2)"
    using assms by (auto simp: setLeds_def Let_def)
  from kbWait_only_reads [OF s(1), of KB_DATA] kbWait_only_reads [OF s(2), of KB_DATA] s(3)
  show "io.more s' = io.more s"
    and "written KB_DATA (trace s') = written KB_DATA (trace s) @ [LED_CODE, kb_leds s]"
    by (simp_all add: frame)
qed

lemma setLeds_returns:
  assumes "\<And>t. dev t KB_CMD AND 0x02 = 0"
  shows "\<exists>s'. setLeds dev (Suc fuel) s = Inr s'"
  by (simp add: setLeds_def Let_def inByte_def assms)

lemma sint_small_u8: "unat (x :: u8) < 128 \<Longrightarrow> sint x = int (unat x)"
proof -
  assume "unat x < 128"
  then have "uint x < 128" using uint_nat [of x] by linarith
  moreover have "- 128 \<le> uint x" using uint_ge_0 [of x] by linarith
  ultimately have "signed_take_bit 7 (uint x) = uint x" using signed_take_bit_int_eq_self [of 7 "uint x"] by simp
  then show ?thesis by (simp add: sint_uint)
qed

subsection \<open>One key\<close>

lemma kb_enqueue_simps [simp]:
  "read_q (TTY_TABLE (kb_enqueue key s) 0) = queue_put key (read_q (TTY_TABLE s 0))"
  "shift_l (kb_enqueue key (s :: 'a keyboard_scheme)) = shift_l s"
  "shift_r (kb_enqueue key (s :: 'a keyboard_scheme)) = shift_r s"
  "caps_lock (kb_enqueue key (s :: 'a keyboard_scheme)) = caps_lock s"
  by (simp_all add: kb_enqueue_def)

lemma kb_modifier_plain:
  assumes "key \<notin> {0x08, 0x09, 0x0A, 0x0B, 0x0C, 0x0D, 0x0E, 0x0F, 0x10}"
  shows "kb_modifier dev fuel key pressed s = Inr s"
  using assms by (simp add: kb_modifier_def)

lemma kb_column_plain:
  "\<not> shift_l s \<Longrightarrow> \<not> shift_r s \<Longrightarrow> \<not> caps_lock s \<Longrightarrow> \<not> code_with_E0 s \<Longrightarrow> kb_column scan s = 0"
  by (simp add: kb_column_def)

lemma kb_column_shift:
  assumes "shift_l s \<or> shift_r s"
  shows "keyrow scan (kb_column scan s) = 0 \<or>
    caps_lock s \<and> 0x61 \<le> keyrow scan 0 \<and> keyrow scan 0 \<le> 0x7A \<and>
      keyrow scan (kb_column scan s) = keyrow scan 0"
  using assms by (auto simp: kb_column_def Let_def)

definition handler_key :: "device \<Rightarrow> 'a keyboard_scheme \<Rightarrow> u8" where
  "handler_key dev s = keyrow (dev (trace s) KB_DATA) (kb_column (dev (trace s) KB_DATA) s)"

lemma kb_column_cong [simp]: "kb_column scan (s\<lparr>trace := t\<rparr>) = kb_column scan s"
  by (simp add: kb_column_def)

lemma keyboardHandler_plain:
  assumes scan: "dev (trace s) KB_DATA = scan" "scan \<noteq> 0xE0" "scan \<noteq> 0xE1"
    and key: "handler_key dev s \<notin> {0x08, 0x09, 0x0A, 0x0B, 0x0C, 0x0D, 0x0E, 0x0F, 0x10}"
  shows "keyboardHandler dev fuel s =
    (let s' = s\<lparr>trace := In KB_DATA # trace s, code_with_E0 := False\<rparr>
     in Inr (if scan AND 0x80 = 0 then kb_enqueue (pad_key (num_lock s) (handler_key dev s)) s' else s'))"
proof -
  have m: "kb_modifier dev fuel (keyrow scan (kb_column scan s)) p t = Inr t" for p and t :: "'a keyboard_scheme"
    using key scan(1) by (intro kb_modifier_plain) (simp add: handler_key_def)
  show ?thesis using scan by (simp add: keyboardHandler_def Let_def inByte_def handler_key_def m)
qed

lemma letter_not_modifier:
  "0x61 \<le> (k :: u8) \<Longrightarrow> k \<notin> {0x08, 0x09, 0x0A, 0x0B, 0x0C, 0x0D, 0x0E, 0x0F, 0x10}"
  by (auto simp: word_le_nat_alt)

lemma pad_key_letter: "0x61 \<le> k \<Longrightarrow> k \<le> 0x7A \<Longrightarrow> pad_key num k = k"
proof -
  assume "0x61 \<le> k" "k \<le> 0x7A"
  then have "97 \<le> unat k" "unat k < 128" by (simp_all add: word_le_nat_alt)
  then have "\<not> sint k \<le> 0x3B" using sint_small_u8 [of k] by linarith
  then show ?thesis by (simp add: pad_key_def)
qed

text \<open>With shift held the handler reads a zero byte, so nothing ever releases shift again.\<close>

lemma keyboardHandler_shift:
  assumes "shift_l s \<or> shift_r s" and "\<not> caps_lock s" and "keyboardHandler dev fuel s = Inr s'"
  shows "shift_l s' = shift_l s \<and> shift_r s' = shift_r s \<and> caps_lock s' = caps_lock s \<and>
    (read_q (TTY_TABLE s' 0) = read_q (TTY_TABLE s 0) \<or>
     read_q (TTY_TABLE s' 0) = queue_put 0 (read_q (TTY_TABLE s 0)))"
proof -
  let ?scan = "dev (trace s) KB_DATA"
  have k: "handler_key dev s = 0" using kb_column_shift [OF assms(1)] assms(2) by (auto simp: handler_key_def)
  have p: "pad_key num 0 = 0" for num by (simp add: pad_key_def)
  show ?thesis
  proof (cases "?scan = 0xE0 \<or> ?scan = 0xE1")
    case True
    then show ?thesis using assms(3) by (auto simp: keyboardHandler_def inByte_def)
  next
    case False
    then show ?thesis
      using keyboardHandler_plain [of dev s ?scan fuel] assms(3) k p by (auto simp: Let_def)
  qed
qed

primrec keyboard_run :: "device \<Rightarrow> nat \<Rightarrow> nat \<Rightarrow> 'a keyboard_scheme \<Rightarrow> 'a keyboard_scheme outcome" where
  "keyboard_run dev fuel 0 s = Inr s"
| "keyboard_run dev fuel (Suc n) s = andThen (keyboardHandler dev fuel s) (keyboard_run dev fuel n)"

lemma keyboard_run_shift:
  assumes "shift_l s \<or> shift_r s" and "\<not> caps_lock s" and "keyboard_run dev fuel n s = Inr s'"
  shows "shift_l s' = shift_l s \<and> shift_r s' = shift_r s \<and>
    (\<exists>m. read_q (TTY_TABLE s' 0) = (queue_put 0 ^^ m) (read_q (TTY_TABLE s 0)))"
  using assms
proof (induction n arbitrary: s)
  case 0
  then show ?case by (auto intro: exI [of _ 0])
next
  case (Suc n)
  obtain s1 where s1: "keyboardHandler dev fuel s = Inr s1" "keyboard_run dev fuel n s1 = Inr s'"
    using Suc.prems(3) by auto
  note h = keyboardHandler_shift [OF Suc.prems(1,2) s1(1)]
  from h Suc.IH [OF _ _ s1(2)] Suc.prems obtain m where
    m: "shift_l s' = shift_l s" "shift_r s' = shift_r s"
      "read_q (TTY_TABLE s' 0) = (queue_put 0 ^^ m) (read_q (TTY_TABLE s1 0))" by auto
  then show ?case
    using h funpow_Suc_right [of m "queue_put 0"] by (metis comp_apply)
qed

lemma keyboard_run_returns:
  assumes "shift_l s \<or> shift_r s" and "\<not> caps_lock s"
  shows "\<exists>s'. keyboard_run dev fuel n s = Inr s'"
  using assms
proof (induction n arbitrary: s)
  case (Suc n)
  have k: "handler_key dev s = 0" using kb_column_shift [OF Suc.prems(1)] Suc.prems(2) by (auto simp: handler_key_def)
  obtain s1 where s1: "keyboardHandler dev fuel s = Inr s1"
  proof (cases "dev (trace s) KB_DATA = 0xE0 \<or> dev (trace s) KB_DATA = 0xE1")
    case True
    then show ?thesis using that by (auto simp: keyboardHandler_def inByte_def)
  next
    case False
    then show ?thesis
      using that keyboardHandler_plain [of dev s "dev (trace s) KB_DATA" fuel] k by (auto simp: Let_def)
  qed
  with keyboardHandler_shift [OF Suc.prems s1] Suc show ?case by simp
qed simp

subsection \<open>The handler's properties\<close>

definition kb_idle :: "'a keyboard_scheme \<Rightarrow> bool" where
  "kb_idle s \<longleftrightarrow> \<not> shift_l s \<and> \<not> shift_r s \<and> \<not> caps_lock s \<and> \<not> code_with_E0 s"

abbreviation (input) typed :: "'a console_scheme \<Rightarrow> t8 list" where
  "typed s \<equiv> queue_contents (read_q (TTY_TABLE s 0))"

lemma handler_key_idle: "kb_idle s \<Longrightarrow> handler_key dev s = keyrow (dev (trace s) KB_DATA) 0"
  by (simp add: handler_key_def kb_idle_def kb_column_plain)

text \<open>A pressed key that is no modifier and no lock, with no other key held, puts one character.\<close>

lemma keyboardHandler_idle:
  assumes "kb_idle s" and "dev (trace s) KB_DATA = scan" and "scan AND 0x80 = 0"
    and "keyrow scan 0 \<notin> {0x08, 0x09, 0x0A, 0x0B, 0x0C, 0x0D, 0x0E, 0x0F, 0x10}"
  shows "\<exists>s'. keyboardHandler dev fuel s = Inr s' \<and> kb_idle s' \<and>
    read_q (TTY_TABLE s' 0) = queue_put (pad_key (num_lock s) (keyrow scan 0)) (read_q (TTY_TABLE s 0))"
proof -
  have "scan \<noteq> 0xE0" "scan \<noteq> 0xE1" using assms(3) by auto
  with keyboardHandler_plain [of dev s scan fuel] assms show ?thesis
    by (simp add: handler_key_idle Let_def) (simp add: kb_idle_def kb_enqueue_def)
qed

definition keyboard_boot :: keyboard where
  "keyboard_boot = console.extend (initConsole console_boot)
     (keyboard.fields False False False False False False False True False False)"

lemma keyboard_boot_facts:
  "kb_idle keyboard_boot" "TTY_TABLE keyboard_boot = TTY_TABLE_init" "num_lock keyboard_boot"
  by (simp_all add: keyboard_boot_def kb_idle_def console.defs keyboard.defs) (simp add: console_boot_def)

lemma keyboard_boot_typed:
  "queue_inv (read_q (TTY_TABLE keyboard_boot 0))" "typed keyboard_boot = []"
  by (simp_all add: keyboard_boot_facts TTY_TABLE_init_def console_tty_def)

text \<open>C37. Pressing a letter key with no modifier held and room in the queue returns and appends exactly
  that letter to the characters typed so far on terminal 0, whatever the state of NumLock; the keyboard
  is idle again.\<close>

theorem keyboard_letter:
  assumes "kb_idle s" and "dev (trace s) KB_DATA = scan" and "scan AND 0x80 = 0"
    and "0x61 \<le> keyrow scan 0" and "keyrow scan 0 \<le> 0x7A"
    and "queue_inv (read_q (TTY_TABLE s 0))" and "\<not> fullQueue (read_q (TTY_TABLE s 0))"
  shows "\<exists>s'. keyboardHandler dev fuel s = Inr s' \<and> kb_idle s' \<and>
    queue_contents (read_q (TTY_TABLE s' 0)) = queue_contents (read_q (TTY_TABLE s 0)) @ [keyrow scan 0]"
proof -
  have "keyrow scan 0 \<notin> {0x08, 0x09, 0x0A, 0x0B, 0x0C, 0x0D, 0x0E, 0x0F, 0x10}"
    using assms(4) by (rule letter_not_modifier)
  from keyboardHandler_idle [of s dev scan fuel, OF assms(1-3) this] show ?thesis
    using contents_queue_put [OF assms(6,7)] pad_key_letter [OF assms(4,5)] by auto
qed

lemma keyrow_q: "keyrow 0x10 0 = 0x71"
  by (simp add: keyrow_def keymap_def)

theorem keyboard_letter_witness:
  "\<exists>s'. keyboardHandler (\<lambda>t p. 0x10) 1 keyboard_boot = Inr s' \<and> kb_idle s' \<and>
    queue_contents (read_q (TTY_TABLE s' 0)) = [0x71]"
  using keyboard_letter [of keyboard_boot "\<lambda>t p. 0x10" "0x10" 1] keyboard_boot_facts keyboard_boot_typed
    fullQueue_length [of "read_q (TTY_TABLE keyboard_boot 0)"]
  by (simp add: keyrow_q)

text \<open>The codes of the number pad overlap the digits' ASCII codes: with NumLock on, as at boot, pressing
  a digit key from 2 to 9 of the main row (scan codes 3 to 10) types the digit two below it.\<close>

theorem keyboard_digit_shifted:
  assumes "kb_idle s" and "dev (trace s) KB_DATA = scan" and "scan \<in> {3, 4, 5, 6, 7, 8, 9, 10}" and "num_lock s"
    and "queue_inv (read_q (TTY_TABLE s 0))" and "\<not> fullQueue (read_q (TTY_TABLE s 0))"
  shows "keyrow scan 0 = 0x2F + scan \<and> (\<exists>s'. keyboardHandler dev fuel s = Inr s' \<and>
    queue_contents (read_q (TTY_TABLE s' 0)) = queue_contents (read_q (TTY_TABLE s 0)) @ [0x2F + scan - 2])"
proof -
  have k: "keyrow scan 0 = 0x2F + scan \<and> pad_key True (0x2F + scan) = 0x2F + scan - 2 \<and> scan AND 0x80 = 0 \<and>
      0x2F + scan \<notin> {0x08, 0x09, 0x0A, 0x0B, 0x0C, 0x0D, 0x0E, 0x0F, 0x10}"
    using assms(3) by (elim insertE emptyE; hypsubst; simp add: keyrow_def keymap_def pad_key_def)
  then have nm: "keyrow scan 0 \<notin> {0x08, 0x09, 0x0A, 0x0B, 0x0C, 0x0D, 0x0E, 0x0F, 0x10}" by metis
  from k have "scan AND 0x80 = 0" by blast
  from keyboardHandler_idle [of s dev scan fuel, OF assms(1,2) this nm] show ?thesis
    using k contents_queue_put [OF assms(5,6)] assms(4) by auto
qed

theorem keyboard_digit_shifted_witness:
  "\<exists>s'. keyboardHandler (\<lambda>t p. 6) 1 keyboard_boot = Inr s' \<and>
    queue_contents (read_q (TTY_TABLE s' 0)) = [0x33]"
  using keyboard_digit_shifted [of keyboard_boot "\<lambda>t p. 6" "6" 1] keyboard_boot_facts keyboard_boot_typed
    fullQueue_length [of "read_q (TTY_TABLE keyboard_boot 0)"]
  by simp

text \<open>C38. Once a shift key counts as held (and caps lock is off), no sequence of keyboard interrupts ever
  releases it, whatever the keyboard sends, and every character typed from then on is zero: the handler
  reads the shift column of the key map at the wrong width.\<close>

theorem shift_never_released:
  assumes "shift_l s \<or> shift_r s" and "\<not> caps_lock s"
  shows "\<exists>s' m. keyboard_run dev fuel n s = Inr s' \<and> shift_l s' = shift_l s \<and> shift_r s' = shift_r s \<and>
    read_q (TTY_TABLE s' 0) = (queue_put 0 ^^ m) (read_q (TTY_TABLE s 0))"
  using keyboard_run_returns [OF assms, of dev fuel n] keyboard_run_shift [OF assms, of dev fuel n] by blast

theorem shift_never_released_witness:
  "\<exists>s' m. keyboard_run (\<lambda>t p. 0xAA) 1 5 (keyboard_boot\<lparr>shift_l := True\<rparr>) = Inr s' \<and> shift_l s' \<and>
    read_q (TTY_TABLE s' 0) = (queue_put 0 ^^ m) (read_q (TTY_TABLE keyboard_boot 0))"
  using shift_never_released [of "keyboard_boot\<lparr>shift_l := True\<rparr>" "\<lambda>t p. 0xAA" 1 5]
    keyboard_boot_facts(1) by (auto simp: kb_idle_def)

lemma queue_put_full:
  assumes "queue_inv q" and "fullQueue q"
  shows "queue_contents (queue_put c q) = []"
  using assms queue_empty_iff [OF queue_inv_put [OF assms(1), of c]]
  by (simp add: fullQueue_def queue_put_def)

text \<open>The handler does not test for a full queue: a character typed into a full queue discards all
  1023 characters waiting there, and itself.\<close>

theorem keyboard_overflow:
  assumes "kb_idle s" and "dev (trace s) KB_DATA = scan" and "scan AND 0x80 = 0"
    and "0x61 \<le> keyrow scan 0" and "queue_inv (read_q (TTY_TABLE s 0))" and "fullQueue (read_q (TTY_TABLE s 0))"
  shows "length (queue_contents (read_q (TTY_TABLE s 0))) = 1023 \<and>
    (\<exists>s'. keyboardHandler dev fuel s = Inr s' \<and> queue_contents (read_q (TTY_TABLE s' 0)) = [])"
  using keyboardHandler_idle [of s dev scan fuel, OF assms(1-3) letter_not_modifier [OF assms(4)]]
    queue_put_full [OF assms(5,6)] fullQueue_length [OF assms(5)] assms(6) by auto

definition typed_ahead :: "'a keyboard_scheme \<Rightarrow> 'a keyboard_scheme" where
  "typed_ahead s = s\<lparr>TTY_TABLE := (TTY_TABLE s)(0 := (TTY_TABLE s 0)\<lparr>read_q := (empty_queue 0)\<lparr>q_head := 1023\<rparr>\<rparr>)\<rparr>"

theorem keyboard_overflow_witness:
  "\<exists>s'. keyboardHandler (\<lambda>t p. 0x10) 1 (typed_ahead keyboard_boot) = Inr s' \<and>
    queue_contents (read_q (TTY_TABLE s' 0)) = []"
proof -
  have "kb_idle (typed_ahead keyboard_boot)"
    using keyboard_boot_facts(1) by (simp add: kb_idle_def typed_ahead_def)
  moreover have "read_q (TTY_TABLE (typed_ahead keyboard_boot) 0) = (empty_queue 0)\<lparr>q_head := 1023\<rparr>"
    by (simp add: typed_ahead_def)
  ultimately show ?thesis
    using keyboard_overflow [of "typed_ahead keyboard_boot" "\<lambda>t p. 0x10" "0x10" 1]
    by (simp add: keyrow_q queue_inv_def fullQueue_def empty_queue_def)
qed

text \<open>When the controller reports ready, \<open>setLeds\<close> returns, sends exactly the LED command and the byte of
  the three lock states, and changes nothing else.\<close>

theorem setLeds_protocol:
  assumes "\<And>t. dev t KB_CMD AND 0x02 = 0"
  shows "\<exists>s'. setLeds dev (Suc fuel) s = Inr s' \<and> io.more s' = io.more s \<and>
    written 0x60 (trace s') = written 0x60 (trace s) @
      [0xED, 4 * of_bool (caps_lock s) + 2 * of_bool (num_lock s) + of_bool (scroll_lock s)]"
proof -
  obtain s' where s': "setLeds dev (Suc fuel) s = Inr s'" using setLeds_returns [of dev fuel s] assms by blast
  have "kb_leds s = 4 * of_bool (caps_lock s) + 2 * of_bool (num_lock s) + of_bool (scroll_lock s)"
    by (cases "caps_lock s"; cases "num_lock s"; cases "scroll_lock s") (simp_all add: kb_leds_def)
  with setLeds_result [OF s'] s' show ?thesis by simp
qed

theorem setLeds_protocol_witness:
  "\<exists>s'. setLeds (\<lambda>t p. 0x1C) 1 keyboard_boot = Inr s' \<and> io.more s' = io.more keyboard_boot"
  using setLeds_protocol [of "\<lambda>t p. 0x1C" 0 keyboard_boot] by auto

end
