(* ===== verification/Memory.thy ===== *)
theory Memory
  imports Print Keyboard
begin

section \<open>Physical pages and page tables\<close>

text \<open>
  \<^verbatim>\<open>mm/memory.c\<close>: the map of page reference counts, the page allocator, sharing of page tables between
  processes and copy on write. Physical memory is a map from addresses to 32-bit words; every access of
  this component is to a word at a multiple of four, in kernel mode, where linear addresses are physical
  ones. \<^verbatim>\<open>MEM_MAP\<close> has 8192 signed bytes; an index beyond is a fault. \<open>loadCR3\<close> records the directory.
\<close>

record memory = keyboard +
  MEM_MAP :: "nat \<Rightarrow> t8"
  ram :: "u32 \<Rightarrow> u32"
  cr3 :: u32

abbreviation (input) KERNEL_MEM :: u32 where "KERNEL_MEM \<equiv> 0x100000"
abbreviation (input) MEM_SIZE :: u32 where "MEM_SIZE \<equiv> 0x2000000"
abbreviation (input) PAGES_SIZE :: nat where "PAGES_SIZE \<equiv> 8192"
abbreviation (input) PAGE_DIR :: u32 where "PAGE_DIR \<equiv> 0"
abbreviation (input) PG_P :: u32 where "PG_P \<equiv> 1"
abbreviation (input) PG_RWW :: u32 where "PG_RWW \<equiv> 2"
abbreviation (input) PG_USU :: u32 where "PG_USU \<equiv> 4"

subsection \<open>Words of memory\<close>

definition poke :: "u32 \<Rightarrow> u32 \<Rightarrow> 'a memory_scheme \<Rightarrow> 'a memory_scheme" where
  "poke a v s = s\<lparr>ram := (ram s)(a := v)\<rparr>"

definition loadCR3 :: "u32 \<Rightarrow> 'a memory_scheme \<Rightarrow> 'a memory_scheme" where
  "loadCR3 dir s = s\<lparr>cr3 := dir\<rparr>"

text \<open>The loop that clears a page, and \<open>memcpy\<close> of a number of words, from low to high addresses.\<close>

primrec clear_words :: "nat \<Rightarrow> u32 \<Rightarrow> 'a memory_scheme \<Rightarrow> 'a memory_scheme" where
  "clear_words 0 a s = s"
| "clear_words (Suc n) a s = clear_words n (a + 4) (poke a 0 s)"

primrec copy_words :: "nat \<Rightarrow> u32 \<Rightarrow> u32 \<Rightarrow> 'a memory_scheme \<Rightarrow> 'a memory_scheme" where
  "copy_words 0 dest src s = s"
| "copy_words (Suc n) dest src s = copy_words n (dest + 4) (src + 4) (poke dest (ram s src) s)"

subsection \<open>The allocator\<close>

definition initMemory :: "t32 \<Rightarrow> 'a memory_scheme \<Rightarrow> 'a memory_scheme outcome" where
  "initMemory mem_size s =
     (let mem_size = (if sint mem_size > 0x3C00000 then 0x3C00000 else mem_size);
          mem_size = mem_size AND 0xFFFFF000
      in if sint mem_size < 0x400000 then Inl (Hang ''initMemory'')
         else
           let buf_mem_end = mem_size div 4 - 1;
               main_mem_end = mem_size - 1
           in Inr (s\<lparr>MEM_MAP := (\<lambda>i.
                if i < PAGES_SIZE then
                  if i \<le> unat (drop_bit 12 buf_mem_end) then 100
                  else if i \<le> unat (drop_bit 12 main_mem_end) then 0
                  else MEM_MAP s i
                else MEM_MAP s i)\<rparr>))"

text \<open>The static initialiser \<^verbatim>\<open>{-1,}\<close>: the first entry is -1 and the others are zero.\<close>

definition MEM_MAP_init :: "nat \<Rightarrow> t8" where
  "MEM_MAP_init i = (if i = 0 then - 1 else 0)"

text \<open>The search of \<open>getFreePage\<close>: the first free page from \<open>i\<close> on.\<close>

function find_free :: "(nat \<Rightarrow> t8) \<Rightarrow> nat \<Rightarrow> nat option" where
  "find_free m i =
     (if i \<ge> PAGES_SIZE then None else if m i = 0 then Some i else find_free m (i + 1))"
  by pat_completeness auto
termination
  by (relation "measure (\<lambda>(m, i). PAGES_SIZE - i)") auto

declare find_free.simps [simp del]

definition getFreePage :: "'a memory_scheme \<Rightarrow> u32 \<times> 'a memory_scheme" where
  "getFreePage s =
     (case find_free (MEM_MAP s) 0 of
        None \<Rightarrow> (0, s)
      | Some i \<Rightarrow>
          let addr = push_bit 12 (of_nat i);
              s = s\<lparr>MEM_MAP := (MEM_MAP s)(i := 1)\<rparr>
          in (addr, clear_words 1024 addr s))"

definition freePage :: "u32 \<Rightarrow> 'a memory_scheme \<Rightarrow> 'a memory_scheme outcome" where
  "freePage addr s =
     (if addr < KERNEL_MEM then Inr s
      else if addr \<ge> MEM_SIZE then Inl (Hang ''freePage'')
      else
        let i = unat (drop_bit 12 addr);
            old = MEM_MAP s i;
            s = s\<lparr>MEM_MAP := (MEM_MAP s)(i := old - 1)\<rparr>
        in if old \<noteq> 0 then Inr s else Inr (s\<lparr>MEM_MAP := (MEM_MAP s)(i := 0)\<rparr>))"

subsection \<open>Sharing page tables\<close>

text \<open>\<^verbatim>\<open>MEM_MAP[i]++\<close> and \<^verbatim>\<open>MEM_MAP[i]--\<close>, with the bound of the array.\<close>

definition map_add :: "u32 \<Rightarrow> t8 \<Rightarrow> 'a memory_scheme \<Rightarrow> 'a memory_scheme outcome" where
  "map_add i d s =
     (if unat i \<ge> PAGES_SIZE then Inl (Fault ''MEM_MAP'')
      else Inr (s\<lparr>MEM_MAP := (MEM_MAP s)(unat i := MEM_MAP s (unat i) + d)\<rparr>))"

text \<open>The inner loop of \<open>copyPageTables\<close>: \<open>cnt\<close> entries from one page table to another.\<close>

primrec copy_entries :: "nat \<Rightarrow> u32 \<Rightarrow> u32 \<Rightarrow> 'a memory_scheme \<Rightarrow> 'a memory_scheme outcome" where
  "copy_entries 0 from_tab to_tab s = Inr s"
| "copy_entries (Suc cnt) from_tab to_tab s =
     (let t_page = ram s from_tab
      in if t_page AND PG_P = 0 then copy_entries cnt (from_tab + 4) (to_tab + 4) s
         else
           let t_page = t_page AND NOT 2;
               s = poke to_tab t_page s
           in if t_page > KERNEL_MEM
              then andThen (map_add (drop_bit 12 t_page) 1 (poke from_tab t_page s))
                     (copy_entries cnt (from_tab + 4) (to_tab + 4))
              else copy_entries cnt (from_tab + 4) (to_tab + 4) s)"

text \<open>The outer loop, over \<open>n\<close> directory entries; the result \<open>False\<close> stands for \<^verbatim>\<open>return -1\<close>.\<close>

primrec copy_dirs ::
  "nat \<Rightarrow> u32 \<Rightarrow> u32 \<Rightarrow> u32 \<Rightarrow> 'a memory_scheme \<Rightarrow> (bool \<times> 'a memory_scheme) outcome" where
  "copy_dirs 0 src_addr from_dir to_dir s = Inr (True, s)"
| "copy_dirs (Suc n) src_addr from_dir to_dir s =
     (if ram s to_dir AND PG_P \<noteq> 0 then Inr (False, s)
      else if ram s from_dir AND PG_P = 0
        then copy_dirs n src_addr (from_dir + 4) (to_dir + 4) s
      else
        let from_tab = 0xFFFFF000 AND ram s from_dir;
            (to_tab, s) = getFreePage s
        in if to_tab = 0 then Inr (False, s)
           else andThen
             (copy_entries (if src_addr = 0 then 0xA0 else 1024) from_tab to_tab
               (poke to_dir (to_tab OR PG_P OR PG_RWW OR PG_USU) s))
             (copy_dirs n src_addr (from_dir + 4) (to_dir + 4)))"

definition dir_count :: "u32 \<Rightarrow> nat" where
  "dir_count len = unat (drop_bit 22 (len + 0x3FFFFF))"

definition copyPageTables ::
  "u32 \<Rightarrow> u32 \<Rightarrow> u32 \<Rightarrow> 'a memory_scheme \<Rightarrow> (t32 \<times> 'a memory_scheme) outcome" where
  "copyPageTables dest_addr src_addr len s =
     (if dest_addr AND 0x3FFFFF \<noteq> 0 \<or> src_addr AND 0x3FFFFF \<noteq> 0 then Inr (- 1, s)
      else andThen
        (copy_dirs (dir_count len) src_addr (push_bit 2 (drop_bit 22 src_addr))
          (push_bit 2 (drop_bit 22 dest_addr)) s)
        (\<lambda>(ok, s). Inr (if ok then (0, loadCR3 PAGE_DIR s) else (- 1, s))))"

subsection \<open>Releasing page tables\<close>

primrec free_entries :: "nat \<Rightarrow> u32 \<Rightarrow> 'a memory_scheme \<Rightarrow> 'a memory_scheme outcome" where
  "free_entries 0 tab s = Inr s"
| "free_entries (Suc n) tab s =
     andThen (if ram s tab AND PG_P \<noteq> 0 then freePage (0xFFFFF000 AND ram s tab) s else Inr s)
       (\<lambda>s. free_entries n (tab + 4) (poke tab 0 s))"

primrec free_dirs :: "nat \<Rightarrow> u32 \<Rightarrow> 'a memory_scheme \<Rightarrow> 'a memory_scheme outcome" where
  "free_dirs 0 dir s = Inr s"
| "free_dirs (Suc n) dir s =
     (if PG_P AND ram s dir = 0 then free_dirs n (dir + 4) s
      else andThen (free_entries 1024 (0xFFFFF000 AND ram s dir) s) (\<lambda>s.
           andThen (freePage (0xFFFFF000 AND ram s dir) s) (\<lambda>s.
           free_dirs n (dir + 4) (poke dir 0 s))))"

definition freePageTables :: "u32 \<Rightarrow> u32 \<Rightarrow> 'a memory_scheme \<Rightarrow> (t32 \<times> 'a memory_scheme) outcome" where
  "freePageTables addr len s =
     (if addr AND 0x3FFFFF \<noteq> 0 then Inr (- 1, s)
      else if addr = 0 then Inr (- 1, s)
      else andThen (free_dirs (dir_count len) (push_bit 2 (drop_bit 22 addr)) s)
             (\<lambda>s. Inr (0, loadCR3 PAGE_DIR s)))"

subsection \<open>Copy on write\<close>

definition unWriteProtectPage :: "u32 \<Rightarrow> 'a memory_scheme \<Rightarrow> 'a memory_scheme outcome" where
  "unWriteProtectPage pg_tb_item s =
     (let old_page = ram s pg_tb_item AND 0xFFFFF000;
          i = unat (drop_bit 12 old_page)
      in if old_page \<ge> KERNEL_MEM \<and> i \<ge> PAGES_SIZE then Inl (Fault ''MEM_MAP'')
         else if old_page \<ge> KERNEL_MEM \<and> MEM_MAP s i = 1
           then Inr (loadCR3 PAGE_DIR (poke pg_tb_item (ram s pg_tb_item OR PG_RWW) s))
         else
           let (new_page, s) = getFreePage s
           in if new_page = 0 then Inl (Hang ''unWriteProtectPage'')
              else
                andThen (if old_page \<ge> KERNEL_MEM then map_add (drop_bit 12 old_page) (- 1) s else Inr s)
                (\<lambda>s. Inr (copy_words 1024 new_page old_page
                       (loadCR3 PAGE_DIR (poke pg_tb_item (new_page OR PG_USU OR PG_RWW OR PG_P) s)))))"

text \<open>The format \<^verbatim>\<open>"addr:%x\t"\<close>.\<close>

definition addr_fmt :: "t8 list" where
  "addr_fmt = [97, 100, 100, 114, 58, 37, 120, 9]"

definition writeProtectPage ::
  "texts \<Rightarrow> nat \<Rightarrow> u32 \<Rightarrow> 'a memory_scheme \<Rightarrow> 'a memory_scheme outcome" where
  "writeProtectPage tx fuel addr s =
     andThen (printk tx fuel addr_fmt (\<lambda>_. addr) s) (\<lambda>(_, s).
       let pg_tb_dir = ram s (push_bit 2 (drop_bit 22 addr)) AND 0xFFFFF000;
           pg_tb_item = pg_tb_dir + push_bit 2 (drop_bit 12 addr AND 0x3FF)
       in unWriteProtectPage pg_tb_item s)"

definition missingPage ::
  "texts \<Rightarrow> nat \<Rightarrow> u32 \<Rightarrow> 'a memory_scheme \<Rightarrow> 'a memory_scheme outcome" where
  "missingPage tx fuel addr s =
     andThen (printk tx fuel addr_fmt (\<lambda>_. addr) s) (\<lambda>(_, s). Inr s)"

subsection \<open>Runs of words\<close>

primrec words :: "nat \<Rightarrow> u32 \<Rightarrow> u32 set" where
  "words 0 a = {}"
| "words (Suc n) a = insert a (words n (a + 4))"

lemma words_iff: "x \<in> words n a \<longleftrightarrow> (\<exists>k < n. x = a + 4 * of_nat k)"
proof (induction n arbitrary: a)
  case (Suc n)
  have "a + 4 + 4 * of_nat k = a + 4 * of_nat (Suc k)" for k by simp
  then show ?case by (simp only: words.simps insert_iff Suc Ex_less_Suc2) simp
qed simp

lemma word_offset_inj:
  assumes "(a :: u32) + 4 * of_nat j = a + 4 * of_nat k" and "j < 1073741824" "k < 1073741824"
  shows "j = k"
proof -
  have "(of_nat (4 * j) :: u32) = of_nat (4 * k)" using assms(1) by simp
  then have "unat (of_nat (4 * j) :: u32) = unat (of_nat (4 * k) :: u32)" by simp
  then show ?thesis using unat_of_nat_u32 [of "4 * j"] unat_of_nat_u32 [of "4 * k"] assms(2,3) by simp
qed

lemma words_head: "n \<le> 1024 \<Longrightarrow> a \<notin> words n (a + 4)"
proof
  assume "a \<in> words n (a + 4)" and n: "n \<le> 1024"
  then obtain k where "k < n" "a = a + 4 + 4 * of_nat k" by (auto simp: words_iff)
  then have "a + 4 * of_nat 0 = a + 4 * of_nat (Suc k)" by simp
  from word_offset_inj [OF this] \<open>k < n\<close> n show False by simp
qed

lemma clear_words_spec:
  "ram (clear_words n a s) x = (if x \<in> words n a then 0 else ram s x)"
  by (induction n arbitrary: a s) (auto simp: poke_def)

lemma clear_words_frame [simp]:
  "MEM_MAP (clear_words n a s) = MEM_MAP s" "cr3 (clear_words n a s) = cr3 s"
  by (induction n arbitrary: a s) (simp_all add: poke_def)

text \<open>The words a page table or page holds.\<close>

primrec table :: "nat \<Rightarrow> u32 \<Rightarrow> (u32 \<Rightarrow> u32) \<Rightarrow> u32 list" where
  "table 0 a m = []"
| "table (Suc n) a m = m a # table n (a + 4) m"

lemma table_cong: "(\<And>x. x \<in> words n a \<Longrightarrow> m x = m' x) \<Longrightarrow> table n a m = table n a m'"
  by (induction n arbitrary: a) simp_all

lemma table_upd [simp]: "x \<notin> words n a \<Longrightarrow> table n a (m(x := v)) = table n a m"
  by (rule table_cong) auto

lemma length_table [simp]: "length (table n a m) = n"
  by (induction n arbitrary: a) simp_all

lemma copy_words_frame [simp]:
  "MEM_MAP (copy_words n d a s) = MEM_MAP s" "cr3 (copy_words n d a s) = cr3 s"
  by (induction n arbitrary: d a s) (simp_all add: poke_def)

lemma copy_words_outside: "x \<notin> words n d \<Longrightarrow> ram (copy_words n d a s) x = ram s x"
  by (induction n arbitrary: d a s) (auto simp: poke_def)

lemma copy_words_table:
  "words n d \<inter> words n a = {} \<Longrightarrow> n \<le> 1024 \<Longrightarrow> table n d (ram (copy_words n d a s)) = table n a (ram s)"
proof (induction n arbitrary: d a s)
  case (Suc n)
  have d: "d \<notin> words n (a + 4)" "d \<notin> words n (d + 4)"
    using Suc.prems words_head [of n d] by auto
  have "words n (d + 4) \<inter> words n (a + 4) = {}" using Suc.prems(1) by auto
  from Suc.IH [OF this, of "poke d (ram s a) s"] Suc.prems(2)
  have "table n (d + 4) (ram (copy_words (Suc n) d a s)) = table n (a + 4) ((ram s)(d := ram s a))"
    by (simp add: poke_def fun_upd_def)
  also have "\<dots> = table n (a + 4) (ram s)" using d(1) by (rule table_upd)
  finally have rest: "table n (d + 4) (ram (copy_words (Suc n) d a s)) = table n (a + 4) (ram s)" .
  have "ram (copy_words (Suc n) d a s) d = ram s a"
    using copy_words_outside [OF d(2), of "a + 4" "poke d (ram s a) s"] by (simp add: poke_def)
  with rest show ?case by simp
qed simp

text \<open>A table of zeros filled in its first words only.\<close>

lemma words_mono: "m \<le> n \<Longrightarrow> words m a \<subseteq> words n a"
proof
  fix x assume "m \<le> n" and "x \<in> words m a"
  then obtain k where "k < n" "x = a + 4 * of_nat k" by (auto simp: words_iff dest: order.strict_trans2)
  then show "x \<in> words n a" unfolding words_iff by blast
qed

lemma words_tail: "words n (a + 4 * of_nat m) \<subseteq> words (m + n) a"
proof
  fix x assume "x \<in> words n (a + 4 * of_nat m)"
  then obtain k where "k < n" "x = a + 4 * of_nat (m + k)" by (auto simp: words_iff algebra_simps)
  then show "x \<in> words (m + n) a" unfolding words_iff by (intro exI [of _ "m + k"]) simp
qed

lemma words_tail_disjoint:
  assumes "m + n \<le> 1024"
  shows "words m a \<inter> words n (a + 4 * of_nat m) = {}"
proof (rule ccontr)
  assume "words m a \<inter> words n (a + 4 * of_nat m) \<noteq> {}"
  then obtain x where "x \<in> words m a" "x \<in> words n (a + 4 * of_nat m)" by blast
  then obtain i k where "i < m" "k < n" "a + 4 * of_nat i = a + 4 * of_nat (m + k)"
    by (auto simp: words_iff algebra_simps)
  then show False using word_offset_inj [of a i "m + k"] assms by simp
qed

lemma table_append: "table (m + n) a r = table m a r @ table n (a + 4 * of_nat m) r"
  by (induction m arbitrary: a) (simp_all add: algebra_simps)

lemma table_zeros: "(\<And>x. x \<in> words n a \<Longrightarrow> r x = 0) \<Longrightarrow> table n a r = replicate n 0"
  by (induction n arbitrary: a) simp_all

lemma table_filled:
  assumes "m \<le> 1024" and "\<And>x. x \<in> words 1024 a \<Longrightarrow> x \<notin> words m a \<Longrightarrow> r x = 0"
  shows "table 1024 a r = table m a r @ replicate (1024 - m) 0"
proof -
  have "r x = 0" if "x \<in> words (1024 - m) (a + 4 * of_nat m)" for x
    using assms that words_tail [of "1024 - m" a m] words_tail_disjoint [of m "1024 - m" a] by auto
  then have "table (1024 - m) (a + 4 * of_nat m) r = replicate (1024 - m) 0" by (rule table_zeros)
  then show ?thesis using table_append [of m "1024 - m" a r] assms(1) by simp
qed

subsection \<open>Pages\<close>

definition page_addr :: "nat \<Rightarrow> u32" where
  "page_addr i = push_bit 12 (of_nat i)"

abbreviation (input) page_words :: "nat \<Rightarrow> u32 set" where
  "page_words i \<equiv> words 1024 (page_addr i)"

lemma unat_page_addr: "i < 1048576 \<Longrightarrow> unat (page_addr i) = 4096 * i"
  using unat_of_nat_u32 [of "4096 * i"] by (simp add: page_addr_def push_bit_eq_mult mult.commute)

lemma page_words_nat:
  "i < 1048576 \<Longrightarrow> x \<in> page_words i \<Longrightarrow> 4096 * i \<le> unat x \<and> unat x < 4096 * (i + 1)"
proof -
  assume i: "i < 1048576" and "x \<in> page_words i"
  then obtain k where k: "k < 1024" "x = page_addr i + 4 * of_nat k" by (auto simp: words_iff)
  have o: "unat (4 * of_nat k :: u32) = 4 * k" using unat_of_nat_u32 [of "4 * k"] k(1) by simp
  have "unat (page_addr i + 4 * of_nat k) = 4096 * i + 4 * k"
    using unat_plus_small [of "page_addr i" "4 * of_nat k"] unat_page_addr [OF i] o k(1) i by simp
  then show ?thesis using k by simp
qed

lemma page_words_disjoint:
  "i < 1048576 \<Longrightarrow> j < 1048576 \<Longrightarrow> i \<noteq> j \<Longrightarrow> page_words i \<inter> page_words j = {}"
  using page_words_nat [of i] page_words_nat [of j] by fastforce

lemma drop_page_addr: "i < 1048576 \<Longrightarrow> unat (drop_bit 12 (page_addr i)) = i"
  by (simp add: drop_bit_eq_div unat_div unat_page_addr)

subsection \<open>Allocation\<close>

lemma find_free_Some:
  "find_free m i = Some j \<Longrightarrow> i \<le> j \<and> j < PAGES_SIZE \<and> m j = 0 \<and> (\<forall>k. i \<le> k \<and> k < j \<longrightarrow> m k \<noteq> 0)"
proof (induction m i rule: find_free.induct)
  case (1 m i)
  have "k = i \<or> i + 1 \<le> k" if "i \<le> k" for k using that by linarith
  with 1 show ?case unfolding find_free.simps [of m i] by (auto split: if_splits)
qed

lemma find_free_None:
  "find_free m i = None \<Longrightarrow> i \<le> j \<Longrightarrow> j < PAGES_SIZE \<Longrightarrow> m j \<noteq> 0"
proof (induction m i rule: find_free.induct)
  case (1 m i)
  have "j = i \<or> i + 1 \<le> j" using 1(3) by linarith
  with 1 show ?case unfolding find_free.simps [of m i] by (auto split: if_splits)
qed

text \<open>The pages that \<open>getFreePage\<close> can return.\<close>

definition free_frames :: "'a memory_scheme \<Rightarrow> u32 set" where
  "free_frames s = {page_addr i | i. i < PAGES_SIZE \<and> MEM_MAP s i = 0}"

definition mem_ok :: "'a memory_scheme \<Rightarrow> bool" where
  "mem_ok s \<longleftrightarrow> MEM_MAP s 0 \<noteq> 0"

lemma page_addr_inj: "i < PAGES_SIZE \<Longrightarrow> j < PAGES_SIZE \<Longrightarrow> page_addr i = page_addr j \<longleftrightarrow> i = j"
proof -
  assume "i < PAGES_SIZE" "j < PAGES_SIZE"
  then have "unat (drop_bit 12 (page_addr i)) = i" "unat (drop_bit 12 (page_addr j)) = j"
    by (simp_all only: drop_page_addr)
  then show ?thesis by metis
qed

lemma page_addr_0: "i < PAGES_SIZE \<Longrightarrow> page_addr i = 0 \<longleftrightarrow> i = 0"
  using page_addr_inj [of i 0] by (simp add: page_addr_def)

lemma getFreePage_cases:
  assumes "mem_ok s"
  obtains (none) "getFreePage s = (0, s)" "\<forall>i < PAGES_SIZE. MEM_MAP s i \<noteq> 0"
    | (page) i where "0 < i" "i < PAGES_SIZE" "MEM_MAP s i = 0" "\<forall>j < i. MEM_MAP s j \<noteq> 0" "page_addr i \<noteq> 0"
        "getFreePage s = (page_addr i, clear_words 1024 (page_addr i) (s\<lparr>MEM_MAP := (MEM_MAP s)(i := 1)\<rparr>))"
proof (cases "find_free (MEM_MAP s) 0")
  case None
  then show ?thesis using none find_free_None [OF None] by (simp add: getFreePage_def)
next
  case (Some i)
  note f = find_free_Some [OF Some]
  have "i \<noteq> 0" using f assms by (metis mem_ok_def)
  then show ?thesis
    using page [of i] f Some page_addr_0 [of i] by (simp add: getFreePage_def page_addr_def Let_def)
qed

lemma getFreePage_Some:
  assumes "mem_ok s" and "getFreePage s = (a, s')" and "a \<noteq> 0"
  obtains i where "0 < i" "i < PAGES_SIZE" "a = page_addr i" "MEM_MAP s i = 0"
    "MEM_MAP s' = (MEM_MAP s)(i := 1)" "\<And>x. ram s' x = (if x \<in> page_words i then 0 else ram s x)" "cr3 s' = cr3 s"
  using assms(1)
proof (cases rule: getFreePage_cases)
  case (page i)
  then show ?thesis
    using assms(2) that [of i] by (auto simp: clear_words_spec)
qed (use assms in auto)

lemma freePage_dec:
  assumes "KERNEL_MEM \<le> a" and "a < MEM_SIZE"
  shows "freePage a s = Inr (s\<lparr>MEM_MAP := (MEM_MAP s)(unat (drop_bit 12 a) :=
    (if MEM_MAP s (unat (drop_bit 12 a)) = 0 then 0 else MEM_MAP s (unat (drop_bit 12 a)) - 1))\<rparr>)"
  using assms by (auto simp: freePage_def Let_def)

subsection \<open>The interface of a page allocator\<close>

text \<open>
  What the rest of the kernel needs of the allocator: an allocation takes a page out of the free ones or
  fails when there is none, and a page released right after its allocation is free again.
\<close>

primrec alloc_many :: "('s \<Rightarrow> u32 \<times> 's) \<Rightarrow> nat \<Rightarrow> 's \<Rightarrow> u32 list \<times> 's" where
  "alloc_many alloc 0 s = ([], s)"
| "alloc_many alloc (Suc n) s =
     (let (a, s) = alloc s; (rest, s) = alloc_many alloc n s in (a # rest, s))"

locale page_pool =
  fixes alloc :: "'s \<Rightarrow> u32 \<times> 's"
    and release :: "u32 \<Rightarrow> 's \<Rightarrow> stop + 's"
    and avail :: "'s \<Rightarrow> u32 set"
    and user :: "u32 \<Rightarrow> bool"
    and good :: "'s \<Rightarrow> bool"
  assumes alloc_fresh: "good s \<Longrightarrow> alloc s = (a, s') \<Longrightarrow> a \<noteq> 0 \<Longrightarrow> a \<in> avail s \<and> avail s' = avail s - {a} \<and> good s'"
    and alloc_fails: "good s \<Longrightarrow> alloc s = (0, s') \<Longrightarrow> s' = s \<and> avail s = {}"
    and release_back: "good s \<Longrightarrow> alloc s = (a, s') \<Longrightarrow> a \<noteq> 0 \<Longrightarrow> user a \<Longrightarrow>
      \<exists>s''. release a s' = Inr s'' \<and> avail s'' = avail s \<and> good s''"
begin

lemma alloc_many_fresh:
  "good s \<Longrightarrow> alloc_many alloc n s = (as, s') \<Longrightarrow> 0 \<notin> set as \<Longrightarrow>
    distinct as \<and> set as \<subseteq> avail s \<and> avail s' = avail s - set as \<and> good s'"
proof (induction n arbitrary: s as)
  case (Suc n)
  obtain a s1 where a: "alloc s = (a, s1)" by (cases "alloc s")
  obtain bs s2 where bs: "alloc_many alloc n s1 = (bs, s2)" by (cases "alloc_many alloc n s1")
  from Suc.prems(2) a bs have as: "as = a # bs" "s' = s2" by auto
  with Suc.prems(3) have "a \<noteq> 0" "0 \<notin> set bs" by auto
  note f = alloc_fresh [OF Suc.prems(1) a this(1)]
  from Suc.IH [OF conjunct2 [OF conjunct2 [OF f]], of bs] bs as \<open>0 \<notin> set bs\<close> f show ?case by auto
qed auto

end

lemma free_frames_upd:
  assumes "i < PAGES_SIZE" and "v \<noteq> 0"
  shows "MEM_MAP s' = (MEM_MAP s)(i := v) \<Longrightarrow> free_frames s' = free_frames s - {page_addr i}"
  using assms page_addr_inj by (auto simp: free_frames_def split: if_splits)

interpretation pool: page_pool getFreePage freePage free_frames "\<lambda>a. KERNEL_MEM \<le> a" mem_ok
proof unfold_locales
  fix s s' :: "'a memory_scheme" and a
  assume ok: "mem_ok s" and g: "getFreePage s = (a, s')" and a: "a \<noteq> 0"
  from ok g a obtain i where i: "0 < i" "i < PAGES_SIZE" "a = page_addr i" "MEM_MAP s i = 0"
    "MEM_MAP s' = (MEM_MAP s)(i := 1)" by (rule getFreePage_Some)
  show "a \<in> free_frames s \<and> free_frames s' = free_frames s - {a} \<and> mem_ok s'"
    using i free_frames_upd [OF i(2), of 1 s' s] ok by (auto simp: free_frames_def mem_ok_def)
  assume "KERNEL_MEM \<le> a"
  moreover have "a < MEM_SIZE" using i(2,3) unat_page_addr [of i] by (simp add: word_less_nat_alt)
  moreover have "unat (drop_bit 12 a) = i" using i(2,3) drop_page_addr [of i] by simp
  ultimately have "freePage a s' = Inr (s'\<lparr>MEM_MAP := MEM_MAP s\<rparr>)"
    using freePage_dec [of a s'] i(4,5) by (simp add: fun_upd_idem)
  then show "\<exists>s''. freePage a s' = Inr s'' \<and> free_frames s'' = free_frames s \<and> mem_ok s''"
    using ok by (simp add: free_frames_def mem_ok_def)
next
  fix s s' :: "'a memory_scheme"
  assume ok: "mem_ok s" and g: "getFreePage s = (0, s')"
  from ok show "s' = s \<and> free_frames s = {}"
    by (cases rule: getFreePage_cases) (use g in \<open>auto simp: free_frames_def\<close>)
qed

subsection \<open>Sharing the entries of a page table\<close>

definition present :: "u32 \<Rightarrow> bool" where
  "present e \<longleftrightarrow> e AND PG_P \<noteq> 0"

definition read_only :: "u32 \<Rightarrow> u32" where
  "read_only e = e AND NOT 2"

text \<open>An entry that is present and whose page the reference counts cover.\<close>

definition counted :: "u32 \<Rightarrow> bool" where
  "counted e \<longleftrightarrow> present e \<and> read_only e > KERNEL_MEM"

definition frame_of :: "u32 \<Rightarrow> nat" where
  "frame_of e = unat (drop_bit 12 e)"

text \<open>What the child and the parent see of an entry after sharing, and how often a table counts a page.\<close>

definition child_entry :: "u32 \<Rightarrow> u32 \<Rightarrow> u32" where
  "child_entry e old = (if present e then read_only e else old)"

definition parent_entry :: "u32 \<Rightarrow> u32" where
  "parent_entry e = (if counted e then read_only e else e)"

definition refs :: "u32 list \<Rightarrow> nat \<Rightarrow> nat" where
  "refs es f = length (filter (\<lambda>e. counted e \<and> frame_of e = f) es)"

lemma refs_simps [simp]:
  "refs [] f = 0"
  "refs (e # es) f = (if counted e \<and> frame_of e = f then Suc (refs es f) else refs es f)"
  by (simp_all add: refs_def)

lemma bit_read_only: "bit (read_only e) n \<longleftrightarrow> bit e n \<and> n \<noteq> 1"
  unfolding read_only_def bit_and_iff bit_not_iff bit_2_iff by (auto dest: bit_imp_possible_bit)

lemma drop_bit_read_only: "drop_bit 12 (read_only e) = drop_bit 12 e"
  by (rule bit_word_eqI) (simp add: bit_read_only bit_drop_bit_eq)

lemma frame_read_only [simp]: "frame_of (read_only e) = frame_of e"
  by (simp add: frame_of_def drop_bit_read_only)

lemma read_only_idem [simp]: "read_only (read_only e) = read_only e"
  by (simp add: read_only_def)

lemma present_read_only [simp]: "present (read_only e) = present e"
proof -
  have "read_only e AND 1 = e AND 1"
    by (rule bit_word_eqI) (auto simp: bit_and_iff bit_read_only bit_1_iff)
  then show ?thesis by (simp add: present_def)
qed

lemma counted_read_only [simp]: "counted (read_only e) = counted e"
  by (simp add: counted_def)

lemma copy_entries_unfold:
  "copy_entries (Suc n) from_tab to_tab s =
    (let e = ram s from_tab; next = copy_entries n (from_tab + 4) (to_tab + 4)
     in if \<not> present e then next s
        else if counted e
          then andThen (map_add (drop_bit 12 e) 1 (poke from_tab (read_only e) (poke to_tab (read_only e) s))) next
        else next (poke to_tab (read_only e) s))"
  by (cases "present (ram s from_tab)")
    (simp_all only: copy_entries.simps Let_def present_def counted_def read_only_def [symmetric] drop_bit_read_only
      not_not simp_thms if_True if_False)

lemma copy_entries_step:
  assumes "counted (ram s from_tab) \<Longrightarrow> frame_of (ram s from_tab) < PAGES_SIZE" and "from_tab \<noteq> to_tab"
  shows "copy_entries (Suc n) from_tab to_tab s =
    copy_entries n (from_tab + 4) (to_tab + 4)
      (s\<lparr>ram := (ram s)(to_tab := child_entry (ram s from_tab) (ram s to_tab),
                        from_tab := parent_entry (ram s from_tab)),
         MEM_MAP := (if counted (ram s from_tab)
           then (MEM_MAP s)(frame_of (ram s from_tab) := MEM_MAP s (frame_of (ram s from_tab)) + 1)
           else MEM_MAP s)\<rparr>)"
proof -
  have upd: "(ram s)(to_tab := v, from_tab := ram s from_tab) = (ram s)(to_tab := v)" for v
    using assms(2) by auto
  have c: "counted (ram s from_tab) \<Longrightarrow> present (ram s from_tab)" by (simp add: counted_def)
  show ?thesis unfolding copy_entries_unfold
    using assms c upd
    by (cases "counted (ram s from_tab)")
      (simp_all add: Let_def poke_def map_add_def child_entry_def parent_entry_def frame_of_def)
qed

lemma copy_entries_spec:
  assumes "words n from_tab \<inter> words n to_tab = {}" and "n \<le> 1024"
    and "\<forall>e \<in> set (table n from_tab (ram s)). counted e \<longrightarrow> frame_of e < PAGES_SIZE"
  shows "\<exists>s'. copy_entries n from_tab to_tab s = Inr s' \<and>
    table n to_tab (ram s') = map2 child_entry (table n from_tab (ram s)) (table n to_tab (ram s)) \<and>
    table n from_tab (ram s') = map parent_entry (table n from_tab (ram s)) \<and>
    (\<forall>x. x \<notin> words n from_tab \<union> words n to_tab \<longrightarrow> ram s' x = ram s x) \<and>
    (\<forall>f. MEM_MAP s' f = MEM_MAP s f + of_nat (refs (table n from_tab (ram s)) f)) \<and> cr3 s' = cr3 s"
  using assms
proof (induction n arbitrary: from_tab to_tab s)
  case (Suc n)
  let ?e = "ram s from_tab"
  define s1 where "s1 = s\<lparr>ram := (ram s)(to_tab := child_entry ?e (ram s to_tab), from_tab := parent_entry ?e),
     MEM_MAP := (if counted ?e then (MEM_MAP s)(frame_of ?e := MEM_MAP s (frame_of ?e) + 1) else MEM_MAP s)\<rparr>"
  have h: "from_tab \<notin> words n (from_tab + 4)" "to_tab \<notin> words n (to_tab + 4)"
    "from_tab \<notin> words n (to_tab + 4)" "to_tab \<notin> words n (from_tab + 4)" "from_tab \<noteq> to_tab"
    using Suc.prems(1,2) words_head [of n] by auto
  have st: "copy_entries (Suc n) from_tab to_tab s = copy_entries n (from_tab + 4) (to_tab + 4) s1"
    using Suc.prems(3) h(5) unfolding s1_def by (subst copy_entries_step) auto
  have t: "table n (from_tab + 4) (ram s1) = table n (from_tab + 4) (ram s)"
      "table n (to_tab + 4) (ram s1) = table n (to_tab + 4) (ram s)"
    using h by (simp_all add: s1_def)
  have s1: "ram s1 from_tab = parent_entry ?e" "ram s1 to_tab = child_entry ?e (ram s to_tab)"
    "\<forall>x. x \<noteq> from_tab \<and> x \<noteq> to_tab \<longrightarrow> ram s1 x = ram s x" "cr3 s1 = cr3 s"
    "\<forall>f. MEM_MAP s1 f = MEM_MAP s f + of_nat (refs [?e] f)"
    using h(5) by (auto simp: s1_def)
  have d: "words n (from_tab + 4) \<inter> words n (to_tab + 4) = {}" using Suc.prems(1) by auto
  have "n \<le> 1024" "\<forall>e \<in> set (table n (from_tab + 4) (ram s1)). counted e \<longrightarrow> frame_of e < PAGES_SIZE"
    using Suc.prems(2,3) t(1) by simp_all
  from Suc.IH [OF d this] obtain s' where
    s': "copy_entries n (from_tab + 4) (to_tab + 4) s1 = Inr s'"
      "table n (to_tab + 4) (ram s') = map2 child_entry (table n (from_tab + 4) (ram s)) (table n (to_tab + 4) (ram s))"
      "table n (from_tab + 4) (ram s') = map parent_entry (table n (from_tab + 4) (ram s))"
      "\<forall>x. x \<notin> words n (from_tab + 4) \<union> words n (to_tab + 4) \<longrightarrow> ram s' x = ram s1 x"
      "\<forall>f. MEM_MAP s' f = MEM_MAP s1 f + of_nat (refs (table n (from_tab + 4) (ram s)) f)" "cr3 s' = cr3 s1"
    unfolding t by blast
  have r: "ram s' from_tab = parent_entry ?e" "ram s' to_tab = child_entry ?e (ram s to_tab)"
    using s'(4) h s1(1,2) by auto
  have o: "\<forall>x. x \<notin> words (Suc n) from_tab \<union> words (Suc n) to_tab \<longrightarrow> ram s' x = ram s x"
    using s'(4) s1(3) by auto
  have m: "\<forall>f. MEM_MAP s' f = MEM_MAP s f + of_nat (refs (table (Suc n) from_tab (ram s)) f)"
    using s'(5) s1(5) by (auto simp: algebra_simps)
  show ?case unfolding st using s'(1-3,6) s1(4) r o m by (intro exI [of _ s']) simp
qed (simp add: zip_eq_Nil_iff)

subsection \<open>Releasing the entries of a page table\<close>

lemma page_mask: "(0xFFFFF000 AND e :: u32) = push_bit 12 (drop_bit 12 e)"
proof -
  have m: "(0xFFFFF000 :: u32) = NOT (mask 12)" by (simp add: mask_eq_exp_minus_1)
  show ?thesis unfolding m
    by (rule bit_word_eqI) (auto simp: bit_and_iff bit_not_iff bit_mask_iff bit_push_bit_iff bit_drop_bit_eq)
qed

lemma frame_of_page [simp]: "frame_of (0xFFFFF000 AND e) = frame_of e"
proof -
  have "drop_bit 12 (push_bit 12 (drop_bit 12 e)) = drop_bit 12 e"
    by (rule bit_word_eqI) (auto simp: bit_drop_bit_eq bit_push_bit_iff dest: bit_imp_le_length)
  then show ?thesis by (simp add: frame_of_def page_mask)
qed

lemma frame_of_div: "frame_of e = unat e div 4096"
  by (simp add: frame_of_def drop_bit_eq_div unat_div)

lemma page_ge: "KERNEL_MEM \<le> 0xFFFFF000 AND e \<longleftrightarrow> 256 \<le> frame_of e"
  and page_lt: "0xFFFFF000 AND e < MEM_SIZE \<longleftrightarrow> frame_of e < 8192"
proof -
  have "frame_of e = unat (0xFFFFF000 AND e) div 4096" unfolding frame_of_div [symmetric] by simp
  then show "KERNEL_MEM \<le> 0xFFFFF000 AND e \<longleftrightarrow> 256 \<le> frame_of e"
    and "0xFFFFF000 AND e < MEM_SIZE \<longleftrightarrow> frame_of e < 8192"
    by (auto simp: word_le_nat_alt word_less_nat_alt)
qed

lemma present_bit: "present e \<longleftrightarrow> bit e 0"
  by (simp add: present_def and_one_eq mod2_eq_if bit_0)

lemma counted_iff: "counted e \<longleftrightarrow> present e \<and> 256 \<le> frame_of e"
proof (cases "present e")
  case True
  have "bit (read_only e) 0" using True by (simp only: present_bit bit_read_only) simp
  then have "read_only e \<noteq> KERNEL_MEM" by auto
  moreover have "frame_of e = unat (read_only e) div 4096"
    using frame_of_div [of "read_only e"] by simp
  ultimately have "KERNEL_MEM < read_only e \<longleftrightarrow> 256 \<le> frame_of e"
    by (auto simp: word_less_nat_alt word_unat_eq_iff)
  with True show ?thesis by (simp add: counted_def)
qed (simp add: counted_def)

lemma freePage_entry:
  assumes "present e" and "counted e \<Longrightarrow> frame_of e < PAGES_SIZE"
  shows "freePage (0xFFFFF000 AND e) s = Inr (if counted e
    then s\<lparr>MEM_MAP := (MEM_MAP s)(frame_of e := if MEM_MAP s (frame_of e) = 0 then 0 else MEM_MAP s (frame_of e) - 1)\<rparr>
    else s)"
proof (cases "counted e")
  case True
  then have "KERNEL_MEM \<le> 0xFFFFF000 AND e" "0xFFFFF000 AND e < MEM_SIZE"
    using assms(2) by (simp_all only: page_ge page_lt counted_iff)
  from freePage_dec [OF this, of s, folded frame_of_def, unfolded frame_of_page] show ?thesis
    using True by simp
next
  case False
  then have "0xFFFFF000 AND e < KERNEL_MEM" using assms(1) page_ge [of e] by (simp add: counted_iff not_le)
  then show ?thesis using False by (simp add: freePage_def)
qed

lemma refs_absent: "\<not> present e \<Longrightarrow> \<not> counted e"
  by (simp add: counted_def)

lemma free_entries_spec:
  assumes "n \<le> 1024" and "\<forall>e \<in> set (table n tab (ram s)). counted e \<longrightarrow> frame_of e < PAGES_SIZE"
    and "\<forall>f. refs (table n tab (ram s)) f \<le> unat (MEM_MAP s f)"
  shows "\<exists>s'. free_entries n tab s = Inr s' \<and> table n tab (ram s') = replicate n 0 \<and>
    (\<forall>x. x \<notin> words n tab \<longrightarrow> ram s' x = ram s x) \<and>
    (\<forall>f. MEM_MAP s' f = MEM_MAP s f - of_nat (refs (table n tab (ram s)) f)) \<and> cr3 s' = cr3 s"
  using assms
proof (induction n arbitrary: tab s)
  case (Suc n)
  let ?e = "ram s tab"
  define s1 where "s1 = poke tab 0 (if counted ?e
    then s\<lparr>MEM_MAP := (MEM_MAP s)(frame_of ?e := MEM_MAP s (frame_of ?e) - 1)\<rparr> else s)"
  have h: "tab \<notin> words n (tab + 4)" using Suc.prems(1) words_head [of n tab] by simp
  have nz: "MEM_MAP s (frame_of ?e) \<noteq> 0" if "counted ?e"
    using Suc.prems(3) [rule_format, of "frame_of ?e"] that by auto
  have st: "free_entries (Suc n) tab s = free_entries n (tab + 4) s1"
  proof (cases "present ?e")
    case True
    then show ?thesis
      using freePage_entry [OF True, of s] Suc.prems(2) nz by (auto simp: s1_def present_def)
  next
    case False
    then show ?thesis using refs_absent [OF False] by (simp add: s1_def present_def)
  qed
  have t: "table n (tab + 4) (ram s1) = table n (tab + 4) (ram s)" using h by (simp add: s1_def poke_def)
  have m1: "MEM_MAP s1 f = MEM_MAP s f - of_nat (refs [?e] f)" for f by (simp add: s1_def poke_def)
  have r: "refs (table n (tab + 4) (ram s)) f \<le> unat (MEM_MAP s1 f)" for f
  proof -
    have le: "refs [?e] f + refs (table n (tab + 4) (ram s)) f \<le> unat (MEM_MAP s f)"
      using Suc.prems(3) [rule_format, of f] by (auto split: if_splits)
    show ?thesis
    proof (cases "counted ?e \<and> frame_of ?e = f")
      case True
      then have "MEM_MAP s f \<noteq> 0" using nz by auto
      then have "unat (MEM_MAP s f - 1) = unat (MEM_MAP s f) - 1" by (rule unat_minus_one)
      with True le show ?thesis by (simp add: m1)
    next
      case False
      with le show ?thesis by (auto simp: m1)
    qed
  qed
  have s1: "ram s1 tab = 0" "\<forall>x. x \<noteq> tab \<longrightarrow> ram s1 x = ram s x" "cr3 s1 = cr3 s"
    by (simp_all add: s1_def poke_def)
  have "n \<le> 1024" "\<forall>e \<in> set (table n (tab + 4) (ram s1)). counted e \<longrightarrow> frame_of e < PAGES_SIZE"
    using Suc.prems(1,2) t by simp_all
  from Suc.IH [OF this] r obtain s' where s': "free_entries n (tab + 4) s1 = Inr s'"
    "table n (tab + 4) (ram s') = replicate n 0" "\<forall>x. x \<notin> words n (tab + 4) \<longrightarrow> ram s' x = ram s1 x"
    "\<forall>f. MEM_MAP s' f = MEM_MAP s1 f - of_nat (refs (table n (tab + 4) (ram s)) f)" "cr3 s' = cr3 s1"
    unfolding t by blast
  have "ram s' tab = 0" using s'(3) h s1(1) by simp
  moreover have "\<forall>f. MEM_MAP s' f = MEM_MAP s f - of_nat (refs (table (Suc n) tab (ram s)) f)"
  proof
    fix f
    have "MEM_MAP s' f = MEM_MAP s f - of_nat (refs [?e] f) - of_nat (refs (table n (tab + 4) (ram s)) f)"
      using s'(4) m1 [of f] by simp
    then show "MEM_MAP s' f = MEM_MAP s f - of_nat (refs (table (Suc n) tab (ram s)) f)"
      by (cases "counted ?e \<and> frame_of ?e = f") auto
  qed
  moreover have "\<forall>x. x \<notin> words (Suc n) tab \<longrightarrow> ram s' x = ram s x" using s'(3) s1(2) by simp
  ultimately show ?case unfolding st using s'(1,2,5) s1(3) by (intro exI [of _ s']) simp
qed simp

subsection \<open>Sharing and releasing a region of four megabytes\<close>

abbreviation (input) dir_addr :: "u32 \<Rightarrow> u32" where
  "dir_addr d \<equiv> push_bit 2 (drop_bit 22 d)"

lemma unat_dir_addr: "unat (dir_addr d) < 4096"
proof -
  have d: "unat (drop_bit 22 d) < 1024"
    using unat_lt_u32 [of d] by (simp add: drop_bit_eq_div unat_div)
  have "unat (dir_addr d) = 4 * unat (drop_bit 22 d)"
    using d by (simp add: push_bit_eq_mult unat_word_ariths)
  with d show ?thesis by simp
qed

lemma dir_addr_not_page: "0 < i \<Longrightarrow> i < PAGES_SIZE \<Longrightarrow> dir_addr d \<notin> page_words i"
  using page_words_nat [of i "dir_addr d"] unat_dir_addr [of d] by auto

text \<open>
  The situation in which a process shares the region at \<open>src\<close> with a child at \<open>dest\<close>: both are aligned to
  four megabytes and different, the region has one entry of the page directory (at most four megabytes, as
  every region of this kernel), the parent's entry is present and the child's is not, the parent's page
  table is in page \<open>j\<close>, and this page, the pages below one megabyte and the pages that the entries to be
  shared map are in use. Of the table of process 0, at address 0, the first 160 entries are shared.
\<close>

definition shared_entries :: "u32 \<Rightarrow> nat" where
  "shared_entries src = (if src = 0 then 0xA0 else 1024)"

lemma shared_entries_le [simp]: "shared_entries src \<le> 1024"
  by (simp add: shared_entries_def)

definition fork_ready :: "u32 \<Rightarrow> u32 \<Rightarrow> u32 \<Rightarrow> nat \<Rightarrow> 'a memory_scheme \<Rightarrow> bool" where
  "fork_ready dest src len j s \<longleftrightarrow>
     dest AND 0x3FFFFF = 0 \<and> src AND 0x3FFFFF = 0 \<and> dest \<noteq> 0 \<and> dir_addr dest \<noteq> dir_addr src \<and>
     dir_count len = 1 \<and> \<not> present (ram s (dir_addr dest)) \<and> present (ram s (dir_addr src)) \<and>
     0xFFFFF000 AND ram s (dir_addr src) = page_addr j \<and> 0 < j \<and> j < PAGES_SIZE \<and> MEM_MAP s j \<noteq> 0 \<and>
     (\<forall>i < 256. MEM_MAP s i \<noteq> 0) \<and>
     (\<forall>e \<in> set (table (shared_entries src) (page_addr j) (ram s)).
        counted e \<longrightarrow> frame_of e < PAGES_SIZE \<and> MEM_MAP s (frame_of e) \<noteq> 0)"

lemma map2_child_zero:
  assumes "\<forall>x \<in> set ys. x = 0" and "length xs = length ys"
  shows "map2 child_entry xs ys = map (\<lambda>e. child_entry e 0) xs"
proof -
  have "ys = replicate (length xs) 0" using assms by (simp add: replicate_eqI)
  then show ?thesis by (simp add: zip_replicate2 comp_def)
qed

lemma table_zero: "(\<And>x. x \<in> words n a \<Longrightarrow> m x = 0) \<Longrightarrow> \<forall>x \<in> set (table n a m). x = 0"
  by (induction n arbitrary: a) auto

definition fork_result :: "u32 \<Rightarrow> u32 \<Rightarrow> nat \<Rightarrow> nat \<Rightarrow> 'a memory_scheme \<Rightarrow> 'a memory_scheme \<Rightarrow> bool" where
  "fork_result dest src j i s s' \<longleftrightarrow>
     (let n = shared_entries src; es = table n (page_addr j) (ram s) in
     0 < i \<and> i < PAGES_SIZE \<and> i \<noteq> j \<and> MEM_MAP s i = 0 \<and>
     ram s' (dir_addr dest) = page_addr i OR PG_P OR PG_RWW OR PG_USU \<and>
     table 1024 (page_addr i) (ram s') = map (\<lambda>e. child_entry e 0) es @ replicate (1024 - n) 0 \<and>
     table n (page_addr j) (ram s') = map parent_entry es \<and>
     (\<forall>x. x \<noteq> dir_addr dest \<and> x \<notin> page_words i \<and> x \<notin> words n (page_addr j) \<longrightarrow> ram s' x = ram s x) \<and>
     (\<forall>f. MEM_MAP s' f = (if f = i then 1 else MEM_MAP s f) + of_nat (refs es f)))"

lemma copyPageTables_shares:
  assumes r: "fork_ready dest src len j s" and g: "free_frames s \<noteq> {}"
  shows "\<exists>i s'. copyPageTables dest src len s = Inr (0, s') \<and> fork_result dest src j i s s'"
proof -
  define n where "n = shared_entries src"
  have n: "n \<le> 1024" by (simp add: n_def)
  have ok: "mem_ok s" using r by (simp add: mem_ok_def fork_ready_def)
  obtain a s1 where ga: "getFreePage s = (a, s1)" by (cases "getFreePage s")
  then have a: "a \<noteq> 0" using pool.alloc_fails [OF ok, of s1] g by auto
  from ok ga a obtain i where i: "0 < i" "i < PAGES_SIZE" "a = page_addr i" "MEM_MAP s i = 0"
    "MEM_MAP s1 = (MEM_MAP s)(i := 1)" "\<And>x. ram s1 x = (if x \<in> page_words i then 0 else ram s x)" "cr3 s1 = cr3 s"
    by (rule getFreePage_Some) blast
  have j: "0 < j" "j < PAGES_SIZE" "MEM_MAP s j \<noteq> 0" using r by (auto simp: fork_ready_def)
  have ij: "i \<noteq> j" using i(4) j(3) by auto
  have sub: "words n (page_addr j) \<subseteq> page_words j" "words n (page_addr i) \<subseteq> page_words i" using n by (simp_all only: words_mono)
  have pages: "page_words j \<inter> page_words i = {}" using page_words_disjoint [of j i] i(2) j(2) ij by simp
  then have dis: "words n (page_addr j) \<inter> words n (page_addr i) = {}" using sub by blast
  note nd = dir_addr_not_page [OF i(1,2), of dest] dir_addr_not_page [OF j(1,2), of dest]
    dir_addr_not_page [OF i(1,2), of src]
  define s2 where "s2 = poke (dir_addr dest) (page_addr i OR PG_P OR PG_RWW OR PG_USU) s1"
  have s2: "ram s2 (dir_addr dest) = page_addr i OR PG_P OR PG_RWW OR PG_USU"
      "\<forall>x. x \<noteq> dir_addr dest \<and> x \<notin> page_words i \<longrightarrow> ram s2 x = ram s x"
      "\<forall>x \<in> page_words i. ram s2 x = 0" "MEM_MAP s2 = (MEM_MAP s)(i := 1)"
    using i(5,6) nd by (auto simp: s2_def poke_def)
  have tj: "table n (page_addr j) (ram s2) = table n (page_addr j) (ram s)"
  proof (rule table_cong)
    fix x assume "x \<in> words n (page_addr j)"
    then have x: "x \<in> page_words j" using sub by blast
    then have "x \<notin> page_words i" using pages by (metis disjoint_iff)
    moreover have "x \<noteq> dir_addr dest" using nd(2) x by metis
    ultimately show "ram s2 x = ram s x" using s2(2) by metis
  qed
  have "\<forall>e \<in> set (table n (page_addr j) (ram s2)). counted e \<longrightarrow> frame_of e < PAGES_SIZE"
    unfolding tj using r by (simp add: fork_ready_def n_def)
  from copy_entries_spec [OF dis n this] obtain s3 where
    s3: "copy_entries n (page_addr j) (page_addr i) s2 = Inr s3"
      "table n (page_addr i) (ram s3) = map2 child_entry (table n (page_addr j) (ram s)) (table n (page_addr i) (ram s2))"
      "table n (page_addr j) (ram s3) = map parent_entry (table n (page_addr j) (ram s))"
      "\<forall>x. x \<notin> words n (page_addr j) \<union> words n (page_addr i) \<longrightarrow> ram s3 x = ram s2 x"
      "\<forall>f. MEM_MAP s3 f = MEM_MAP s2 f + of_nat (refs (table n (page_addr j) (ram s)) f)"
    unfolding tj by (auto simp del: table.simps)
  have "\<forall>x \<in> set (table n (page_addr i) (ram s2)). x = 0" using s2(3) sub(2) by (intro table_zero) blast
  from map2_child_zero [OF this] have
    ti: "table n (page_addr i) (ram s3) = map (\<lambda>e. child_entry e 0) (table n (page_addr j) (ram s))"
    using s3(2) by simp
  have "table 1024 (page_addr i) (ram s3) = table n (page_addr i) (ram s3) @ replicate (1024 - n) 0"
    using n
  proof (rule table_filled)
    fix x assume x: "x \<in> page_words i" "x \<notin> words n (page_addr i)"
    then have "x \<notin> words n (page_addr j)" using sub(1) pages by blast
    with x(2) have "ram s3 x = ram s2 x" using s3(4) by blast
    then show "ram s3 x = 0" using s2(3) x(1) by metis
  qed
  note ti' = this [unfolded ti]
  have "copy_dirs (Suc 0) src (dir_addr src) (dir_addr dest) s = Inr (True, s3)"
    using r ga a i(3) s3(1) by (simp add: fork_ready_def present_def s2_def n_def shared_entries_def)
  then have "copyPageTables dest src len s = Inr (0, loadCR3 PAGE_DIR s3)"
    using r by (simp add: copyPageTables_def fork_ready_def)
  moreover have "fork_result dest src j i s (loadCR3 PAGE_DIR s3)"
  proof -
    have out: "ram s3 x = ram s2 x" if "x \<notin> page_words i" "x \<notin> words n (page_addr j)" for x
      using s3(4) sub(2) that by blast
    have "ram s3 x = ram s x" if "x \<noteq> dir_addr dest" "x \<notin> page_words i" "x \<notin> words n (page_addr j)" for x
      using out [OF that(2,3)] s2(2) that(1,2) by metis
    moreover have "dir_addr dest \<notin> words n (page_addr j)" using sub(1) nd(2) by (rule contra_subsetD)
    then have "ram s3 (dir_addr dest) = page_addr i OR PG_P OR PG_RWW OR PG_USU"
      using out [OF nd(1)] s2(1) by metis
    ultimately show ?thesis
      using i ij s2(4) s3(3,5) ti' by (simp add: fork_result_def loadCR3_def n_def [symmetric])
  qed
  ultimately show ?thesis by blast
qed

lemma dir_entry_page:
  assumes "i < PAGES_SIZE"
  shows "0xFFFFF000 AND (page_addr i OR PG_P OR PG_RWW OR PG_USU) = page_addr i"
    and "present (page_addr i OR PG_P OR PG_RWW OR PG_USU)"
proof -
  have low: "\<not> bit (page_addr i) n" if "n < 12" for n
    using that by (simp add: page_addr_def bit_push_bit_iff)
  have e: "page_addr i OR PG_P OR PG_RWW OR PG_USU = page_addr i OR 7" by (simp add: or.assoc)
  have "drop_bit 12 (7 :: u32) = 0" by (simp add: drop_bit_eq_div)
  then have "drop_bit 12 (page_addr i OR 7) = drop_bit 12 (page_addr i)" by (simp add: drop_bit_or)
  moreover have "push_bit 12 (drop_bit 12 (page_addr i)) = page_addr i"
  proof (rule bit_word_eqI)
    fix n assume "n < LENGTH(32)"
    then show "bit (push_bit 12 (drop_bit 12 (page_addr i))) n = bit (page_addr i) n"
      by (cases "n < 12") (auto simp: bit_push_bit_iff bit_drop_bit_eq low)
  qed
  ultimately show "0xFFFFF000 AND (page_addr i OR PG_P OR PG_RWW OR PG_USU) = page_addr i"
    unfolding e page_mask by simp
  show "present (page_addr i OR PG_P OR PG_RWW OR PG_USU)"
    by (simp only: present_bit bit_or_iff) simp
qed

lemma absent_0 [simp]: "\<not> present 0" "\<not> counted 0"
  by (simp_all add: present_def counted_def)

lemma refs_child: "refs (map (\<lambda>e. child_entry e 0) es) f = refs es f"
  by (induction es) (auto simp: child_entry_def counted_iff)

lemma refs_padded: "refs (es @ replicate n 0) f = refs es f"
  by (induction es) (simp_all add: refs_def)

lemma counted_child: "counted (child_entry e 0) \<Longrightarrow> counted e \<and> frame_of (child_entry e 0) = frame_of e"
  by (auto simp: child_entry_def counted_iff split: if_splits)

lemma freePage_page:
  assumes "256 \<le> i" and "i < PAGES_SIZE" and "MEM_MAP s i \<noteq> 0"
  shows "freePage (page_addr i) s = Inr (s\<lparr>MEM_MAP := (MEM_MAP s)(i := MEM_MAP s i - 1)\<rparr>)"
proof -
  have "KERNEL_MEM \<le> page_addr i" "page_addr i < MEM_SIZE"
    using assms(1,2) unat_page_addr [of i] by (simp_all add: word_le_nat_alt word_less_nat_alt)
  from freePage_dec [OF this, of s] show ?thesis using assms drop_page_addr [of i] by simp
qed

lemma freePageTables_releases:
  assumes r: "fork_ready dest src len j s" and f: "fork_result dest src j i s s'"
    and small: "\<forall>f. unat (MEM_MAP s f) + refs (table (shared_entries src) (page_addr j) (ram s)) f < 256"
  shows "\<exists>s''. freePageTables dest len s' = Inr (0, s'') \<and> MEM_MAP s'' = MEM_MAP s \<and>
    ram s'' (dir_addr dest) = 0"
proof -
  let ?es = "table (shared_entries src) (page_addr j) (ram s)"
  have i: "0 < i" "i < PAGES_SIZE" "MEM_MAP s i = 0" "256 \<le> i"
    using f r by (auto simp: fork_result_def fork_ready_def Let_def intro: leI)
  have dir: "ram s' (dir_addr dest) = page_addr i OR PG_P OR PG_RWW OR PG_USU"
    and tab: "table 1024 (page_addr i) (ram s') = map (\<lambda>e. child_entry e 0) ?es @ replicate (1024 - shared_entries src) 0"
    and map: "\<forall>f. MEM_MAP s' f = (if f = i then 1 else MEM_MAP s f) + of_nat (refs ?es f)"
    using f by (simp_all add: fork_result_def Let_def)
  have ri: "refs ?es i = 0"
  proof -
    have "\<forall>e \<in> set ?es. \<not> (counted e \<and> frame_of e = i)" using r i(3) by (auto simp: fork_ready_def)
    then show ?thesis unfolding refs_def by (simp add: filter_empty_conv)
  qed
  have le: "refs ?es f \<le> unat (MEM_MAP s' f)" for f
  proof (cases "f = i")
    case False
    have n: "unat (of_nat (refs ?es f) :: u8) = refs ?es f" 
      using small [rule_format, of f] by (intro unat_of_nat_u8) linarith
    have "unat (MEM_MAP s f + of_nat (refs ?es f)) = unat (MEM_MAP s f) + refs ?es f"
      using unat_plus_small [of "MEM_MAP s f" "of_nat (refs ?es f)"] small n by simp
    then show ?thesis using map False by simp
  qed (simp add: ri)
  have "\<forall>e \<in> set (table 1024 (page_addr i) (ram s')). counted e \<longrightarrow> frame_of e < PAGES_SIZE"
    unfolding tab using r counted_child by (fastforce simp: fork_ready_def)
  moreover have "\<forall>f. refs (table 1024 (page_addr i) (ram s')) f \<le> unat (MEM_MAP s' f)"
    unfolding tab refs_padded refs_child using le by blast
  ultimately obtain s1 where s1: "free_entries 1024 (page_addr i) s' = Inr s1"
      "\<forall>x. x \<notin> page_words i \<longrightarrow> ram s1 x = ram s' x"
      "\<forall>f. MEM_MAP s1 f = MEM_MAP s' f - of_nat (refs ?es f)"
    using free_entries_spec [of 1024 "page_addr i" s'] unfolding tab refs_padded refs_child by auto
  have m1: "MEM_MAP s1 f = (if f = i then 1 else MEM_MAP s f)" for f using s1(3) map by simp
  have d1: "ram s1 (dir_addr dest) = page_addr i OR PG_P OR PG_RWW OR PG_USU"
    using s1(2) dir dir_addr_not_page [OF i(1,2)] by simp
  define s2 where "s2 = poke (dir_addr dest) 0 (s1\<lparr>MEM_MAP := (MEM_MAP s1)(i := 0)\<rparr>)"
  have "freePage (page_addr i) s1 = Inr (s1\<lparr>MEM_MAP := (MEM_MAP s1)(i := 0)\<rparr>)"
    using freePage_page [OF i(4,2), of s1] m1 [of i] by simp
  moreover have "PG_P AND ram s' (dir_addr dest) \<noteq> 0"
    using dir_entry_page(2) [OF i(2)] dir by (simp add: present_def and.commute)
  ultimately have "free_dirs (Suc 0) (dir_addr dest) s' = Inr s2"
    using s1(1) dir_entry_page(1) [OF i(2)] by (simp add: dir d1 s2_def)
  then have "freePageTables dest len s' = Inr (0, loadCR3 PAGE_DIR s2)"
    using r by (simp add: freePageTables_def fork_ready_def)
  moreover have "MEM_MAP (loadCR3 PAGE_DIR s2) = MEM_MAP s"
    using m1 i(3) by (auto simp: s2_def poke_def loadCR3_def fun_eq_iff)
  moreover have "ram (loadCR3 PAGE_DIR s2) (dir_addr dest) = 0" by (simp add: s2_def poke_def loadCR3_def)
  ultimately show ?thesis by blast
qed

subsection \<open>Copy on write\<close>

lemma page_of_frame: "0xFFFFF000 AND e = page_addr (frame_of e)"
  by (simp add: page_mask page_addr_def frame_of_def)

lemma unWriteProtectPage_sole:
  assumes "counted (ram s item)" and "frame_of (ram s item) < PAGES_SIZE" and "MEM_MAP s (frame_of (ram s item)) = 1"
  shows "unWriteProtectPage item s = Inr (loadCR3 PAGE_DIR (poke item (ram s item OR PG_RWW) s))"
proof -
  let ?e = "ram s item"
  have k: "KERNEL_MEM \<le> ?e AND 0xFFFFF000" using assms(1) page_ge [of ?e] by (simp add: counted_iff and.commute)
  have f: "unat (drop_bit 12 (?e AND 0xFFFFF000)) = frame_of ?e"
    using frame_of_page [of ?e] unfolding frame_of_def by (simp only: and.commute)
  show ?thesis unfolding unWriteProtectPage_def Let_def f
    by (rule trans [OF if_not_P trans [OF if_P refl]]) (use assms(2,3) k in \<open>auto simp only: not_le\<close>)
qed

definition copied_page :: "u32 \<Rightarrow> nat \<Rightarrow> nat \<Rightarrow> 'a memory_scheme \<Rightarrow> 'a memory_scheme \<Rightarrow> bool" where
  "copied_page item f i s s' \<longleftrightarrow> i < PAGES_SIZE \<and> MEM_MAP s i = 0 \<and>
     ram s' item = page_addr i OR PG_USU OR PG_RWW OR PG_P \<and>
     table 1024 (page_addr i) (ram s') = table 1024 (page_addr f) (ram s) \<and>
     (\<forall>x. x \<noteq> item \<and> x \<notin> page_words i \<longrightarrow> ram s' x = ram s x) \<and>
     MEM_MAP s' = (MEM_MAP s)(i := 1, f := MEM_MAP s f - 1)"

lemma unWriteProtectPage_shared:
  assumes ok: "mem_ok s" and free: "free_frames s \<noteq> {}"
    and e: "counted (ram s item)" and f: "frame_of (ram s item) < PAGES_SIZE"
    and m: "MEM_MAP s (frame_of (ram s item)) \<notin> {0, 1}"
    and k: "item \<in> page_words k" "k < PAGES_SIZE" "MEM_MAP s k \<noteq> 0" "k \<noteq> frame_of (ram s item)"
  shows "\<exists>i s'. unWriteProtectPage item s = Inr s' \<and> copied_page item (frame_of (ram s item)) i s s'"
proof -
  let ?e = "ram s item"
  define g where "g = frame_of ?e"
  have kern: "KERNEL_MEM \<le> page_addr g" using e page_ge [of ?e] by (simp only: counted_iff page_of_frame g_def)
  have old: "?e AND 0xFFFFF000 = page_addr g" using page_of_frame [of ?e] by (simp only: and.commute g_def)
  have fr: "unat (drop_bit 12 (page_addr g)) = g" using f by (intro drop_page_addr) (simp add: g_def)
  obtain a s1 where ga: "getFreePage s = (a, s1)" by (cases "getFreePage s")
  then have a: "a \<noteq> 0" using pool.alloc_fails [OF ok, of s1] free by auto
  from ok ga a obtain i where i: "0 < i" "i < PAGES_SIZE" "a = page_addr i" "MEM_MAP s i = 0"
    "MEM_MAP s1 = (MEM_MAP s)(i := 1)" "\<And>x. ram s1 x = (if x \<in> page_words i then 0 else ram s x)" "cr3 s1 = cr3 s"
    by (rule getFreePage_Some) blast
  have ne: "i \<noteq> g" "i \<noteq> k" using i(4) m k(3) by (auto simp: g_def)
  have dis: "page_words i \<inter> page_words g = {}" "page_words i \<inter> page_words k = {}" "page_words g \<inter> page_words k = {}"
    using ne k(2,4) f i(2) by (intro page_words_disjoint; simp add: g_def)+
  have item: "item \<notin> page_words i" "item \<notin> page_words g" using dis k(1) by (metis disjoint_iff)+
  define s2 where "s2 = loadCR3 PAGE_DIR (poke item (page_addr i OR PG_USU OR PG_RWW OR PG_P)
    (s1\<lparr>MEM_MAP := (MEM_MAP s1)(g := MEM_MAP s1 g + - 1)\<rparr>))"
  have "unWriteProtectPage item s = Inr (copy_words 1024 (page_addr i) (page_addr g) s2)"
    unfolding unWriteProtectPage_def Let_def old fr
    using m kern f ga a i(3) by (simp add: g_def [symmetric] map_add_def fr s2_def)
  moreover have "copied_page item g i s (copy_words 1024 (page_addr i) (page_addr g) s2)"
  proof -
    have r2: "ram s2 x = (if x = item then page_addr i OR PG_USU OR PG_RWW OR PG_P
        else if x \<in> page_words i then 0 else ram s x)" for x
      by (simp add: s2_def loadCR3_def poke_def i(6))
    have "table 1024 (page_addr i) (ram (copy_words 1024 (page_addr i) (page_addr g) s2)) = table 1024 (page_addr g) (ram s2)"
      using dis(1) by (rule copy_words_table) simp
    also have "\<dots> = table 1024 (page_addr g) (ram s)"
    proof (rule table_cong)
      fix x assume x: "x \<in> page_words g"
      then have "x \<noteq> item" "x \<notin> page_words i" using item(2) dis(1) by (metis, metis disjoint_iff)
      then show "ram s2 x = ram s x" by (simp only: r2 if_False)
    qed
    finally have t: "table 1024 (page_addr i) (ram (copy_words 1024 (page_addr i) (page_addr g) s2)) = table 1024 (page_addr g) (ram s)" .
    have o: "x \<notin> page_words i \<Longrightarrow> ram (copy_words 1024 (page_addr i) (page_addr g) s2) x =
        (if x = item then page_addr i OR PG_USU OR PG_RWW OR PG_P else ram s x)" for x
      by (simp add: copy_words_outside r2)
    have "MEM_MAP (copy_words 1024 (page_addr i) (page_addr g) s2) = (MEM_MAP s)(i := 1, g := MEM_MAP s g - 1)"
      using ne(1) by (simp add: s2_def loadCR3_def poke_def i(5))
    then show ?thesis unfolding copied_page_def using t o item(1) i(2,4) by simp
  qed
  ultimately show ?thesis unfolding g_def [symmetric] by blast
qed

subsection \<open>The properties of memory management\<close>

text \<open>
  A state of a machine with 16 megabytes and one process beside the first: its page table is in page 1024
  and maps one page, 1025.
\<close>

definition memory_boot :: memory where
  "memory_boot = keyboard.extend keyboard_boot (memory.fields
     (\<lambda>i. if i < 1024 then 100 else if i = 1024 then 1 else if i = 1025 then 1 else 0)
     (\<lambda>a. if a = 64 then 0x400007 else if a = 0x400000 then 0x401007 else 0) 0)"

lemma memory_boot_simps [simp]:
  "MEM_MAP memory_boot i = (if i < 1024 then 100 else if i = 1024 then 1 else if i = 1025 then 1 else 0)"
  "ram memory_boot a = (if a = 64 then 0x400007 else if a = 0x400000 then 0x401007 else 0)"
  by (simp_all add: memory_boot_def keyboard.defs memory.defs)

lemma memory_boot_ok: "mem_ok memory_boot" "free_frames memory_boot \<noteq> {}"
proof -
  show "mem_ok memory_boot" by (simp add: mem_ok_def)
  have "page_addr 2000 \<in> free_frames memory_boot"
    unfolding free_frames_def mem_Collect_eq by (intro exI [of _ 2000]) simp
  then show "free_frames memory_boot \<noteq> {}" by blast
qed

lemma getFreePage_first:
  assumes "mem_ok s" and "i < PAGES_SIZE" and "MEM_MAP s i = 0" and "\<forall>j < i. MEM_MAP s j \<noteq> 0"
  shows "getFreePage s = (page_addr i, clear_words 1024 (page_addr i) (s\<lparr>MEM_MAP := (MEM_MAP s)(i := 1)\<rparr>))"
  using assms(1)
proof (cases rule: getFreePage_cases)
  case (page k)
  then have "k = i" using assms(3,4) by (metis linorder_neqE_nat)
  then show ?thesis using page by simp
qed (use assms in auto)

lemma memory_boot_alloc:
  "getFreePage memory_boot = (page_addr 1026, clear_words 1024 (page_addr 1026)
    (memory_boot\<lparr>MEM_MAP := (MEM_MAP memory_boot)(1026 := 1)\<rparr>))"
  using memory_boot_ok(1) by (rule getFreePage_first) simp_all

lemma unat_sint_u32:
  assumes "0 \<le> sint (x :: u32)" shows "int (unat x) = sint x"
  using sint_u32_cases [of x] assms uint_bounded [of x] by (auto simp: uint_nat [symmetric])

lemma sint_unat_u32:
  assumes "unat (x :: u32) < 2147483648" shows "sint x = int (unat x)"
proof -
  have "uint x < 2147483648" using assms uint_nat [of x] by linarith
  then show ?thesis using sint_u32_cases [of x] sint_u32_bounds [of x] uint_nat [of x] by linarith
qed

lemma initMemory_result:
  assumes "0x400000 \<le> sint mem_size" and "sint mem_size \<le> 0x3C00000"
  shows "\<exists>s'. initMemory mem_size s = Inr s' \<and> ram s' = ram s \<and> (\<forall>i < 8192. MEM_MAP s' i =
    (if i < (unat mem_size div 4096 + 3) div 4 then 100
     else if i < unat mem_size div 4096 then 0 else MEM_MAP s i))"
proof -
  define k where "k = unat mem_size div 4096"
  have m: "int (unat mem_size) = sint mem_size" using assms(1) by (intro unat_sint_u32) simp
  then have "4194304 \<le> unat mem_size" "unat mem_size \<le> 62914560" using assms by linarith+
  then have k: "1024 \<le> k" "k \<le> 15360" by (simp_all add: k_def)
  have pm: "mem_size AND 0xFFFFF000 = page_addr k"
    using page_of_frame [of mem_size] by (simp only: and.commute k_def frame_of_div)
  have pk: "unat (page_addr k) = 4096 * k" using k(2) by (intro unat_page_addr) simp
  have ge: "\<not> sint (page_addr k) < 0x400000" using sint_unat_u32 [of "page_addr k"] pk k by simp
  have d4: "unat (page_addr k div 4) = 1024 * k" using pk by (simp add: unat_div)
  have "1 \<le> page_addr k div 4" using d4 k(1) by (simp add: word_le_nat_alt)
  then have b: "unat (drop_bit 12 (page_addr k div 4 - 1)) = (1024 * k - 1) div 4096"
    using d4 unat_minus_small [of 1 "page_addr k div 4"] by (simp add: drop_bit_eq_div unat_div)
  have "1 \<le> page_addr k" using pk k(1) by (simp add: word_le_nat_alt)
  then have e: "unat (drop_bit 12 (page_addr k - 1)) = (4096 * k - 1) div 4096"
    using pk unat_minus_small [of 1 "page_addr k"] by (simp add: drop_bit_eq_div unat_div)
  have b': "i \<le> (1024 * k - 1) div 4096 \<longleftrightarrow> i < (k + 3) div 4" for i
  proof -
    have "i \<le> (1024 * k - 1) div 4096 \<longleftrightarrow> i * 4096 \<le> 1024 * k - 1" by (simp add: less_eq_div_iff_mult_less_eq)
    also have "\<dots> \<longleftrightarrow> 1024 * (4 * i) < 1024 * k" using k(1) by auto
    also have "\<dots> \<longleftrightarrow> 4 * i < k" by simp
    also have "\<dots> \<longleftrightarrow> i < (k + 3) div 4" by presburger
    finally show ?thesis .
  qed
  have e': "i \<le> (4096 * k - 1) div 4096 \<longleftrightarrow> i < k" for i
  proof -
    have "i \<le> (4096 * k - 1) div 4096 \<longleftrightarrow> i * 4096 \<le> 4096 * k - 1" by (simp add: less_eq_div_iff_mult_less_eq)
    also have "\<dots> \<longleftrightarrow> i < k" using k(1) by auto
    finally show ?thesis .
  qed
  have n: "\<not> 0x3C00000 < sint mem_size" using assms(2) by simp
  have "initMemory mem_size s = Inr (s\<lparr>MEM_MAP := (\<lambda>i. if i < 8192 then
      if i < (k + 3) div 4 then 100 else if i < k then 0 else MEM_MAP s i else MEM_MAP s i)\<rparr>)"
    unfolding initMemory_def Let_def if_not_P [OF n] pm if_not_P [OF ge] b e b' e' ..
  then show ?thesis by (simp add: k_def)
qed

text \<open>For a memory size from 4 to 60 megabytes, \<open>initMemory\<close> returns with the pages of the first quarter
  (rounded up) marked as taken by the kernel and its buffers, every further page of the memory free, and
  the entries behind it unchanged.\<close>

theorem initMemory_layout:
  assumes "0x400000 \<le> sint mem_size" and "sint mem_size \<le> 0x3C00000"
  shows "\<exists>s'. initMemory mem_size s = Inr s' \<and> ram s' = ram s \<and> (\<forall>i < 8192. MEM_MAP s' i =
    (if i < (unat mem_size div 4096 + 3) div 4 then 100
     else if i < unat mem_size div 4096 then 0 else MEM_MAP s i))"
  using initMemory_result [OF assms] .

theorem initMemory_layout_witness:
  "\<exists>s'. initMemory 0x1000000 memory_boot = Inr s' \<and> MEM_MAP s' 1023 = 100 \<and> MEM_MAP s' 1024 = 0"
proof -
  obtain s' where s': "initMemory 0x1000000 memory_boot = Inr s'" "\<forall>i < 8192. MEM_MAP s' i =
    (if i < 1024 then 100 else if i < 4096 then 0 else MEM_MAP memory_boot i)"
    using initMemory_layout [of "0x1000000" memory_boot] by auto
  then show ?thesis by simp
qed

text \<open>The map's initialiser sets its first entry only: after \<open>initMemory\<close> every page from the end of the
  memory up to 32 megabytes is free as well, though no memory is there, and will be handed out.\<close>

theorem initMemory_beyond_memory:
  assumes "0x400000 \<le> sint mem_size" and "sint mem_size \<le> 0x3C00000" and "MEM_MAP s = MEM_MAP_init"
  shows "\<exists>s'. initMemory mem_size s = Inr s' \<and>
    {page_addr i | i. unat mem_size div 4096 \<le> i \<and> i < 8192} \<subseteq> free_frames s'"
proof -
  obtain s' where s': "initMemory mem_size s = Inr s'" "\<forall>i < 8192. MEM_MAP s' i =
    (if i < (unat mem_size div 4096 + 3) div 4 then 100
     else if i < unat mem_size div 4096 then 0 else MEM_MAP s i)"
    using initMemory_result [OF assms(1,2)] by blast
  have "4194304 \<le> unat mem_size" using assms(1) unat_sint_u32 [of mem_size] by linarith
  then have k: "1024 \<le> unat mem_size div 4096" by simp
  have "MEM_MAP s' i = 0" if "unat mem_size div 4096 \<le> i" "i < 8192" for i
  proof -
    have "\<not> i < (unat mem_size div 4096 + 3) div 4" "i \<noteq> 0" using that(1) k by linarith+
    then show ?thesis using s'(2) that assms(3) by (simp add: MEM_MAP_init_def)
  qed
  then show ?thesis using s'(1) by (auto simp: free_frames_def)
qed

theorem initMemory_beyond_memory_witness:
  "\<exists>s'. initMemory 0x1000000 (memory_boot\<lparr>MEM_MAP := MEM_MAP_init\<rparr>) = Inr s' \<and> page_addr 5000 \<in> free_frames s'"
proof -
  obtain s' where "initMemory 0x1000000 (memory_boot\<lparr>MEM_MAP := MEM_MAP_init\<rparr>) = Inr s'"
    "{page_addr i | i. 4096 \<le> i \<and> i < 8192} \<subseteq> free_frames s'"
    using initMemory_beyond_memory [of "0x1000000" "memory_boot\<lparr>MEM_MAP := MEM_MAP_init\<rparr>"] by auto
  moreover have "page_addr 5000 \<in> {page_addr i | i. 4096 \<le> i \<and> i < 8192}"
    unfolding mem_Collect_eq by (intro exI [of _ 5000]) simp
  ultimately show ?thesis by blast
qed

text \<open>\<open>getFreePage\<close> is first fit: it returns the lowest page whose count is zero, with the count set to
  one, the page's 1024 words cleared and every other word and count unchanged; it returns zero exactly
  when no page is free.\<close>

theorem getFreePage_first_fit:
  assumes "MEM_MAP s 0 \<noteq> 0"
  shows "(fst (getFreePage s) = 0 \<longleftrightarrow> (\<forall>i < 8192. MEM_MAP s i \<noteq> 0)) \<and>
    (\<forall>i < 8192. MEM_MAP s i = 0 \<and> (\<forall>j < i. MEM_MAP s j \<noteq> 0) \<longrightarrow>
      fst (getFreePage s) = page_addr i \<and> MEM_MAP (snd (getFreePage s)) = (MEM_MAP s)(i := 1) \<and>
      (\<forall>x. ram (snd (getFreePage s)) x = (if x \<in> words 1024 (page_addr i) then 0 else ram s x)))"
proof (intro conjI allI impI)
  have ok: "mem_ok s" using assms by (simp add: mem_ok_def)
  show "fst (getFreePage s) = 0 \<longleftrightarrow> (\<forall>i < 8192. MEM_MAP s i \<noteq> 0)"
    using ok by (cases rule: getFreePage_cases) auto
  fix i assume i: "i < 8192" "MEM_MAP s i = 0 \<and> (\<forall>j < i. MEM_MAP s j \<noteq> 0)"
  note g = getFreePage_first [OF ok i(1) conjunct1 [OF i(2)] conjunct2 [OF i(2)]]
  show "fst (getFreePage s) = page_addr i" "MEM_MAP (snd (getFreePage s)) = (MEM_MAP s)(i := 1)"
    "ram (snd (getFreePage s)) x = (if x \<in> words 1024 (page_addr i) then 0 else ram s x)" for x
    by (simp_all add: g clear_words_spec)
qed

theorem getFreePage_first_fit_witness:
  "fst (getFreePage memory_boot) = page_addr 1026"
proof -
  have "MEM_MAP memory_boot 1026 = 0 \<and> (\<forall>j < 1026. MEM_MAP memory_boot j \<noteq> 0)" by simp
  moreover have "MEM_MAP memory_boot 0 \<noteq> 0" "(1026 :: nat) < 8192" by simp_all
  ultimately show ?thesis using getFreePage_first_fit [of memory_boot] by blast
qed

text \<open>C9. Successive allocations never return the same page twice: \<open>n\<close> calls that all succeed return \<open>n\<close>
  distinct pages, all free before, and exactly these are no longer free afterwards.\<close>

theorem getFreePage_distinct:
  assumes "mem_ok s" and "alloc_many getFreePage n s = (as, s')" and "0 \<notin> set as"
  shows "distinct as \<and> set as \<subseteq> free_frames s \<and> free_frames s' = free_frames s - set as"
  using pool.alloc_many_fresh [OF assms] by blast

theorem getFreePage_distinct_witness:
  "\<exists>a s'. alloc_many getFreePage 1 memory_boot = ([a], s') \<and> a \<in> free_frames memory_boot \<and> a \<notin> free_frames s'"
proof -
  have a: "alloc_many getFreePage 1 memory_boot = ([page_addr 1026], clear_words 1024 (page_addr 1026)
    (memory_boot\<lparr>MEM_MAP := (MEM_MAP memory_boot)(1026 := 1)\<rparr>))"
    by (simp add: memory_boot_alloc)
  have "page_addr 1026 \<noteq> 0" using page_addr_0 [of 1026] by simp
  then have "0 \<notin> set [page_addr 1026]" by simp
  from getFreePage_distinct [OF memory_boot_ok(1) a this] show ?thesis unfolding a by auto
qed

text \<open>Releasing a page right after its allocation restores the reference counts.\<close>

theorem getFreePage_freePage:
  assumes "mem_ok s" and "getFreePage s = (a, s')" and "KERNEL_MEM \<le> a"
  shows "\<exists>s''. freePage a s' = Inr s'' \<and> MEM_MAP s'' = MEM_MAP s"
proof -
  have "a \<noteq> 0" using assms(3) by auto
  with assms(1,2) obtain i where i: "i < PAGES_SIZE" "a = page_addr i" "MEM_MAP s i = 0" "MEM_MAP s' = (MEM_MAP s)(i := 1)"
    by (rule getFreePage_Some) blast
  have "256 \<le> i" using assms(3) i(1,2) unat_page_addr [of i] by (simp add: word_le_nat_alt)
  from freePage_page [OF this i(1), of s'] i show ?thesis by (simp add: fun_upd_idem)
qed

theorem getFreePage_freePage_witness:
  "\<exists>s''. freePage (page_addr 1026) (snd (getFreePage memory_boot)) = Inr s'' \<and> MEM_MAP s'' = MEM_MAP memory_boot"
proof -
  have "KERNEL_MEM \<le> page_addr 1026" using unat_page_addr [of 1026] by (simp add: word_le_nat_alt)
  from getFreePage_freePage [OF memory_boot_ok(1) memory_boot_alloc this] show ?thesis
    by (simp only: memory_boot_alloc snd_conv)
qed

lemma set_table: "set (table n a m) = m ` words n a"
  by (induction n arbitrary: a) auto

lemma boot_table: "table 1024 (page_addr 1024) (ram memory_boot) = 0x401007 # replicate 1023 0"
proof -
  have p: "page_addr 1024 = 0x400000" by (simp add: page_addr_def)
  have "(0x400000 :: u32) \<notin> words 1023 0x400004" using words_head [of 1023 "0x400000"] by simp
  moreover have "64 \<notin> words 1023 (0x400004 :: u32)"
  proof
    assume "64 \<in> words 1023 (0x400004 :: u32)"
    then have "64 \<in> page_words 1024" unfolding p using words.simps(2) [of 1023 "0x400000"] by simp
    then show False using page_words_nat [of 1024 64] by simp
  qed
  ultimately have "\<forall>x \<in> set (table 1023 0x400004 (ram memory_boot)). x = 0" unfolding set_table by auto
  then have "table 1023 0x400004 (ram memory_boot) = replicate 1023 0" by (intro replicate_eqI) auto
  then show ?thesis unfolding p using table.simps(2) [of 1023 "0x400000" "ram memory_boot"] by simp
qed

lemma shared_entries_far: "shared_entries 0x4000000 = 1024"
  by (simp add: shared_entries_def)

lemma boot_fork_ready: "fork_ready 0x8000000 0x4000000 0x400000 1024 memory_boot"
  unfolding fork_ready_def shared_entries_far boot_table
  by (simp add: dir_count_def present_def page_addr_def counted_def read_only_def frame_of_def
      del: replicate.simps) 

text \<open>C1. Sharing a region with a child process: the region has one page table (at most four megabytes), of
  which all 1024 entries are shared, or the first 160 for process 0, whose region begins at address 0. When a
  page is free, \<open>copyPageTables\<close> succeeds; the child gets a new page table whose entries map the same pages
  read-only, its further entries zero; the parent's entries for counted pages (from one megabyte on) become
  read-only too and its other entries stay; each page's count grows by the number of entries that map it
  (modulo 256), and no other word of memory changes.\<close>

theorem copyPageTables_forks:
  assumes "fork_ready dest src len j s" and "free_frames s \<noteq> {}"
  shows "\<exists>i s'. copyPageTables dest src len s = Inr (0, s') \<and>
    i \<noteq> j \<and> MEM_MAP s i = 0 \<and> ram s' (dir_addr dest) = page_addr i OR 7 \<and>
    table 1024 (page_addr i) (ram s') =
      map (\<lambda>e. if present e then read_only e else 0) (table (shared_entries src) (page_addr j) (ram s)) @
      replicate (1024 - shared_entries src) 0 \<and>
    table (shared_entries src) (page_addr j) (ram s') =
      map (\<lambda>e. if counted e then read_only e else e) (table (shared_entries src) (page_addr j) (ram s)) \<and>
    (\<forall>x. x \<noteq> dir_addr dest \<and> x \<notin> words 1024 (page_addr i) \<and> x \<notin> words (shared_entries src) (page_addr j) \<longrightarrow>
      ram s' x = ram s x) \<and>
    (\<forall>f. MEM_MAP s' f = (if f = i then 1 else MEM_MAP s f) + of_nat (refs (table (shared_entries src) (page_addr j) (ram s)) f))"
proof -
  obtain i s' where c: "copyPageTables dest src len s = Inr (0, s')" and r: "fork_result dest src j i s s'"
    using copyPageTables_shares [OF assms] by blast
  have e: "page_addr i OR PG_P OR PG_RWW OR PG_USU = page_addr i OR 7" by (simp add: or.assoc)
  show ?thesis
    by (intro exI [of _ i] exI [of _ s'] conjI)
      (use c r [unfolded fork_result_def Let_def child_entry_def [abs_def] parent_entry_def [abs_def] e] in blast)+
qed

theorem copyPageTables_forks_witness:
  "\<exists>i s'. copyPageTables 0x8000000 0x4000000 0x400000 memory_boot = Inr (0, s') \<and>
    table 1024 (page_addr i) (ram s') = 0x401005 # replicate 1023 0"
proof -
  have "map (\<lambda>e. if present e then read_only e else 0) (table (shared_entries 0x4000000) (page_addr 1024) (ram memory_boot)) @
      replicate (1024 - shared_entries 0x4000000) 0 = 0x401005 # replicate 1023 0"
    unfolding shared_entries_far boot_table by (simp add: present_def read_only_def del: replicate.simps)
  from copyPageTables_forks [OF boot_fork_ready memory_boot_ok(2), unfolded this] show ?thesis by blast
qed

text \<open>C8. Fork followed by exit leaks nothing and frees nothing twice: releasing the child's region after
  sharing restores every reference count, as long as no count passes 255.\<close>

theorem fork_exit_roundtrip:
  assumes "fork_ready dest src len j s" and "free_frames s \<noteq> {}"
    and "\<forall>f. unat (MEM_MAP s f) + refs (table (shared_entries src) (page_addr j) (ram s)) f < 256"
  shows "\<exists>s' s''. copyPageTables dest src len s = Inr (0, s') \<and> freePageTables dest len s' = Inr (0, s'') \<and>
    MEM_MAP s'' = MEM_MAP s \<and> ram s'' (dir_addr dest) = 0"
  using copyPageTables_shares [OF assms(1,2)] freePageTables_releases [OF assms(1) _ assms(3)] by metis

theorem fork_exit_roundtrip_witness:
  "\<exists>s' s''. copyPageTables 0x8000000 0x4000000 0x400000 memory_boot = Inr (0, s') \<and>
    freePageTables 0x8000000 0x400000 s' = Inr (0, s'') \<and> MEM_MAP s'' = MEM_MAP memory_boot"
proof -
  have "refs (replicate n 0) f = 0" for n f by (induction n) simp_all
  then have "\<forall>f. unat (MEM_MAP memory_boot f) + refs (table (shared_entries 0x4000000) (page_addr 1024) (ram memory_boot)) f < 256"
    unfolding shared_entries_far boot_table by simp
  from fork_exit_roundtrip [OF boot_fork_ready memory_boot_ok(2) this] show ?thesis by blast
qed

text \<open>Copy on write: a write to a page with one owner makes its entry writable and touches nothing
  else.\<close>

theorem cow_sole_owner:
  assumes "counted (ram s item)" and "frame_of (ram s item) < 8192" and "MEM_MAP s (frame_of (ram s item)) = 1"
  shows "\<exists>s'. unWriteProtectPage item s = Inr s' \<and> ram s' = (ram s)(item := ram s item OR 2) \<and> MEM_MAP s' = MEM_MAP s"
  using unWriteProtectPage_sole [OF assms] by (simp add: loadCR3_def poke_def)

lemma boot_entry: "counted 0x401005" "frame_of 0x401005 = 1025"
  by (simp_all add: counted_def present_def read_only_def frame_of_def)

theorem cow_sole_owner_witness:
  "\<exists>s'. unWriteProtectPage 0x400000 (poke 0x400000 0x401005 memory_boot) = Inr s' \<and> ram s' 0x400000 = 0x401007"
  using cow_sole_owner [of "poke 0x400000 0x401005 memory_boot" "0x400000"] boot_entry by (auto simp: poke_def)

text \<open>A write to a shared page gives the writer its own copy: a page that was free gets the contents of
  the shared one and a writable entry, the shared page loses one reference, and every other word of memory,
  the shared page's included, is unchanged.\<close>

theorem cow_shared_page:
  assumes "mem_ok s" and "free_frames s \<noteq> {}"
    and "counted (ram s item)" and "frame_of (ram s item) < 8192" and "MEM_MAP s (frame_of (ram s item)) \<notin> {0, 1}"
    and "item \<in> words 1024 (page_addr k)" and "k < 8192" and "MEM_MAP s k \<noteq> 0" and "k \<noteq> frame_of (ram s item)"
  shows "\<exists>i s'. unWriteProtectPage item s = Inr s' \<and> MEM_MAP s i = 0 \<and>
    ram s' item = page_addr i OR 7 \<and>
    table 1024 (page_addr i) (ram s') = table 1024 (page_addr (frame_of (ram s item))) (ram s) \<and>
    (\<forall>x. x \<noteq> item \<and> x \<notin> words 1024 (page_addr i) \<longrightarrow> ram s' x = ram s x) \<and>
    MEM_MAP s' = (MEM_MAP s)(i := 1, frame_of (ram s item) := MEM_MAP s (frame_of (ram s item)) - 1)"
proof -
  have "page_addr i OR PG_USU OR PG_RWW OR PG_P = page_addr i OR 7" for i by (simp add: or.assoc)
  then show ?thesis
    using unWriteProtectPage_shared [OF assms] unfolding copied_page_def by metis
qed

theorem cow_shared_page_witness:
  "\<exists>i s'. unWriteProtectPage 0x400000 (poke 0x400000 0x401005 (memory_boot\<lparr>MEM_MAP := (MEM_MAP memory_boot)(1025 := 2)\<rparr>)) = Inr s' \<and>
    ram s' 0x400000 = page_addr i OR 7 \<and> MEM_MAP s' 1025 = 1"
proof -
  let ?s = "poke 0x400000 0x401005 (memory_boot\<lparr>MEM_MAP := (MEM_MAP memory_boot)(1025 := 2)\<rparr>)"
  have "page_addr 2000 \<in> free_frames ?s"
    unfolding free_frames_def mem_Collect_eq poke_def by (intro exI [of _ 2000]) simp
  then have f: "free_frames ?s \<noteq> {}" by blast
  have k: "(0x400000 :: u32) \<in> words 1024 (page_addr 1024)"
    unfolding words_iff page_addr_def by (intro exI [of _ 0]) simp
  have "mem_ok ?s" by (simp add: mem_ok_def poke_def)
  from cow_shared_page [OF this f _ _ _ k] boot_entry show ?thesis by (auto simp: poke_def)
qed

end
