(* ===== verification/Process.thy ===== *)
theory Process
  imports Memory
begin

section \<open>Processes and scheduling\<close>

text \<open>
  \<^verbatim>\<open>kernel/process.c\<close> with \<^verbatim>\<open>kernel/signal.c\<close>, the timer interrupt of \<^verbatim>\<open>kernel/time.c\<close>, the task switch
  of \<^verbatim>\<open>kernel/krn.asm\<close> and the system calls of \<^verbatim>\<open>kernel/syscall.asm\<close>. A pointer to a process, an inode
  or a file is its address, with 0 for the null pointer; each kind of object has a heap of its own. The
  cells of type \<^verbatim>\<open>PROCESS*\<close> that the code passes by reference to \<open>sleepOn\<close> and \<open>wakeUp\<close> (the waiting
  queues of buffers, inodes, super blocks, requests and the two global ones) are named by \<open>wq\<close>; such a
  reference is the address of a variable, so the tests of \<^verbatim>\<open>p\<close> against the null pointer never hold.
\<close>

abbreviation (input) NR_TASKS :: nat where "NR_TASKS \<equiv> 64"
abbreviation (input) NR_OPEN :: nat where "NR_OPEN \<equiv> 20"
abbreviation (input) PAGE_SIZE :: u32 where "PAGE_SIZE \<equiv> 4096"
abbreviation (input) TASK_RUNNING :: t32 where "TASK_RUNNING \<equiv> 0"
abbreviation (input) TASK_INTERRUPTIBLE :: t32 where "TASK_INTERRUPTIBLE \<equiv> 1"
abbreviation (input) TASK_UNINTERRUPTIBLE :: t32 where "TASK_UNINTERRUPTIBLE \<equiv> 2"

subsection \<open>The state\<close>

record sigaction =
  sa_handler :: u32
  sa_mask :: u32
  sa_flags :: u32
  sa_restorer :: u32

record process =
  p_state :: t32
  p_counter :: t32
  p_priority :: u32
  p_signal :: u32
  p_sigaction :: "nat \<Rightarrow> sigaction"
  p_blocked :: u32
  p_exit_code :: u32
  p_start_code :: u32
  p_end_code :: u32
  p_end_data :: u32
  p_brk :: u32
  p_start_stack :: u32
  p_pid :: u32
  p_father :: t32
  p_pgrp :: u32
  p_session :: u32
  p_leader :: u32
  p_uid :: u16
  p_euid :: u16
  p_suid :: u16
  p_alarm :: u32
  p_start_time :: u32
  p_tty :: t32
  p_umask :: u16
  p_pwd :: u32
  p_root :: u32
  p_executable :: u32
  p_close_on_exec :: u32
  p_filp :: "nat \<Rightarrow> u32"
  p_ldt :: "nat \<Rightarrow> descriptor"
  p_tss :: tss

record minode =
  i_mode :: u16
  i_uid :: u16
  i_size :: u32
  i_mtime :: u32
  i_gid :: u8
  i_nlinks :: u8
  i_zone :: "nat \<Rightarrow> u16"
  i_atime :: u32
  i_ctime :: u32
  i_dev :: u16
  i_num :: u16
  i_count :: u16
  i_lock :: u8
  i_dirt :: u8
  i_pipe :: u8
  i_mount :: u8
  i_seek :: u8
  i_update :: u8

record ofile =
  f_mode :: u16
  f_flags :: u16
  f_count :: u16
  f_inode :: u32
  f_pos :: t32

datatype wq =
    BufferWait u32 | InodeWait u32 | SuperWait nat | RequestWait nat
  | BUFFER_WAIT | WAIT_FOR_REQUEST

record kernel = memory +
  TASKS :: "nat \<Rightarrow> u32"
  CURRENT :: u32
  last_pid :: t32
  PROC :: "u32 \<Rightarrow> process"
  FILES :: "u32 \<Rightarrow> ofile"
  INODES :: "u32 \<Rightarrow> minode"
  WAITQ :: "wq \<Rightarrow> u32"

text \<open>
  What the kernel runs on: the devices, the strings in memory and the stack that \<open>number\<close> reads, the fuel of the loops that may not end, what
  the compiled code leaves in the register ESI,
  the addresses the linker gives to \<^verbatim>\<open>TASKS\<close>, \<^verbatim>\<open>INIT_TASKS\<close> and \<^verbatim>\<open>INODE_TABLE\<close>, and \<open>pf_others\<close>: what the other processes
  and the interrupt handlers do from the moment a process is switched away to the moment it is switched
  back.
\<close>

record 's platform =
  pf_dev :: device
  pf_bulk :: bulk_device
  pf_str :: texts
  pf_fuel :: nat
  tasks_array :: u32
  init_tasks :: u32
  inode_table :: u32
  pf_others :: "'s \<Rightarrow> 's outcome"
  pf_esi :: "io_event list \<Rightarrow> u32"

definition upd_proc :: "u32 \<Rightarrow> (process \<Rightarrow> process) \<Rightarrow> 'a kernel_scheme \<Rightarrow> 'a kernel_scheme" where
  "upd_proc p f s = s\<lparr>PROC := (PROC s)(p := f (PROC s p))\<rparr>"

definition upd_inode :: "u32 \<Rightarrow> (minode \<Rightarrow> minode) \<Rightarrow> 'a kernel_scheme \<Rightarrow> 'a kernel_scheme" where
  "upd_inode p f s = s\<lparr>INODES := (INODES s)(p := f (INODES s p))\<rparr>"

definition upd_file :: "u32 \<Rightarrow> (ofile \<Rightarrow> ofile) \<Rightarrow> 'a kernel_scheme \<Rightarrow> 'a kernel_scheme" where
  "upd_file p f s = s\<lparr>FILES := (FILES s)(p := f (FILES s p))\<rparr>"

definition set_waitq :: "wq \<Rightarrow> u32 \<Rightarrow> 'a kernel_scheme \<Rightarrow> 'a kernel_scheme" where
  "set_waitq q p s = s\<lparr>WAITQ := (WAITQ s)(q := p)\<rparr>"

text \<open>A message of the kernel: \<open>printk\<close> with the characters of a literal.\<close>

definition kmsg :: "'s platform \<Rightarrow> string \<Rightarrow> (nat \<Rightarrow> u32) \<Rightarrow> 'a kernel_scheme \<Rightarrow> 'a kernel_scheme outcome" where
  "kmsg pf fmt args s =
     andThen (printk (pf_str pf) (pf_fuel pf) (map of_char fmt) args s) (\<lambda>(_, s). Inr s)"

definition setSignal :: "u32 \<Rightarrow> u32 \<Rightarrow> u32 \<Rightarrow> u32 \<Rightarrow> sigaction \<Rightarrow> sigaction" where
  "setSignal handler samask saflags restorer signal =
     signal\<lparr>sa_handler := handler, sa_mask := samask, sa_flags := saflags, sa_restorer := restorer\<rparr>"

subsection \<open>The scheduler\<close>

text \<open>The signals that can be blocked: all but number 9 (kill) and 19 (stop).\<close>

definition BLOCKABLE :: u32 where
  "BLOCKABLE = NOT (push_bit 8 1 OR push_bit 18 1)"

text \<open>
  The first loop of \<open>schedule\<close> tests \<^verbatim>\<open>!TASKS[i]\<close> before it looks at the signals of \<^verbatim>\<open>TASKS[i]\<close>, so it
  looks at the words that a process at address 0 would have: the fields \<^verbatim>\<open>signal\<close>, \<^verbatim>\<open>blocked\<close> and
  \<^verbatim>\<open>state\<close> are at the offsets 12, 528 and 0 of the page directory.
\<close>

definition signal_step :: "nat \<Rightarrow> 'a kernel_scheme \<Rightarrow> 'a kernel_scheme" where
  "signal_step i s =
     (if TASKS s i = 0 then
        if ram s 12 AND (BLOCKABLE AND NOT (ram s 528)) \<noteq> 0 \<and> ram s 0 = TASK_INTERRUPTIBLE
        then poke 0 TASK_RUNNING s else s
      else s)"

text \<open>The choice of the next process, and the renewal of the time slices.\<close>

definition pick_step :: "'a kernel_scheme \<Rightarrow> nat \<Rightarrow> t32 \<times> nat \<Rightarrow> t32 \<times> nat" where
  "pick_step s i = (\<lambda>(c, next).
     if TASKS s i = 0 then (c, next)
     else if p_state (PROC s (TASKS s i)) = TASK_RUNNING \<and> sint (p_counter (PROC s (TASKS s i))) > sint c
       then (p_counter (PROC s (TASKS s i)), i)
     else (c, next))"

definition pick :: "'a kernel_scheme \<Rightarrow> t32 \<times> nat" where
  "pick s = fold (pick_step s) [1..<NR_TASKS] (- 1, 0)"

definition refill_step :: "nat \<Rightarrow> 'a kernel_scheme \<Rightarrow> 'a kernel_scheme" where
  "refill_step i s =
     (if TASKS s i \<noteq> 0 then upd_proc (TASKS s i) (\<lambda>p. p\<lparr>p_counter := p_priority p\<rparr>) s else s)"

definition refill :: "'a kernel_scheme \<Rightarrow> 'a kernel_scheme" where
  "refill = fold refill_step [1..<NR_TASKS]"

primrec schedule_loop :: "nat \<Rightarrow> 'a kernel_scheme \<Rightarrow> (nat \<times> 'a kernel_scheme) outcome" where
  "schedule_loop 0 s = Inl NoFuel"
| "schedule_loop (Suc n) s =
     (let (c, next) = pick s in if c \<noteq> 0 then Inr (next, s) else schedule_loop n (refill s))"

definition SWITCH_TO :: "nat \<Rightarrow> 'a kernel_scheme \<Rightarrow> 'a kernel_scheme" where
  "SWITCH_TO n s = (if TASKS s n = CURRENT s then s else s\<lparr>CURRENT := TASKS s n\<rparr>)"

definition schedule :: "nat \<Rightarrow> 'a kernel_scheme \<Rightarrow> 'a kernel_scheme outcome" where
  "schedule n s =
     andThen (schedule_loop n (fold signal_step [1..<NR_TASKS] s)) (\<lambda>(next, s). Inr (SWITCH_TO next s))"

definition timerHandler :: "nat \<Rightarrow> 'a kernel_scheme \<Rightarrow> 'a kernel_scheme outcome" where
  "timerHandler n s =
     (let s = s\<lparr>TICKS := TICKS s + 1\<rparr>;
          s = upd_proc (CURRENT s) (\<lambda>p. p\<lparr>p_counter := p_counter p - 1\<rparr>) s
      in if sint (p_counter (PROC s (CURRENT s))) > 0 then Inr s else schedule n s)"

subsection \<open>Sleeping and waking\<close>

text \<open>
  A call of \<open>schedule\<close> by the process \<open>me\<close> that has to give up the processor: it comes back at once when
  \<open>me\<close> is chosen again, and otherwise when the others have run and switched back to it.
\<close>

definition reschedule :: "'a kernel_scheme platform \<Rightarrow> 'a kernel_scheme \<Rightarrow> 'a kernel_scheme outcome" where
  "reschedule pf s =
     (let me = CURRENT s
      in andThen (schedule (pf_fuel pf) s) (\<lambda>s.
         if CURRENT s = me then Inr s
         else andThen (pf_others pf s) (\<lambda>s. Inr (s\<lparr>CURRENT := me\<rparr>))))"

text \<open>\<open>sleepOn\<close> compares \<^verbatim>\<open>CURRENT\<close>, the address of a process, with the address of the array \<^verbatim>\<open>TASKS\<close>.\<close>

definition sleepOn :: "'a kernel_scheme platform \<Rightarrow> wq \<Rightarrow> 'a kernel_scheme \<Rightarrow> 'a kernel_scheme outcome" where
  "sleepOn pf q s =
     (if CURRENT s = tasks_array pf
      then andThen (kmsg pf ''task[0] trying to sleep'' (\<lambda>_. 0) s) (\<lambda>s. Inl (Hang ''sleepOn''))
      else
        let tmp = WAITQ s q;
            s = set_waitq q (CURRENT s) s;
            s = upd_proc (CURRENT s) (\<lambda>p. p\<lparr>p_state := TASK_UNINTERRUPTIBLE\<rparr>) s
        in andThen (reschedule pf s) (\<lambda>s.
           let s = set_waitq q tmp s
           in Inr (if tmp \<noteq> 0 then upd_proc tmp (\<lambda>p. p\<lparr>p_state := TASK_RUNNING\<rparr>) s else s)))"

definition wakeUp :: "wq \<Rightarrow> 'a kernel_scheme \<Rightarrow> 'a kernel_scheme" where
  "wakeUp q s =
     (if WAITQ s q \<noteq> 0
      then set_waitq q 0 (upd_proc (WAITQ s q) (\<lambda>p. p\<lparr>p_state := TASK_RUNNING\<rparr>) s)
      else s)"

subsection \<open>Creating processes\<close>

text \<open>The search for an unused process number: when one is in use the scan starts again from slot 0.\<close>

primrec pid_scan :: "nat \<Rightarrow> nat \<Rightarrow> 'a kernel_scheme \<Rightarrow> 'a kernel_scheme outcome" where
  "pid_scan 0 i s = Inl NoFuel"
| "pid_scan (Suc n) i s =
     (if i \<ge> NR_TASKS then Inr s
      else if TASKS s i \<noteq> 0 \<and> p_pid (PROC s (TASKS s i)) = last_pid s
        then pid_scan n 0 (s\<lparr>last_pid := last_pid s + 1\<rparr>)
      else pid_scan n (i + 1) s)"

definition free_slot :: "'a kernel_scheme \<Rightarrow> t32" where
  "free_slot s = (case find (\<lambda>i. TASKS s i = 0) [0..<NR_TASKS] of Some i \<Rightarrow> of_nat i | None \<Rightarrow> - 1)"

definition findEmptyProcess :: "nat \<Rightarrow> 'a kernel_scheme \<Rightarrow> (t32 \<times> 'a kernel_scheme) outcome" where
  "findEmptyProcess n s =
     andThen (pid_scan n 0 (s\<lparr>last_pid := last_pid s + 1\<rparr>)) (\<lambda>s. Inr (free_slot s, s))"

text \<open>
  \<open>copyMem\<close>: the limits are those of the local descriptors of the running process, which the processor
  has loaded.
\<close>

definition copyMem :: "nat \<Rightarrow> u32 \<Rightarrow> 'a kernel_scheme \<Rightarrow> (t32 \<times> 'a kernel_scheme) outcome" where
  "copyMem nr p s =
     (let cur = PROC s (CURRENT s);
          new_base = of_nat nr * 0x4000000;
          data_limit = getDescLimit (p_ldt cur 2);
          old_code_base = getDescBase (p_ldt cur 1);
          old_data_base = getDescBase (p_ldt cur 2)
      in if old_code_base \<noteq> old_data_base then Inr (- 1, s)
         else
           let s = upd_proc p (\<lambda>c. c\<lparr>p_ldt := (p_ldt c)(1 := setDescBase (p_ldt c 1) new_base)\<rparr>) s;
               s = upd_proc p (\<lambda>c. c\<lparr>p_ldt := (p_ldt c)(2 := setDescBase (p_ldt c 2) new_base)\<rparr>) s
           in andThen (copyPageTables new_base old_data_base (data_limit + 1) s) (\<lambda>(r, s).
              if r \<noteq> 0 then andThen (freePageTables new_base data_limit s) (\<lambda>(_, s). Inr (- 1, s))
              else Inr (0, s)))"

text \<open>The registers that the system call stub left on the stack, as \<open>copyProcess\<close> receives them.\<close>

record regs =
  r_EDI :: u32
  r_ESI :: u32
  r_EBP :: u32
  r_EBX :: u32
  r_EDX :: u32
  r_ECX :: u32
  r_gs :: u32
  r_fs :: u32
  r_es :: u32
  r_ds :: u32
  r_eip :: u32
  r_cs :: u32
  r_eflags :: u32
  r_esp :: u32
  r_ss :: u32

definition child_tss :: "nat \<Rightarrow> u32 \<Rightarrow> regs \<Rightarrow> tss \<Rightarrow> tss" where
  "child_tss nr p r t =
     t\<lparr>tss_backlink := 0, tss_esp0 := p + PAGE_SIZE, tss_ss0 := SELECTOR_KERNEL_DS,
       tss_eip := r_eip r, tss_flags := r_eflags r, tss_eax := 0, tss_ecx := r_ECX r,
       tss_edx := r_EDX r, tss_ebx := r_EBX r, tss_esp := r_esp r, tss_ebp := r_EBP r,
       tss_esi := r_ESI r, tss_edi := r_EDI r, tss_es := r_es r AND 0xFFFF,
       tss_cs := r_cs r AND 0xFFFF, tss_ss := r_ss r AND 0xFFFF, tss_ds := r_ds r AND 0xFFFF,
       tss_fs := r_fs r AND 0xFFFF, tss_gs := r_gs r AND 0xFFFF,
       tss_ldt := push_bit 4 (of_nat nr) + SELECTOR_FIRST_TASK_LDT, tss_trap := 0,
       tss_iobase := 104\<rparr>"

definition child_process :: "nat \<Rightarrow> u32 \<Rightarrow> u32 \<Rightarrow> u32 \<Rightarrow> regs \<Rightarrow> process \<Rightarrow> process" where
  "child_process nr p pid ticks r parent =
     parent\<lparr>p_state := TASK_UNINTERRUPTIBLE, p_pid := pid, p_father := p_pid parent,
       p_counter := p_priority parent, p_signal := 0, p_alarm := 0, p_leader := 0,
       p_start_time := ticks, p_tss := child_tss nr p r (p_tss parent)\<rparr>"

text \<open>The open files and the three inodes of the process get one more user.\<close>

definition share_file :: "process \<Rightarrow> nat \<Rightarrow> 'a kernel_scheme \<Rightarrow> 'a kernel_scheme" where
  "share_file p i s =
     (if p_filp p i \<noteq> 0 then upd_file (p_filp p i) (\<lambda>f. f\<lparr>f_count := f_count f + 1\<rparr>) s else s)"

definition share_inode :: "u32 \<Rightarrow> 'a kernel_scheme \<Rightarrow> 'a kernel_scheme" where
  "share_inode i s =
     (if i \<noteq> 0 then upd_inode i (\<lambda>n. n\<lparr>i_count := i_count n + 1\<rparr>) s else s)"

text \<open>
  Storing the two descriptors of slot \<open>nr\<close>, at the entries \<open>3 + 2 * nr\<close> and \<open>4 + 2 * nr\<close> of a table of
  128; the task state segment and the local table are at the offsets 720 and 696 of the process.
\<close>

definition set_gdt :: "nat \<Rightarrow> u32 \<Rightarrow> u32 \<Rightarrow> u16 \<Rightarrow> 'a kernel_scheme \<Rightarrow> 'a kernel_scheme outcome" where
  "set_gdt k base limit attr s =
     (if k \<ge> GDT_SIZE then Inl (Fault ''GDT'')
      else Inr (s\<lparr>GDT := (GDT s)(k := setGdtDesc (GDT s k) base limit attr)\<rparr>))"

definition copyProcess :: "nat \<Rightarrow> regs \<Rightarrow> 'a kernel_scheme \<Rightarrow> (t32 \<times> 'a kernel_scheme) outcome" where
  "copyProcess nr r s =
     (let (p, s) = getFreePage s
      in if p = 0 then Inr (- 1, s)
         else
           let s = s\<lparr>TASKS := (TASKS s)(nr := p)\<rparr>;
               s = s\<lparr>PROC := (PROC s)(p :=
                 child_process nr p (last_pid s) (TICKS s) r (PROC s (CURRENT s)))\<rparr>
           in andThen (copyMem nr p s) (\<lambda>(e, s).
              if e \<noteq> 0 then
                andThen (freePage p (s\<lparr>TASKS := (TASKS s)(nr := 0)\<rparr>)) (\<lambda>s. Inr (- 1, s))
              else
                let s = fold (share_file (PROC s p)) [0..<NR_OPEN] s;
                    cur = PROC s (CURRENT s);
                    s = share_inode (p_executable cur) (share_inode (p_root cur) (share_inode (p_pwd cur) s))
                in andThen (set_gdt (3 + 2 * nr) (TASKS s nr + 720) 104 DA_386TSS s) (\<lambda>s.
                   andThen (set_gdt (4 + 2 * nr) (TASKS s nr + 696) 24 DA_LDT s) (\<lambda>s.
                   Inr (last_pid s, upd_proc p (\<lambda>c. c\<lparr>p_state := TASK_RUNNING\<rparr>) s)))))"

definition sysFork :: "nat \<Rightarrow> regs \<Rightarrow> 'a kernel_scheme \<Rightarrow> (t32 \<times> 'a kernel_scheme) outcome" where
  "sysFork n r s =
     andThen (findEmptyProcess n s) (\<lambda>(nr, s).
       if nr = - 1 then Inr (- 1, s) else copyProcess (unat nr) r s)"

definition sysPause :: "'a kernel_scheme platform \<Rightarrow> 'a kernel_scheme \<Rightarrow> (t32 \<times> 'a kernel_scheme) outcome" where
  "sysPause pf s =
     andThen (reschedule pf (upd_proc (CURRENT s) (\<lambda>p. p\<lparr>p_state := TASK_INTERRUPTIBLE\<rparr>) s))
       (\<lambda>s. Inr (0, s))"

subsection \<open>The first process\<close>

definition zero_sigaction :: sigaction where
  "zero_sigaction = \<lparr>sa_handler = 0, sa_mask = 0, sa_flags = 0, sa_restorer = 0\<rparr>"

definition zero_tss :: tss where
  "zero_tss = setTss 0 0 0 0 0 0 0 0 0 0 0 0 0 0 0 0 0 0 0 0 0 0 0 0 0 0 0"

definition zero_process :: process where
  "zero_process =
     \<lparr>p_state = 0, p_counter = 0, p_priority = 0, p_signal = 0, p_sigaction = (\<lambda>_. zero_sigaction),
      p_blocked = 0, p_exit_code = 0, p_start_code = 0, p_end_code = 0, p_end_data = 0, p_brk = 0,
      p_start_stack = 0, p_pid = 0, p_father = 0, p_pgrp = 0, p_session = 0, p_leader = 0, p_uid = 0,
      p_euid = 0, p_suid = 0, p_alarm = 0, p_start_time = 0, p_tty = 0, p_umask = 0, p_pwd = 0,
      p_root = 0, p_executable = 0, p_close_on_exec = 0, p_filp = (\<lambda>_. 0), p_ldt = (\<lambda>_. desc0),
      p_tss = zero_tss\<rparr>"

definition first_process :: "u32 \<Rightarrow> process" where
  "first_process addr =
     zero_process\<lparr>p_counter := 15, p_priority := 15, p_father := - 1, p_tty := - 1, p_umask := 18,
       p_ldt := (\<lambda>_. desc0)
         (0 := setGdtDesc desc0 0 0 0,
          1 := setGdtDesc desc0 0 0x9F (DA_LIMIT_4K OR DA_32 OR DA_CR OR ucast PRIVILEGE_USER),
          2 := setGdtDesc desc0 0 0x9F (DA_LIMIT_4K OR DA_32 OR DA_DRW OR ucast PRIVILEGE_USER)),
       p_tss := setTss 0 (addr + PAGE_SIZE) SELECTOR_KERNEL_DS 0 0 0 0 PAGE_DIR 0 0 0 0 0 0 0 0 0 0
         0x17 0x17 0x17 0x17 0x17 0x17 SELECTOR_FIRST_TASK_LDT 0 104\<rparr>"

definition initSchedule :: "'a kernel_scheme platform \<Rightarrow> 'a kernel_scheme \<Rightarrow> 'a kernel_scheme" where
  "initSchedule pf s =
     (let s = s\<lparr>last_pid := 0\<rparr>;
          s = s\<lparr>PROC := (PROC s)(init_tasks pf := first_process (init_tasks pf))\<rparr>
      in s\<lparr>GDT := (GDT s)
             (3 := setGdtDesc (GDT s 3) (init_tasks pf + 720) 104 DA_386TSS,
              4 := setGdtDesc (GDT s 4) (init_tasks pf + 696) 24 DA_LDT)\<rparr>)"

text \<open>The two base addresses of a process moved to the region of slot \<open>nr\<close>.\<close>

definition rebase :: "nat \<Rightarrow> process \<Rightarrow> process" where
  "rebase nr c = c\<lparr>p_ldt := (p_ldt c)(1 := setDescBase (p_ldt c 1) (of_nat nr * 0x4000000),
     2 := setDescBase (p_ldt c 2) (of_nat nr * 0x4000000))\<rparr>"

subsection \<open>Waiting for a lock\<close>

text \<open>
  The loop \<^verbatim>\<open>while (x->lock) sleepOn(&x->wait)\<close> of buffers, inodes and super blocks, with interrupts off
  around it.
\<close>

primrec wait_loop ::
  "nat \<Rightarrow> 'a kernel_scheme platform \<Rightarrow> ('a kernel_scheme \<Rightarrow> bool) \<Rightarrow> wq \<Rightarrow> 'a kernel_scheme \<Rightarrow> 'a kernel_scheme outcome"
where
  "wait_loop 0 pf locked q s = Inl NoFuel"
| "wait_loop (Suc n) pf locked q s =
     (if locked s then andThen (sleepOn pf q s) (wait_loop n pf locked q) else Inr s)"

lemma wait_loop_free: "wait_loop n pf locked q s = Inr s' \<Longrightarrow> \<not> locked s'"
  by (induction n arbitrary: s) (auto split: if_splits)

lemma wait_loop_now: "\<not> locked s \<Longrightarrow> 0 < n \<Longrightarrow> wait_loop n pf locked q s = Inr s"
  by (cases n) simp_all

end
