(* ===== verification/Sched.thy ===== *)
theory Sched
  imports Process
begin

section \<open>Scheduling and sleeping\<close>

text \<open>
  What \<open>schedule\<close> chooses and when it returns, how long a process keeps the processor, what a sleep does
  to the queue it sleeps on, and a small state of the kernel to try the properties on.
\<close>

subsection \<open>The choice of the scheduler\<close>

definition runnable :: "'a kernel_scheme \<Rightarrow> nat \<Rightarrow> bool" where
  "runnable s i \<longleftrightarrow> 1 \<le> i \<and> i < NR_TASKS \<and> TASKS s i \<noteq> 0 \<and> p_state (PROC s (TASKS s i)) = TASK_RUNNING"

definition tslice :: "'a kernel_scheme \<Rightarrow> nat \<Rightarrow> int" where
  "tslice s i = sint (p_counter (PROC s (TASKS s i)))"

text \<open>The task with the longest time tslice, the lowest slot first; a negative tslice does not count.\<close>

definition longest_slice :: "'a kernel_scheme \<Rightarrow> nat \<Rightarrow> bool" where
  "longest_slice s i \<longleftrightarrow> runnable s i \<and> 0 \<le> tslice s i \<and>
     (\<forall>j. runnable s j \<longrightarrow> tslice s j < tslice s i \<or> tslice s j = tslice s i \<and> i \<le> j)"

lemma pick_fold:
  fixes s :: "'a kernel_scheme"
  assumes "n \<le> 63"
  shows "case fold (pick_step s) [1..<n + 1] (- 1, 0) of (c, k) \<Rightarrow>
    (if k = 0 then c = - 1 \<and> (\<forall>j \<le> n. runnable s j \<longrightarrow> tslice s j < 0)
     else k \<le> n \<and> runnable s k \<and> 0 \<le> tslice s k \<and> c = p_counter (PROC s (TASKS s k)) \<and>
       (\<forall>j \<le> n. runnable s j \<longrightarrow> tslice s j < tslice s k \<or> tslice s j = tslice s k \<and> k \<le> j))"
  using assms
proof (induction n)
  case 0
  then show ?case by (simp add: runnable_def)
next
  case (Suc n)
  obtain c k where r: "fold (pick_step s) [1..<n + 1] (- 1, 0) = (c, k)" by fastforce
  have e: "fold (pick_step s) [1..<Suc n + 1] (- 1, 0) = pick_step s (Suc n) (c, k)"
    using r by simp
  have rn: "runnable s (Suc n) \<longleftrightarrow> TASKS s (Suc n) \<noteq> 0 \<and> p_state (PROC s (TASKS s (Suc n))) = 0"
    using Suc.prems by (simp add: runnable_def)
  note IH = Suc.IH [unfolded r, simplified]
  show ?case
  proof (cases "k = 0")
    case True
    with IH Suc.prems have c: "c = - 1" "\<forall>j \<le> n. runnable s j \<longrightarrow> tslice s j < 0" by auto
    show ?thesis unfolding e using rn c True
      by (auto simp: pick_step_def tslice_def le_Suc_eq split: if_splits)
  next
    case False
    with IH Suc.prems have c: "k \<le> n" "runnable s k" "0 \<le> tslice s k"
      "c = p_counter (PROC s (TASKS s k))"
      "\<forall>j \<le> n. runnable s j \<longrightarrow> tslice s j < tslice s k \<or> tslice s j = tslice s k \<and> k \<le> j"
      by auto
    show ?thesis unfolding e using rn c False
      by (auto simp: pick_step_def tslice_def le_Suc_eq split: if_splits)
  qed
qed

lemma sint_eq_0: "sint (x :: u32) = 0 \<longleftrightarrow> x = 0"
  by (metis sint_0 signed_word_eqI)

lemma pick_cases:
  "(\<forall>j. runnable s j \<longrightarrow> tslice s j < 0) \<and> pick s = (- 1, 0) \<or>
   (\<exists>i. longest_slice s i \<and> pick s = (p_counter (PROC s (TASKS s i)), i))"
proof -
  obtain c k where r: "fold (pick_step s) [1..<63 + 1] (- 1, 0) = (c, k)" by fastforce
  have b: "runnable s j \<Longrightarrow> j \<le> 63" for j by (simp add: runnable_def)
  have p: "pick s = (c, k)" using r by (simp add: pick_def)
  show ?thesis using pick_fold [of 63 s] r b p unfolding longest_slice_def
    by (auto split: if_splits)
qed

lemma longest_slice_unique: "longest_slice s i \<Longrightarrow> longest_slice s j \<Longrightarrow> i = j"
  unfolding longest_slice_def by (metis le_antisym less_irrefl less_trans order_less_le)

lemma pick_none: "\<forall>j. runnable s j \<longrightarrow> tslice s j < 0 \<Longrightarrow> pick s = (- 1, 0)"
  using pick_cases [of s] unfolding longest_slice_def by force

lemma pick_longest: "longest_slice s i \<Longrightarrow> pick s = (p_counter (PROC s (TASKS s i)), i)"
proof -
  assume i: "longest_slice s i"
  then have "\<not> (\<forall>j. runnable s j \<longrightarrow> tslice s j < 0)" unfolding longest_slice_def by force
  with pick_cases [of s] obtain j where "longest_slice s j" "pick s = (p_counter (PROC s (TASKS s j)), j)"
    by blast
  with longest_slice_unique [OF i] show ?thesis by blast
qed

lemma longest_slice_exists: "runnable s j \<Longrightarrow> 0 \<le> tslice s j \<Longrightarrow> \<exists>i. longest_slice s i \<and> tslice s j \<le> tslice s i"
  using pick_cases [of s] unfolding longest_slice_def by (metis less_imp_le linorder_not_less order_refl)

text \<open>The renewal of the time slices.\<close>

lemma refill_fold:
  "fold refill_step xs s = s\<lparr>PROC := (\<lambda>p. if \<exists>i \<in> set xs. TASKS s i \<noteq> 0 \<and> TASKS s i = p
     then (PROC s p)\<lparr>p_counter := p_priority (PROC s p)\<rparr> else PROC s p)\<rparr>"
proof (induction xs arbitrary: s)
  case (Cons i xs)
  have "TASKS (refill_step i s) = TASKS s" by (simp add: refill_step_def upd_proc_def)
  then show ?case unfolding fold_Cons comp_apply Cons.IH
    by (auto simp: refill_step_def upd_proc_def fun_eq_iff intro!: kernel.equality)
qed simp

lemma refill_runnable: "runnable (refill s) i = runnable s i"
  by (auto simp: runnable_def refill_def refill_fold)

lemma refill_slice: "runnable s i \<Longrightarrow> tslice (refill s) i = sint (p_priority (PROC s (TASKS s i)))"
  by (force simp: runnable_def refill_def refill_fold tslice_def)

lemma signal_inert: "ram s 0 \<noteq> TASK_INTERRUPTIBLE \<Longrightarrow> fold signal_step xs s = s"
  by (induction xs) (simp_all add: signal_step_def)

lemma schedule_inert:
  "ram s 0 \<noteq> TASK_INTERRUPTIBLE \<Longrightarrow>
   schedule n s = andThen (schedule_loop n s) (\<lambda>(k, s). Inr (SWITCH_TO k s))"
  by (simp add: schedule_def signal_inert)

lemma schedule_idle:
  "\<forall>j. runnable s j \<longrightarrow> tslice s j < 0 \<Longrightarrow> ram s 0 \<noteq> TASK_INTERRUPTIBLE \<Longrightarrow>
   schedule (Suc n) s = Inr (SWITCH_TO 0 s)"
  by (simp add: schedule_inert pick_none)

lemma schedule_longest:
  "longest_slice s i \<Longrightarrow> 0 < tslice s i \<Longrightarrow> ram s 0 \<noteq> TASK_INTERRUPTIBLE \<Longrightarrow>
   schedule (Suc n) s = Inr (SWITCH_TO i s)"
  using sint_eq_0 [of "p_counter (PROC s (TASKS s i))"]
  by (auto simp: schedule_inert pick_longest tslice_def)

lemma schedule_loop_refill:
  "longest_slice s i \<Longrightarrow> tslice s i = 0 \<Longrightarrow> schedule_loop (Suc n) s = schedule_loop n (refill s)"
  using sint_eq_0 [of "p_counter (PROC s (TASKS s i))"] by (simp add: pick_longest tslice_def)

lemma refill_refill: "refill (refill s) = refill s"
  unfolding refill_def refill_fold by (auto simp: fun_eq_iff intro!: kernel.equality)

lemma livelock_loop:
  "longest_slice (refill s) i \<Longrightarrow> tslice (refill s) i = 0 \<Longrightarrow> schedule_loop n (refill s) = Inl NoFuel"
proof (induction n)
  case (Suc n)
  then show ?case using schedule_loop_refill [of "refill s" i n] by (simp only: refill_refill)
qed simp

subsection \<open>What scheduling leaves alone\<close>

definition same_tasks :: "'a kernel_scheme \<Rightarrow> 'a kernel_scheme \<Rightarrow> bool" where
  "same_tasks s s' \<longleftrightarrow> TASKS s' = TASKS s \<and> last_pid s' = last_pid s \<and> WAITQ s' = WAITQ s \<and>
     MEM_MAP s' = MEM_MAP s \<and> (ram s 0 \<noteq> TASK_INTERRUPTIBLE \<longrightarrow> ram s' = ram s) \<and>
     (\<forall>p. p_state (PROC s' p) = p_state (PROC s p) \<and> p_pid (PROC s' p) = p_pid (PROC s p) \<and>
        p_ldt (PROC s' p) = p_ldt (PROC s p))"

lemma same_tasks_refl [simp]: "same_tasks s s"
  by (simp add: same_tasks_def)

lemma same_tasks_trans [trans]: "same_tasks s t \<Longrightarrow> same_tasks t u \<Longrightarrow> same_tasks s u"
  by (simp add: same_tasks_def)

lemma same_tasks_signals: "same_tasks s (fold signal_step xs s)" "CURRENT (fold signal_step xs s) = CURRENT s"
  by (induction xs arbitrary: s) (auto simp: signal_step_def poke_def same_tasks_def)

lemma same_tasks_refill: "same_tasks s (refill s)" "CURRENT (refill s) = CURRENT s"
  by (simp_all add: refill_def refill_fold same_tasks_def)

lemma pick_slot: "snd (pick s) < NR_TASKS \<and> (snd (pick s) = 0 \<or> TASKS s (snd (pick s)) \<noteq> 0)"
  using pick_cases [of s] by (auto simp: longest_slice_def runnable_def)

lemma schedule_loop_frame:
  "schedule_loop n s = Inr (k, s') \<Longrightarrow> same_tasks s s' \<and> CURRENT s' = CURRENT s \<and> k < NR_TASKS \<and> (k = 0 \<or> TASKS s k \<noteq> 0)"
proof (induction n arbitrary: s)
  case (Suc n)
  show ?case
  proof (cases "fst (pick s) = 0")
    case True
    then have "schedule_loop n (refill s) = Inr (k, s')" using Suc.prems by (simp add: case_prod_beta)
    from Suc.IH [OF this] same_tasks_refill [of s] show ?thesis
      by (auto simp: same_tasks_def)
  next
    case False
    then have "k = snd (pick s)" "s' = s" using Suc.prems by (auto simp: case_prod_beta)
    then show ?thesis using pick_slot [of s] by simp
  qed
qed simp

lemma schedule_frame:
  assumes "schedule n s = Inr s'"
  shows "same_tasks s s' \<and> (\<exists>k < NR_TASKS. CURRENT s' = TASKS s k \<and> (k = 0 \<or> TASKS s k \<noteq> 0))"
proof -
  obtain k t where t: "schedule_loop n (fold signal_step [1..<NR_TASKS] s) = Inr (k, t)" "s' = SWITCH_TO k t"
    using assms by (auto simp: schedule_def simp del: upt_Suc)
  have "same_tasks s (fold signal_step [1..<NR_TASKS] s)" by (rule same_tasks_signals)
  also have "same_tasks (fold signal_step [1..<NR_TASKS] s) t" using schedule_loop_frame [OF t(1)] by blast
  also have "same_tasks t s'" by (simp add: t(2) SWITCH_TO_def same_tasks_def)
  finally have "same_tasks s s'" .
  moreover have "k < NR_TASKS" "k = 0 \<or> TASKS s k \<noteq> 0"
    using schedule_loop_frame [OF t(1)] same_tasks_signals(1) [of s "[1..<NR_TASKS]"] by (auto simp: same_tasks_def)
  moreover have "CURRENT s' = TASKS s k"
    using \<open>same_tasks s s'\<close> by (auto simp: t(2) SWITCH_TO_def same_tasks_def split: if_splits)
  ultimately show ?thesis by blast
qed

subsection \<open>Time slices\<close>

primrec timer_ticks :: "nat \<Rightarrow> nat \<Rightarrow> 'a kernel_scheme \<Rightarrow> 'a kernel_scheme outcome" where
  "timer_ticks 0 n s = Inr s"
| "timer_ticks (Suc k) n s = andThen (timer_ticks k n s) (timerHandler n)"

definition ticked :: "nat \<Rightarrow> 'a kernel_scheme \<Rightarrow> 'a kernel_scheme" where
  "ticked k s = upd_proc (CURRENT s) (\<lambda>p. p\<lparr>p_counter := p_counter p - of_nat k\<rparr>) (s\<lparr>TICKS := TICKS s + of_nat k\<rparr>)"

lemma sint_minus_nat:
  assumes "int k \<le> sint x"
  shows "sint (x - of_nat k :: u32) = sint x - int k"
proof -
  have b: "sint x < 2147483648" using sint_lt [of x] by simp
  have k: "sint (of_nat k :: u32) = int k"
    using assms b by (simp add: signed_of_nat signed_take_bit_int_eq_self)
  then show ?thesis using assms b by (simp add: sint_word_ariths signed_take_bit_int_eq_self)
qed

lemma ticked_simps:
  "CURRENT (ticked k s) = CURRENT s" "TICKS (ticked k s) = TICKS s + of_nat k"
  "p_counter (PROC (ticked k s) (CURRENT s)) = p_counter (PROC s (CURRENT s)) - of_nat k"
  "timerHandler n (ticked k s) =
     (if 0 < sint (p_counter (PROC (ticked (Suc k) s) (CURRENT s)))
      then Inr (ticked (Suc k) s) else schedule n (ticked (Suc k) s))"
  by (simp_all add: ticked_def upd_proc_def timerHandler_def Let_def algebra_simps)

lemma timer_ticks_slice:
  "int k < sint (p_counter (PROC s (CURRENT s))) \<Longrightarrow> timer_ticks k n s = Inr (ticked k s)"
proof (induction k)
  case 0
  then show ?case by (simp add: ticked_def upd_proc_def)
next
  case (Suc k)
  then have "timer_ticks k n s = Inr (ticked k s)" by simp
  moreover have "sint (p_counter (PROC s (CURRENT s)) - of_nat (Suc k)) = sint (p_counter (PROC s (CURRENT s))) - int (Suc k)"
    using Suc.prems by (intro sint_minus_nat) simp
  ultimately show ?case using Suc.prems ticked_simps(3) [of "Suc k" s] by (simp add: ticked_simps(4) del: of_nat_Suc)
qed

lemma timer_ticks_end:
  assumes "int k = sint (p_counter (PROC s (CURRENT s)))" and "0 < k"
  shows "timer_ticks k n s = schedule n (ticked k s)"
proof -
  obtain j where j: "k = Suc j" using assms(2) by (cases k) auto
  have "timer_ticks j n s = Inr (ticked j s)" using assms(1) j by (intro timer_ticks_slice) simp
  moreover have "sint (p_counter (PROC s (CURRENT s)) - of_nat (Suc j)) = 0"
    using assms(1) j sint_minus_nat [of "Suc j"] by simp
  ultimately show ?thesis using j ticked_simps(3) [of "Suc j" s] by (simp add: ticked_simps(4) del: of_nat_Suc)
qed

subsection \<open>Sleeping\<close>

text \<open>A process that gives up the processor and the state the others leave when it gets it back.\<close>

definition back_to :: "u32 \<Rightarrow> 'a kernel_scheme \<Rightarrow> 'a kernel_scheme" where
  "back_to me s = s\<lparr>CURRENT := me\<rparr>"

definition asleep :: "wq \<Rightarrow> 'a kernel_scheme \<Rightarrow> 'a kernel_scheme" where
  "asleep q s = upd_proc (CURRENT s) (\<lambda>p. p\<lparr>p_state := TASK_UNINTERRUPTIBLE\<rparr>) (set_waitq q (CURRENT s) s)"

lemma sleepOn_resumes:
  assumes "CURRENT s \<noteq> tasks_array pf" and "schedule (pf_fuel pf) (asleep q s) = Inr s1"
    and "CURRENT s1 \<noteq> CURRENT s" and "pf_others pf s1 = Inr s2"
  shows "sleepOn pf q s = Inr (let t = set_waitq q (WAITQ s q) (back_to (CURRENT s) s2) in
    if WAITQ s q \<noteq> 0 then upd_proc (WAITQ s q) (\<lambda>p. p\<lparr>p_state := TASK_RUNNING\<rparr>) t else t)"
  using assms by (simp add: sleepOn_def reschedule_def asleep_def back_to_def Let_def set_waitq_def upd_proc_def)

subsection \<open>A state to try the properties on\<close>

text \<open>
  A second process in slot 1, at page 1026, with the region at 64 megabytes that \<open>memory_boot\<close> maps; the
  first process is at address 20000H.
\<close>

definition zero_inode :: minode where
  "zero_inode = \<lparr>i_mode = 0, i_uid = 0, i_size = 0, i_mtime = 0, i_gid = 0, i_nlinks = 0, i_zone = (\<lambda>_. 0),
     i_atime = 0, i_ctime = 0, i_dev = 0, i_num = 0, i_count = 0, i_lock = 0, i_dirt = 0, i_pipe = 0,
     i_mount = 0, i_seek = 0, i_update = 0\<rparr>"

definition zero_file :: ofile where
  "zero_file = \<lparr>f_mode = 0, f_flags = 0, f_count = 0, f_inode = 0, f_pos = 0\<rparr>"

definition second_process :: process where
  "second_process = (rebase 1 (first_process 0x402000))\<lparr>p_pid := 1\<rparr>"

definition process_boot :: kernel where
  "process_boot = memory.extend (memory_boot\<lparr>MEM_MAP := (MEM_MAP memory_boot)(1026 := 1)\<rparr>) (kernel.fields
     (\<lambda>i. if i = 0 then 0x20000 else if i = 1 then 0x402000 else 0) 0x402000 1
     (\<lambda>p. if p = 0x402000 then second_process else first_process p)
     (\<lambda>_. zero_file) (\<lambda>_. zero_inode) (\<lambda>_. 0))"

lemma process_boot_simps [simp]:
  "MEM_MAP process_boot = (MEM_MAP memory_boot)(1026 := 1)" "ram process_boot = ram memory_boot"
  "TASKS process_boot i = (if i = 0 then 0x20000 else if i = 1 then 0x402000 else 0)"
  "CURRENT process_boot = 0x402000" "last_pid process_boot = 1"
  "PROC process_boot p = (if p = 0x402000 then second_process else first_process p)"
  "WAITQ process_boot q = 0"
  by (simp_all add: process_boot_def memory.defs kernel.defs)

lemma second_process_simps [simp]:
  "p_state second_process = 0" "p_counter second_process = 15" "p_priority second_process = 15"
  "p_pid second_process = 1" "p_state (first_process a) = 0" "p_counter (first_process a) = 15"
  "p_priority (first_process a) = 15" "p_pid (first_process a) = 0"
  by (simp_all add: second_process_def first_process_def rebase_def zero_process_def)

lemma second_process_ldt:
  "getDescBase (p_ldt second_process 1) = 0x4000000" "getDescBase (p_ldt second_process 2) = 0x4000000"
  "getDescLimit (p_ldt second_process 2) = 0x9FFFF"
  by (simp_all add: second_process_def first_process_def rebase_def getDescLimit_setGdtDesc)

lemma process_boot_free: "page_addr i \<in> free_frames process_boot" if "1027 \<le> i" "i < 8192"
  unfolding free_frames_def mem_Collect_eq by (intro exI [of _ i]) (use that in auto)

lemma process_boot_frames:
  "page_addr 2000 \<in> free_frames process_boot" "page_addr 2001 \<in> free_frames process_boot"
  "page_addr 2000 \<noteq> page_addr 2001" "\<not> is_singleton (free_frames process_boot)" "free_frames process_boot \<noteq> {}"
proof -
  show f: "page_addr 2000 \<in> free_frames process_boot" "page_addr 2001 \<in> free_frames process_boot"
    by (rule process_boot_free; simp)+
  show d: "page_addr 2000 \<noteq> page_addr 2001" by (simp add: page_addr_inj)
  show "\<not> is_singleton (free_frames process_boot)" using f d by (metis is_singletonE singletonD)
  show "free_frames process_boot \<noteq> {}" using f by blast
qed

lemma process_boot_current: "0x402000 \<notin> free_frames process_boot"
proof
  assume "0x402000 \<in> free_frames process_boot"
  then obtain i where "i < 8192" "0x402000 = page_addr i" "MEM_MAP process_boot i = 0" by (auto simp: free_frames_def)
  moreover have "(0x402000 :: u32) = page_addr 1026" by (simp add: page_addr_def)
  ultimately have "i = 1026" by (simp add: page_addr_inj)
  then show False using \<open>MEM_MAP process_boot i = 0\<close> by simp
qed

subsection \<open>The properties of scheduling\<close>

text \<open>C16. \<open>schedule\<close> needs at most two rounds when the priorities of the runnable tasks are positive. If no
  runnable task has a time slice left over from a negative one, it switches to task 0; if one has a
  positive slice, to the task with the longest slice, the lowest slot first; if all slices are used up, it
  renews every slice from the priority and switches to the task with the highest one.\<close>

theorem schedule_choice:
  assumes "ram s 0 \<noteq> 1" and "\<And>i. runnable s i \<Longrightarrow> 0 < sint (p_priority (PROC s (TASKS s i)))"
  shows "(if \<forall>i. runnable s i \<longrightarrow> tslice s i < 0 then schedule (2 + n) s = Inr (SWITCH_TO 0 s)
    else if \<exists>i. runnable s i \<and> 0 < tslice s i
      then \<exists>i. longest_slice s i \<and> schedule (2 + n) s = Inr (SWITCH_TO i s)
    else \<exists>i. longest_slice (refill s) i \<and> schedule (2 + n) s = Inr (SWITCH_TO i (refill s)) \<and>
      (\<forall>j. runnable s j \<longrightarrow> tslice (refill s) j = sint (p_priority (PROC s (TASKS s j)))))"
proof -
  consider (idle) "\<forall>i. runnable s i \<longrightarrow> tslice s i < 0"
    | (slice) i where "runnable s i" "0 < tslice s i"
    | (used) i where "runnable s i" "0 \<le> tslice s i" "\<not> (\<exists>i. runnable s i \<and> 0 < tslice s i)"
    by (metis not_less)
  then show ?thesis
  proof cases
    case idle
    then show ?thesis using schedule_idle [OF idle assms(1), of "Suc n"] by simp
  next
    case slice
    then obtain k where k: "longest_slice s k" "tslice s i \<le> tslice s k"
      using longest_slice_exists [of s i] by auto
    then have "schedule (2 + n) s = Inr (SWITCH_TO k s)"
      using schedule_longest [OF k(1) _ assms(1), of "Suc n"] slice(2) by simp
    then show ?thesis using k(1) slice by (metis less_asym)
  next
    case used
    then obtain k where k: "longest_slice s k" using longest_slice_exists [of s i] by auto
    then have z: "tslice s k = 0" using used(3) unfolding longest_slice_def by force
    have rk: "runnable (refill s) k" using k by (simp add: longest_slice_def refill_runnable)
    have "0 < tslice (refill s) k" using assms(2) [of k] rk refill_slice [of s k] by (simp add: refill_runnable)
    then obtain m where m: "longest_slice (refill s) m" "0 < tslice (refill s) m"
      using longest_slice_exists [OF rk] by force
    have "schedule_loop (2 + n) s = schedule_loop (Suc n) (refill s)"
      using schedule_loop_refill [OF k z, of "Suc n"] by simp
    also have "\<dots> = Inr (m, refill s)"
      using m sint_eq_0 [of "p_counter (PROC (refill s) (TASKS (refill s) m))"]
      by (auto simp: pick_longest tslice_def)
    finally have "schedule (2 + n) s = Inr (SWITCH_TO m (refill s))" using assms(1) by (simp add: schedule_inert)
    then show ?thesis using m(1) used refill_slice by (metis not_less)
  qed
qed

lemma process_boot_runnable: "runnable process_boot i \<longleftrightarrow> i = 1"
  by (auto simp: runnable_def)

theorem schedule_choice_witness:
  "schedule 2 process_boot = Inr process_boot"
proof -
  have "\<exists>i. longest_slice process_boot i \<and> schedule (2 + 0) process_boot = Inr (SWITCH_TO i process_boot)"
    using schedule_choice [of process_boot 0] by (auto simp: process_boot_runnable tslice_def)
  then show ?thesis by (auto simp: longest_slice_def process_boot_runnable SWITCH_TO_def)
qed

text \<open>C39. When the slices of the runnable tasks are used up and the highest priority among them is zero,
  \<open>schedule\<close> renews them for ever, though task 0 could run.\<close>

theorem schedule_livelock:
  assumes "ram s 0 \<noteq> 1" and "runnable s i" and "tslice s i = 0" and "p_priority (PROC s (TASKS s i)) = 0"
    and "\<And>j. runnable s j \<Longrightarrow> tslice s j \<le> 0 \<and> sint (p_priority (PROC s (TASKS s j))) \<le> 0"
  shows "schedule n s = Inl NoFuel"
proof -
  obtain k where k: "longest_slice s k" "tslice s i \<le> tslice s k"
    using longest_slice_exists [OF assms(2)] assms(3) by auto
  then have z: "tslice s k = 0" using assms(3,5) unfolding longest_slice_def by force
  have ri: "runnable (refill s) i" "0 \<le> tslice (refill s) i"
    using assms(2,4) by (simp_all add: refill_runnable refill_slice)
  then obtain m where m: "longest_slice (refill s) m" "tslice (refill s) i \<le> tslice (refill s) m"
    using longest_slice_exists by blast
  then have "tslice (refill s) m = 0"
    using assms(5) ri(2) unfolding longest_slice_def by (force simp: refill_runnable refill_slice)
  from livelock_loop [OF m(1) this] have "schedule_loop n' (refill s) = Inl NoFuel" for n' .
  then have "schedule_loop n s = Inl NoFuel"
    using schedule_loop_refill [OF k(1) z] by (cases n) simp_all
  then show ?thesis using assms(1) by (simp add: schedule_inert)
qed

definition spent :: "process \<Rightarrow> process" where
  "spent p = p\<lparr>p_counter := 0, p_priority := 0\<rparr>"

theorem schedule_livelock_witness:
  "\<forall>n. schedule n (upd_proc 0x402000 spent process_boot) = Inl NoFuel"
proof
  fix n
  have "runnable (upd_proc 0x402000 spent process_boot) i \<longleftrightarrow> i = 1" for i
    by (auto simp: runnable_def upd_proc_def spent_def)
  then show "schedule n (upd_proc 0x402000 spent process_boot) = Inl NoFuel"
    by (intro schedule_livelock [of _ 1]) (auto simp: upd_proc_def spent_def tslice_def)
qed

text \<open>\<open>schedule\<close> changes no process's state: the test of the signals is inverted, so a process that
  waits for a signal is never made runnable by one.\<close>

theorem schedule_ignores_signals:
  assumes "schedule n s = Inr s'"
  shows "p_state (PROC s' p) = p_state (PROC s p)"
  using schedule_frame [OF assms] by (simp add: same_tasks_def)

definition signalled :: "process \<Rightarrow> process" where
  "signalled p = p\<lparr>p_state := 1, p_signal := 2\<rparr>"

theorem schedule_ignores_signals_witness:
  "\<exists>s'. schedule 2 (upd_proc 0x402000 signalled process_boot) = Inr s' \<and> p_state (PROC s' 0x402000) = 1 \<and>
    CURRENT s' = 0x20000"
proof -
  let ?s = "upd_proc 0x402000 signalled process_boot"
  have "\<not> runnable ?s i" for i by (simp add: runnable_def upd_proc_def signalled_def)
  then have r: "schedule (Suc 1) ?s = Inr (SWITCH_TO 0 ?s)" by (intro schedule_idle) (simp_all add: upd_proc_def)
  have "p_state (PROC ?s 0x402000) = 1" by (simp add: upd_proc_def signalled_def)
  then show ?thesis using r schedule_ignores_signals [OF r, of "0x402000"]
    by (simp add: numeral_2_eq_2 SWITCH_TO_def upd_proc_def)
qed

text \<open>A running process keeps the processor for as many timer ticks as its time slice says: before that
  a tick only counts, and the last one calls \<open>schedule\<close> with the slice used up.\<close>

theorem timer_slice:
  assumes "int k \<le> sint (p_counter (PROC s (CURRENT s)))" and "0 < k"
  shows "timer_ticks k n s =
    (if int k < sint (p_counter (PROC s (CURRENT s))) then Inr (ticked k s) else schedule n (ticked k s)) \<and>
    CURRENT (ticked k s) = CURRENT s \<and> TICKS (ticked k s) = TICKS s + of_nat k \<and>
    sint (p_counter (PROC (ticked k s) (CURRENT s))) = sint (p_counter (PROC s (CURRENT s))) - int k"
  using timer_ticks_slice [of k s n] timer_ticks_end [of k s n] assms sint_minus_nat [OF assms(1)]
  by (simp add: ticked_simps(1-3))

theorem timer_slice_witness:
  "timer_ticks 14 1 process_boot = Inr (ticked 14 process_boot) \<and>
   timer_ticks 15 1 process_boot = schedule 1 (ticked 15 process_boot)"
  using timer_slice [of 14 process_boot 1] timer_slice [of 15 process_boot 1] by simp

text \<open>C33. When a process is switched back after it has slept, \<open>sleepOn\<close> puts the queue back to what it was before: a
  process that has gone to sleep on the queue in the meantime is still asleep, but no wake-up of the queue
  reaches it any more.\<close>

theorem sleepOn_forgets:
  assumes "CURRENT s \<noteq> tasks_array pf" and "schedule (pf_fuel pf) (asleep q s) = Inr s1"
    and "CURRENT s1 \<noteq> CURRENT s" and "pf_others pf s1 = Inr s2"
    and "WAITQ s2 q = c" and "c \<noteq> 0" and "c \<noteq> WAITQ s q" and "p_state (PROC s2 c) = 2"
  shows "\<exists>s'. sleepOn pf q s = Inr s' \<and> WAITQ s' q = WAITQ s q \<and> p_state (PROC s' c) = 2 \<and>
    p_state (PROC (wakeUp q s') c) = 2"
  using sleepOn_resumes [OF assms(1-4)] assms(5-8)
  by (auto simp: Let_def set_waitq_def upd_proc_def back_to_def wakeUp_def)

definition some_platform :: "('s \<Rightarrow> 's outcome) \<Rightarrow> 's platform" where
  "some_platform f = \<lparr>pf_dev = (\<lambda>_ _. 0), pf_bulk = (\<lambda>_ _ _. 0), pf_str = no_texts, pf_fuel = 4225,
     tasks_array = 0x10000, init_tasks = 0x20000, inode_table = 0x30000, pf_others = f, pf_esi = (\<lambda>_. 0)\<rparr>"

text \<open>The others: a process at 30000H goes to sleep on the same queue.\<close>

definition sleeps_too :: "kernel \<Rightarrow> kernel outcome" where
  "sleeps_too s = Inr (set_waitq BUFFER_WAIT 0x30000 (upd_proc 0x30000 (\<lambda>p. p\<lparr>p_state := 2\<rparr>) s))"

theorem sleepOn_forgets_witness:
  "\<exists>s'. sleepOn (some_platform sleeps_too) BUFFER_WAIT process_boot = Inr s' \<and>
    p_state (PROC (wakeUp BUFFER_WAIT s') 0x30000) = 2"
proof -
  let ?pf = "some_platform sleeps_too" and ?a = "asleep BUFFER_WAIT process_boot"
  have "\<not> runnable ?a i" for i by (simp add: runnable_def asleep_def upd_proc_def set_waitq_def)
  then have "schedule (Suc 4224) ?a = Inr (SWITCH_TO 0 ?a)"
    by (intro schedule_idle) (simp_all add: asleep_def upd_proc_def set_waitq_def)
  then have "schedule (pf_fuel ?pf) ?a = Inr (SWITCH_TO 0 ?a)" by (simp add: some_platform_def)
  from sleepOn_forgets [OF _ this, of _ "0x30000"]
  have "\<exists>s'. sleepOn ?pf BUFFER_WAIT process_boot = Inr s' \<and> WAITQ s' BUFFER_WAIT = WAITQ process_boot BUFFER_WAIT \<and>
      p_state (PROC s' 0x30000) = 2 \<and> p_state (PROC (wakeUp BUFFER_WAIT s') 0x30000) = 2"
    by (simp add: some_platform_def sleeps_too_def SWITCH_TO_def asleep_def upd_proc_def set_waitq_def)
  then show ?thesis by blast
qed

end
