(* ===== verification/Fork.thy ===== *)
theory Fork
  imports Sched
begin

section \<open>Creating processes\<close>

text \<open>
  The search for a process number and a slot, \<open>copyProcess\<close> on its three outcomes and with a shared region
  of memory.
\<close>

subsection \<open>Memory management leaves the processes alone\<close>

definition only_memory :: "'a memory_scheme \<Rightarrow> 'a memory_scheme \<Rightarrow> bool" where
  "only_memory s s' \<longleftrightarrow> s' = s\<lparr>MEM_MAP := MEM_MAP s', ram := ram s', cr3 := cr3 s'\<rparr>"

lemma only_memory_refl [simp]: "only_memory s s"
  by (simp add: only_memory_def)

lemma only_memory_trans [trans]: "only_memory s t \<Longrightarrow> only_memory t u \<Longrightarrow> only_memory s u"
proof -
  assume a: "only_memory s t" and b: "only_memory t u"
  have t: "t\<lparr>MEM_MAP := x, ram := y, cr3 := z\<rparr> = s\<lparr>MEM_MAP := x, ram := y, cr3 := z\<rparr>" for x y z
    by (subst a [unfolded only_memory_def]) simp
  show ?thesis using b unfolding only_memory_def t .
qed

lemma only_memory_updates [simp]:
  "only_memory s (s\<lparr>MEM_MAP := m\<rparr>)" "only_memory s (s\<lparr>ram := r\<rparr>)" "only_memory s (s\<lparr>cr3 := c\<rparr>)"
  "only_memory s (poke a v s)" "only_memory s (loadCR3 d s)"
  by (simp_all add: only_memory_def poke_def loadCR3_def)

lemma only_memory_clear: "only_memory s (clear_words n a s)"
proof (induction n arbitrary: a s)
  case (Suc n)
  have "only_memory s (poke a 0 s)" by simp
  also have "only_memory \<dots> (clear_words n (a + 4) (poke a 0 s))" by (rule Suc.IH)
  finally show ?case by simp
qed simp

lemma only_memory_getFreePage: "getFreePage s = (a, s') \<Longrightarrow> only_memory s s'"
  using only_memory_trans [OF only_memory_updates(1) only_memory_clear]
  by (auto simp: getFreePage_def Let_def split: option.splits)

lemma only_memory_map_add: "map_add i d s = Inr s' \<Longrightarrow> only_memory s s'"
  by (auto simp: map_add_def split: if_splits)

lemma only_memory_freePage: "freePage a s = Inr s' \<Longrightarrow> only_memory s s'"
  by (auto simp: freePage_def Let_def split: if_splits)

lemma only_memory_copy_entries: "copy_entries n a b s = Inr s' \<Longrightarrow> only_memory s s'"
proof (induction n arbitrary: a b s)
  case (Suc n)
  show ?case
  proof (cases "ram s a AND PG_P = 0")
    case True
    then show ?thesis using Suc by simp
  next
    case False
    let ?e = "ram s a AND NOT 2"
    have p: "only_memory s (poke b ?e s)" by simp
    show ?thesis
    proof (cases "?e > KERNEL_MEM")
      case True
      obtain t where t: "map_add (drop_bit 12 ?e) 1 (poke a ?e (poke b ?e s)) = Inr t"
        "copy_entries n (a + 4) (b + 4) t = Inr s'"
        using Suc.prems False True by (auto simp: Let_def)
      have "only_memory s (poke a ?e (poke b ?e s))"
        using p only_memory_updates(4) by (rule only_memory_trans)
      also note only_memory_map_add [OF t(1)]
      also note Suc.IH [OF t(2)]
      finally show ?thesis .
    next
      case gt: False
      then have "copy_entries n (a + 4) (b + 4) (poke b ?e s) = Inr s'"
        using Suc.prems False by (auto simp: Let_def)
      from Suc.IH [OF this] p show ?thesis by (blast intro: only_memory_trans)
    qed
  qed
qed simp

lemma only_memory_copy_dirs: "copy_dirs n src a b s = Inr (ok, s') \<Longrightarrow> only_memory s s'"
proof (induction n arbitrary: a b s)
  case (Suc n)
  consider (stop) "s' = s" | (skip) "copy_dirs n src (a + 4) (b + 4) s = Inr (ok, s')"
    | (none) "snd (getFreePage s) = s'"
    | (copy) t v u cnt tab where "getFreePage s = (tab, t)" "u = poke b v t"
        "andThen (copy_entries cnt (0xFFFFF000 AND ram s a) tab u) (copy_dirs n src (a + 4) (b + 4)) = Inr (ok, s')"
    using Suc.prems by (auto simp: Let_def split: if_splits prod.splits)
  then show ?case
  proof cases
    case none
    then show ?thesis using only_memory_getFreePage [of s] by (metis prod.collapse)
  next
    case copy
    then obtain w where w: "copy_entries cnt (0xFFFFF000 AND ram s a) tab u = Inr w"
      "copy_dirs n src (a + 4) (b + 4) w = Inr (ok, s')" by auto
    note only_memory_getFreePage [OF copy(1)]
    also have "only_memory t u" using copy(2) by simp
    also note only_memory_copy_entries [OF w(1)]
    also note Suc.IH [OF w(2)]
    finally show ?thesis .
  qed (use Suc.IH in auto)
qed simp

lemma only_memory_copyPageTables: "copyPageTables d a l s = Inr (v, s') \<Longrightarrow> only_memory s s'"
  by (auto simp: copyPageTables_def split: if_splits
      intro: only_memory_copy_dirs only_memory_trans [OF only_memory_copy_dirs])

lemma only_memory_free_entries: "free_entries n a s = Inr s' \<Longrightarrow> only_memory s s'"
proof (induction n arbitrary: a s)
  case (Suc n)
  then obtain t where t: "(if ram s a AND PG_P \<noteq> 0 then freePage (0xFFFFF000 AND ram s a) s else Inr s) = Inr t"
    "free_entries n (a + 4) (poke a 0 t) = Inr s'" by auto
  have "only_memory s t" using t(1) by (auto intro: only_memory_freePage split: if_splits)
  also have "only_memory t (poke a 0 t)" by simp
  also note Suc.IH [OF t(2)]
  finally show ?case .
qed simp

lemma only_memory_free_dirs: "free_dirs n a s = Inr s' \<Longrightarrow> only_memory s s'"
proof (induction n arbitrary: a s)
  case (Suc n)
  show ?case
  proof (cases "PG_P AND ram s a = 0")
    case False
    with Suc.prems obtain t u where t: "free_entries 1024 (0xFFFFF000 AND ram s a) s = Inr t"
      "freePage (0xFFFFF000 AND ram t a) t = Inr u" "free_dirs n (a + 4) (poke a 0 u) = Inr s'"
      by (auto simp del: free_entries.simps)
    note only_memory_free_entries [OF t(1)]
    also note only_memory_freePage [OF t(2)]
    also have "only_memory u (poke a 0 u)" by simp
    also note Suc.IH [OF t(3)]
    finally show ?thesis .
  qed (use Suc in simp)
qed simp

lemma only_memory_freePageTables: "freePageTables a l s = Inr (v, s') \<Longrightarrow> only_memory s s'"
  by (auto simp: freePageTables_def split: if_splits
      intro: only_memory_trans [OF only_memory_free_dirs])

lemma only_memory_kernel:
  assumes "only_memory s s'"
  shows "TASKS s' = TASKS s" "CURRENT s' = CURRENT s" "last_pid s' = last_pid s" "PROC s' = PROC s"
    "FILES s' = FILES s" "INODES s' = INODES s" "WAITQ s' = WAITQ s" "GDT s' = GDT s" "TICKS s' = TICKS s"
  using arg_cong [OF assms [unfolded only_memory_def], of TASKS] arg_cong [OF assms [unfolded only_memory_def], of CURRENT]
    arg_cong [OF assms [unfolded only_memory_def], of last_pid] arg_cong [OF assms [unfolded only_memory_def], of PROC]
    arg_cong [OF assms [unfolded only_memory_def], of FILES] arg_cong [OF assms [unfolded only_memory_def], of INODES]
    arg_cong [OF assms [unfolded only_memory_def], of WAITQ] arg_cong [OF assms [unfolded only_memory_def], of GDT]
    arg_cong [OF assms [unfolded only_memory_def], of TICKS] by simp_all

subsection \<open>Unused process numbers\<close>

definition used_pids :: "'a kernel_scheme \<Rightarrow> u32 set" where
  "used_pids s = {p_pid (PROC s (TASKS s i)) | i. i < NR_TASKS \<and> TASKS s i \<noteq> 0}"

lemma used_pids_last_pid [simp]: "used_pids (s\<lparr>last_pid := v\<rparr>) = used_pids s"
  by (simp add: used_pids_def)

lemma pid_scan_fresh:
  "last_pid s \<notin> used_pids s \<Longrightarrow> i \<le> 64 \<Longrightarrow> 64 < n + i \<Longrightarrow> pid_scan n i s = Inr s"
proof (induction n arbitrary: i)
  case (Suc n)
  then show ?case by (cases "i = 64") (auto simp: used_pids_def)
qed simp

lemma pid_scan_hit:
  "j < 64 \<Longrightarrow> i \<le> j \<Longrightarrow> TASKS s j \<noteq> 0 \<Longrightarrow> p_pid (PROC s (TASKS s j)) = last_pid s \<Longrightarrow> 64 < n + i \<Longrightarrow>
   \<exists>n' \<ge> n - (64 - i). pid_scan n i s = pid_scan n' 0 (s\<lparr>last_pid := last_pid s + 1\<rparr>)"
proof (induction n arbitrary: i)
  case (Suc n)
  show ?case
  proof (cases "TASKS s i \<noteq> 0 \<and> p_pid (PROC s (TASKS s i)) = last_pid s")
    case True
    then have "pid_scan (Suc n) i s = pid_scan n 0 (s\<lparr>last_pid := last_pid s + 1\<rparr>)"
      using Suc.prems by simp
    moreover have "n \<ge> Suc n - (64 - i)" using Suc.prems by simp
    ultimately show ?thesis by blast
  next
    case False
    then have ne: "i \<noteq> j" and e: "pid_scan (Suc n) i s = pid_scan n (i + 1) s" using Suc.prems by auto
    then have "i + 1 \<le> j" "64 < n + (i + 1)" using Suc.prems by auto
    from Suc.IH [OF Suc.prems(1) this(1) Suc.prems(3,4) this(2)] obtain n' where
      "n' \<ge> n - (64 - (i + 1))" "pid_scan n (i + 1) s = pid_scan n' 0 (s\<lparr>last_pid := last_pid s + 1\<rparr>)" by blast
    moreover have "n - (64 - (i + 1)) = Suc n - (64 - i)" using ne Suc.prems by simp
    ultimately show ?thesis using e by auto
  qed
qed simp

lemma pid_scan_finds:
  "last_pid s + of_nat m \<notin> used_pids s \<Longrightarrow> \<forall>k < m. last_pid s + of_nat k \<in> used_pids s \<Longrightarrow>
   65 * (m + 1) \<le> n \<Longrightarrow> pid_scan n 0 s = Inr (s\<lparr>last_pid := last_pid s + of_nat m\<rparr>)"
proof (induction m arbitrary: n s)
  case 0
  then show ?case using pid_scan_fresh [of s 0 n] by simp
next
  case (Suc m)
  have "last_pid s + of_nat 0 \<in> used_pids s" using Suc.prems(2) by blast
  then obtain j where j: "j < 64" "TASKS s j \<noteq> 0" "p_pid (PROC s (TASKS s j)) = last_pid s"
    by (auto simp: used_pids_def)
  from pid_scan_hit [OF j(1) _ j(2,3), of 0 n] Suc.prems(3) obtain n' where
    n': "n' \<ge> n - 64" "pid_scan n 0 s = pid_scan n' 0 (s\<lparr>last_pid := last_pid s + 1\<rparr>)" by auto
  let ?s = "s\<lparr>last_pid := last_pid s + 1\<rparr>"
  have sh: "last_pid ?s + of_nat k = last_pid s + of_nat (Suc k)" for k by simp
  have "pid_scan n' 0 ?s = Inr (?s\<lparr>last_pid := last_pid ?s + of_nat m\<rparr>)"
  proof (rule Suc.IH)
    show "last_pid ?s + of_nat m \<notin> used_pids ?s" using Suc.prems(1) unfolding sh by simp
    have "last_pid s + of_nat (Suc k) \<in> used_pids s" if "k < m" for k using Suc.prems(2) that by blast
    then show "\<forall>k < m. last_pid ?s + of_nat k \<in> used_pids ?s" unfolding sh used_pids_last_pid by blast
    show "65 * (m + 1) \<le> n'" using n'(1) Suc.prems(3) by simp
  qed
  then show ?case using n'(2) unfolding sh by simp
qed

lemma used_pids_card: "finite (used_pids s)" "card (used_pids s) \<le> 64"
proof -
  have sub: "used_pids s \<subseteq> (\<lambda>i. p_pid (PROC s (TASKS s i))) ` {..<64}" by (auto simp: used_pids_def)
  then show "finite (used_pids s)" by (rule finite_subset) simp
  have "card (used_pids s) \<le> card ((\<lambda>i. p_pid (PROC s (TASKS s i))) ` {..<64})"
    using sub by (intro card_mono) auto
  also have "\<dots> \<le> 64" using card_image_le [of "{..<64}" "\<lambda>i. p_pid (PROC s (TASKS s i))"] by simp
  finally show "card (used_pids s) \<le> 64" .
qed

lemma unused_pid:
  obtains m where "m \<le> 64" "a + of_nat m \<notin> used_pids s" "\<forall>k < m. a + of_nat k \<in> used_pids s"
proof -
  have "\<exists>m \<le> 64. a + of_nat m \<notin> used_pids s"
  proof (rule ccontr)
    assume "\<not> ?thesis"
    then have sub: "(\<lambda>m. a + of_nat m) ` {..64} \<subseteq> used_pids s" by auto
    have "inj_on (\<lambda>m. a + of_nat m :: u32) {..64}"
    proof (rule inj_onI)
      fix x y assume xy: "x \<in> {..64}" "y \<in> {..64}" "a + of_nat x = (a + of_nat y :: u32)"
      from xy(3) have "(of_nat x :: u32) = of_nat y" by (rule add_left_imp_eq)
      then have "unat (of_nat x :: u32) = unat (of_nat y :: u32)" by (rule arg_cong)
      moreover have "unat (of_nat x :: u32) = x" using xy(1) by (intro unat_of_nat_u32) simp
      moreover have "unat (of_nat y :: u32) = y" using xy(2) by (intro unat_of_nat_u32) simp
      ultimately show "x = y" by argo
    qed
    from card_image [OF this] have "card ((\<lambda>m. a + of_nat m :: u32) ` {..64}) = 65"
      unfolding card_atMost by (rule trans) simp
    moreover note card_mono [OF used_pids_card(1) sub] used_pids_card(2) [of s]
    ultimately show False by linarith
  qed
  then obtain m0 where m0: "m0 \<le> 64" "a + of_nat m0 \<notin> used_pids s" by blast
  define m where "m = (LEAST m. a + of_nat m \<notin> used_pids s)"
  have "a + of_nat m \<notin> used_pids s" unfolding m_def using m0(2) by (rule LeastI)
  moreover have "m \<le> 64" unfolding m_def using m0 Least_le [of "\<lambda>m. a + of_nat m \<notin> used_pids s" m0] by simp
  moreover have "\<forall>k < m. a + of_nat k \<in> used_pids s" unfolding m_def using not_less_Least by blast
  ultimately show ?thesis using that by blast
qed

lemma free_slot_cases:
  "(\<exists>i < NR_TASKS. free_slot s = of_nat i \<and> TASKS s i = 0 \<and> (\<forall>j < i. TASKS s j \<noteq> 0)) \<or>
   free_slot s = - 1 \<and> (\<forall>i < NR_TASKS. TASKS s i \<noteq> 0)"
proof (cases "find (\<lambda>i. TASKS s i = 0) [0..<NR_TASKS]")
  case None
  then have "\<forall>i < NR_TASKS. TASKS s i \<noteq> 0" by (auto simp: find_None_iff simp del: upt_Suc)
  moreover have "free_slot s = - 1" by (simp add: free_slot_def None)
  ultimately show ?thesis by blast
next
  case (Some i)
  then obtain k where "k < 64" "TASKS s k = 0" "i = k" "\<forall>j < k. TASKS s j \<noteq> 0"
    by (auto simp: find_Some_iff simp del: upt_Suc)
  moreover have "free_slot s = of_nat i" by (simp add: free_slot_def Some)
  ultimately show ?thesis by blast
qed

lemma findEmptyProcess_result:
  obtains m s' where "findEmptyProcess (4225 + n) s = Inr (free_slot s, s')"
    "s' = s\<lparr>last_pid := last_pid s + 1 + of_nat m\<rparr>" "last_pid s' \<notin> used_pids s"
    "\<forall>k < m. last_pid s + 1 + of_nat k \<in> used_pids s" "m \<le> 64"
proof -
  let ?s = "s\<lparr>last_pid := last_pid s + 1\<rparr>"
  obtain m where m: "m \<le> 64" "last_pid ?s + of_nat m \<notin> used_pids ?s"
    "\<forall>k < m. last_pid ?s + of_nat k \<in> used_pids ?s" using unused_pid [of "last_pid ?s" ?s] by blast
  have "65 * (m + 1) \<le> 4225 + n" using m(1) by simp
  from pid_scan_finds [OF m(2,3) this]
  have "findEmptyProcess (4225 + n) s = Inr (free_slot s, s\<lparr>last_pid := last_pid s + 1 + of_nat m\<rparr>)"
    by (simp add: findEmptyProcess_def free_slot_def)
  then show ?thesis using that m by simp
qed

subsection \<open>Copying a process\<close>

lemma copyMem_memory:
  assumes "copyMem nr p s = Inr (v, s')"
  obtains t where "t = s \<or> t = upd_proc p (rebase nr) s"
    "only_memory t s'"
proof (cases "getDescBase (p_ldt (PROC s (CURRENT s)) 1) = getDescBase (p_ldt (PROC s (CURRENT s)) 2)")
  case False
  then show ?thesis using assms that [of s] by (simp add: copyMem_def Let_def)
next
  case True
  define t where "t = upd_proc p (rebase nr) s"
  obtain r u where u: "copyPageTables (of_nat nr * 0x4000000) (getDescBase (p_ldt (PROC s (CURRENT s)) 2))
      (getDescLimit (p_ldt (PROC s (CURRENT s)) 2) + 1) t = Inr (r, u)"
    "(if r \<noteq> 0 then andThen (freePageTables (of_nat nr * 0x4000000) (getDescLimit (p_ldt (PROC s (CURRENT s)) 2)) u) (\<lambda>(_, s). Inr (- 1, s))
              else Inr (0, u)) = Inr (v, s')"
    using assms True by (auto simp: copyMem_def Let_def t_def upd_proc_def rebase_def)
  note only_memory_copyPageTables [OF u(1)]
  also have "only_memory u s'" using u(2) by (auto split: if_splits intro: only_memory_freePageTables)
  finally show ?thesis using that [of t] t_def by blast
qed

lemma share_fold:
  "TASKS (fold (share_file q) xs s) = TASKS s" "PROC (fold (share_file q) xs s) = PROC s"
  "CURRENT (fold (share_file q) xs s) = CURRENT s" "last_pid (fold (share_file q) xs s) = last_pid s"
  "GDT (fold (share_file q) xs s) = GDT s" "WAITQ (fold (share_file q) xs s) = WAITQ s"
  "MEM_MAP (fold (share_file q) xs s) = MEM_MAP s" "ram (fold (share_file q) xs s) = ram s"
  by (induction xs arbitrary: s) (simp_all add: share_file_def upd_file_def)

lemma share_inode_simps [simp]:
  "TASKS (share_inode i s) = TASKS s" "PROC (share_inode i s) = PROC s"
  "CURRENT (share_inode i s) = CURRENT s" "last_pid (share_inode i s) = last_pid s"
  "GDT (share_inode i s) = GDT s" "WAITQ (share_inode i s) = WAITQ s"
  "MEM_MAP (share_inode i s) = MEM_MAP s" "ram (share_inode i s) = ram s"
  by (simp_all add: share_inode_def upd_inode_def)

text \<open>What the two outcomes of \<open>copyProcess\<close> have in common, whatever the memory holds.\<close>

lemma copyProcess_cases:
  assumes "copyProcess nr r s = Inr (v, s')"
  obtains (none) "fst (getFreePage s) = 0" "v = - 1" "TASKS s' = TASKS s" "PROC s' = PROC s"
      "CURRENT s' = CURRENT s" "last_pid s' = last_pid s"
    | (undone) "fst (getFreePage s) \<noteq> 0" "v = - 1" "TASKS s' = (TASKS s)(nr := 0)"
      "\<forall>q. q \<noteq> fst (getFreePage s) \<longrightarrow> PROC s' q = PROC s q" "CURRENT s' = CURRENT s" "last_pid s' = last_pid s"
    | (child) "fst (getFreePage s) \<noteq> 0" "v = last_pid s" "TASKS s' = (TASKS s)(nr := fst (getFreePage s))"
      "\<forall>q. q \<noteq> fst (getFreePage s) \<longrightarrow> PROC s' q = PROC s q" "CURRENT s' = CURRENT s" "last_pid s' = last_pid s"
      "p_pid (PROC s' (fst (getFreePage s))) = last_pid s" "p_state (PROC s' (fst (getFreePage s))) = TASK_RUNNING"
proof -
  obtain p s1 where g: "getFreePage s = (p, s1)" by fastforce
  note m1 = only_memory_kernel [OF only_memory_getFreePage [OF g]]
  show ?thesis
  proof (cases "p = 0")
    case True
    then show ?thesis using assms g m1 by (intro none) (auto simp: copyProcess_def)
  next
    case False
    define s2 where "s2 = s1\<lparr>TASKS := (TASKS s1)(nr := p), PROC := (PROC s1)(p :=
        child_process nr p (last_pid s1) (TICKS s1) r (PROC s1 (CURRENT s1)))\<rparr>"
    have s2: "TASKS s2 = (TASKS s)(nr := p)" "\<forall>q. q \<noteq> p \<longrightarrow> PROC s2 q = PROC s q" "CURRENT s2 = CURRENT s"
      "last_pid s2 = last_pid s" "p_pid (PROC s2 p) = last_pid s"
      using m1 by (simp_all add: s2_def child_process_def)
    from assms g False obtain e s3 where e: "copyMem nr p s2 = Inr (e, s3)"
      "(if e \<noteq> 0 then andThen (freePage p (s3\<lparr>TASKS := (TASKS s3)(nr := 0)\<rparr>)) (\<lambda>s. Inr (- 1, s))
        else
          let s = fold (share_file (PROC s3 p)) [0..<NR_OPEN] s3;
              cur = PROC s (CURRENT s);
              s = share_inode (p_executable cur) (share_inode (p_root cur) (share_inode (p_pwd cur) s))
          in andThen (set_gdt (3 + 2 * nr) (TASKS s nr + 720) 104 DA_386TSS s) (\<lambda>s.
             andThen (set_gdt (4 + 2 * nr) (TASKS s nr + 696) 24 DA_LDT s) (\<lambda>s.
             Inr (last_pid s, upd_proc p (\<lambda>c. c\<lparr>p_state := TASK_RUNNING\<rparr>) s)))) = Inr (v, s')"
      unfolding copyProcess_def s2_def by (auto simp: Let_def)
    from e(1) obtain t where t: "t = s2 \<or> t = upd_proc p (rebase nr) s2" "only_memory t s3" by (rule copyMem_memory)
    note m3 = only_memory_kernel [OF t(2)]
    have s3: "TASKS s3 = (TASKS s)(nr := p)" "\<forall>q. q \<noteq> p \<longrightarrow> PROC s3 q = PROC s q" "CURRENT s3 = CURRENT s"
      "last_pid s3 = last_pid s" "p_pid (PROC s3 p) = last_pid s"
      using t(1) s2 unfolding m3 by (auto simp: upd_proc_def rebase_def)
    show ?thesis
    proof (cases "e = 0")
      case True
      then show ?thesis using e(2) s3 False g
        by (intro child) (auto simp: Let_def share_fold set_gdt_def upd_proc_def split: if_splits)
    next
      case ne: False
      with e(2) obtain u where u: "freePage p (s3\<lparr>TASKS := (TASKS s3)(nr := 0)\<rparr>) = Inr u" "v = - 1" "s' = u"
        by auto
      note m4 = only_memory_kernel [OF only_memory_freePage [OF u(1)]]
      show ?thesis using m4 s3 u(2,3) False g by (intro undone) auto
    qed
  qed
qed

lemma fork_ready_cong:
  "ram s' = ram s \<Longrightarrow> MEM_MAP s' = MEM_MAP s \<Longrightarrow> fork_ready d a l j s' = fork_ready d a l j s"
  by (simp add: fork_ready_def)

lemma free_frames_cong: "MEM_MAP s' = MEM_MAP s \<Longrightarrow> free_frames s' = free_frames s"
  by (simp add: free_frames_def)

lemma getFreePage_frame:
  assumes "mem_ok s" and "getFreePage s = (p, t)" and "p \<noteq> 0"
  obtains i where "0 < i" "i < PAGES_SIZE" "p = page_addr i" "MEM_MAP s i = 0" "MEM_MAP t = (MEM_MAP s)(i := 1)"
    "\<And>x. ram t x = (if x \<in> page_words i then 0 else ram s x)" "free_frames t = free_frames s - {p}" "p \<in> free_frames s"
proof -
  from assms obtain i where i: "0 < i" "i < PAGES_SIZE" "p = page_addr i" "MEM_MAP s i = 0"
    "MEM_MAP t = (MEM_MAP s)(i := 1)" "\<And>x. ram t x = (if x \<in> page_words i then 0 else ram s x)"
    by (rule getFreePage_Some) blast
  have "free_frames t = free_frames s - {p}"
    using i(2,3,5) page_addr_inj by (auto simp: free_frames_def split: if_splits)
  moreover have "p \<in> free_frames s" using i by (auto simp: free_frames_def)
  ultimately show ?thesis using that i by blast
qed

text \<open>Taking a page for something else leaves a region ready to be shared.\<close>

lemma fork_ready_alloc:
  assumes r: "fork_ready d a l j s" and g: "getFreePage s = (p, t)" and p: "p \<noteq> 0"
  shows "fork_ready d a l j t"
    "table (shared_entries a) (page_addr j) (ram t) = table (shared_entries a) (page_addr j) (ram s)"
proof -
  have ok: "mem_ok s" using r by (simp add: mem_ok_def fork_ready_def)
  from ok g p obtain i where i: "0 < i" "i < PAGES_SIZE" "p = page_addr i" "MEM_MAP s i = 0"
    "MEM_MAP t = (MEM_MAP s)(i := 1)" "\<And>x. ram t x = (if x \<in> page_words i then 0 else ram s x)"
    by (rule getFreePage_frame) blast
  have j: "j < PAGES_SIZE" "MEM_MAP s j \<noteq> 0" using r by (simp_all add: fork_ready_def)
  then have "page_words j \<inter> page_words i = {}" using page_words_disjoint [of j i] i(2,4) by auto
  moreover have "words (shared_entries a) (page_addr j) \<subseteq> page_words j" by (rule words_mono) simp
  ultimately have "words (shared_entries a) (page_addr j) \<inter> page_words i = {}" by blast
  then show tj: "table (shared_entries a) (page_addr j) (ram t) = table (shared_entries a) (page_addr j) (ram s)"
    by (intro table_cong) (auto simp: i(6) disjoint_iff simp del: words.simps)
  have dirs: "ram t (dir_addr d) = ram s (dir_addr d)" "ram t (dir_addr a) = ram s (dir_addr a)"
    using dir_addr_not_page [OF i(1,2)] by (simp_all add: i(6) del: words.simps)
  show "fork_ready d a l j t" using r unfolding fork_ready_def tj dirs i(5) by simp
qed

text \<open>
  What every fork needs besides free pages: the code and the data segment of the running process have the
  same base, its region and that of slot \<open>nr\<close> are ready to be shared, with the page table in page \<open>j\<close>, and
  its control block is not in a free page.
\<close>

abbreviation (input) data_base :: "'a kernel_scheme \<Rightarrow> u32" where
  "data_base s \<equiv> getDescBase (p_ldt (PROC s (CURRENT s)) 2)"

definition can_fork :: "nat \<Rightarrow> nat \<Rightarrow> 'a kernel_scheme \<Rightarrow> bool" where
  "can_fork nr j s \<longleftrightarrow>
     nr < NR_TASKS \<and> CURRENT s \<notin> free_frames s \<and>
     getDescBase (p_ldt (PROC s (CURRENT s)) 1) = data_base s \<and>
     fork_ready (of_nat nr * 0x4000000) (data_base s) (getDescLimit (p_ldt (PROC s (CURRENT s)) 2) + 1) j s"

text \<open>
  What a fork does to the memory, \<open>p\<close> the page of the child's control block: the page directory gets an
  entry for the child's page table, in page \<open>i\<close>, which holds the parent's shared entries without the write
  permission, then zeros. The parent's entries for counted pages lose it as well. The two pages were free and
  have one owner now, each other page's count grows by the number of entries that map it, and no other word
  is stored; the rest of the page directory, at the addresses below 4096, is unchanged in particular.
\<close>

definition shares_memory :: "nat \<Rightarrow> u32 \<Rightarrow> nat \<Rightarrow> nat \<Rightarrow> 'a kernel_scheme \<Rightarrow> 'a kernel_scheme \<Rightarrow> bool" where
  "shares_memory nr p j i s s' \<longleftrightarrow>
     (let n = shared_entries (data_base s); es = table n (page_addr j) (ram s); k = frame_of p in
     p = page_addr k \<and> 0 < k \<and> k < PAGES_SIZE \<and> 0 < i \<and> i < PAGES_SIZE \<and> i \<noteq> k \<and> MEM_MAP s k = 0 \<and> MEM_MAP s i = 0 \<and>
     ram s' (dir_addr (of_nat nr * 0x4000000)) = page_addr i OR PG_P OR PG_RWW OR PG_USU \<and>
     table 1024 (page_addr i) (ram s') = map (\<lambda>e. child_entry e 0) es @ replicate (1024 - n) 0 \<and>
     table n (page_addr j) (ram s') = map parent_entry es \<and>
     (\<forall>x. x \<noteq> dir_addr (of_nat nr * 0x4000000) \<and> x \<notin> page_words k \<and> x \<notin> page_words i \<and> x \<notin> words n (page_addr j) \<longrightarrow>
       ram s' x = ram s x) \<and>
     (\<forall>x. unat x < 4096 \<and> x \<noteq> dir_addr (of_nat nr * 0x4000000) \<longrightarrow> ram s' x = ram s x) \<and>
     (\<forall>f. MEM_MAP s' f = (if f = i \<or> f = k then 1 else MEM_MAP s f) + of_nat (refs es f)))"

lemma shares_memory_cong:
  "ram t' = ram s' \<Longrightarrow> MEM_MAP t' = MEM_MAP s' \<Longrightarrow> shares_memory nr p j i s t' = shares_memory nr p j i s s'"
  by (simp only: shares_memory_def)

lemma shares_memory_last_pid: "shares_memory nr p j i (s\<lparr>last_pid := l\<rparr>) s' = shares_memory nr p j i s s'"
  by (simp add: shares_memory_def Let_def)

lemma directory_not_page: "unat x < 4096 \<Longrightarrow> 0 < i \<Longrightarrow> i < PAGES_SIZE \<Longrightarrow> x \<notin> page_words i"
  using page_words_nat [of i x] by auto

lemma copyMem_shares:
  assumes c: "can_fork nr j s" and g: "getFreePage s = (p, s1)" "p \<noteq> 0"
    and s2: "ram s2 = ram s1" "MEM_MAP s2 = MEM_MAP s1" "CURRENT s2 = CURRENT s"
      "PROC s2 (CURRENT s) = PROC s (CURRENT s)"
    and f: "free_frames s - {p} \<noteq> {}"
  obtains i s3 where "copyMem nr p s2 = Inr (0, s3)" "only_memory (upd_proc p (rebase nr) s2) s3"
    "shares_memory nr p j i s s3"
proof -
  let ?d = "of_nat nr * 0x4000000 :: u32" and ?a = "getDescBase (p_ldt (PROC s (CURRENT s)) 2)"
  let ?l = "getDescLimit (p_ldt (PROC s (CURRENT s)) 2)"
  have r: "fork_ready ?d ?a (?l + 1) j s" using c by (simp add: can_fork_def)
  then have ok: "mem_ok s" by (simp add: mem_ok_def fork_ready_def)
  define t where "t = upd_proc p (rebase nr) s2"
  have t: "ram t = ram s1" "MEM_MAP t = MEM_MAP s1" using s2 by (simp_all add: t_def upd_proc_def)
  have "fork_ready ?d ?a (?l + 1) j t"
    using fork_ready_alloc(1) [OF r g] by (simp only: fork_ready_cong [OF t])
  moreover have "free_frames t \<noteq> {}"
    using f getFreePage_frame [OF ok g] free_frames_cong [OF t(2)] by metis
  ultimately obtain i s3 where i: "copyPageTables ?d ?a (?l + 1) t = Inr (0, s3)" "fork_result ?d ?a j i t s3"
    using copyPageTables_shares by blast
  have e: "copyMem nr p s2 = Inr (0, s3)"
    using i(1) c s2(3,4) by (simp add: copyMem_def Let_def can_fork_def t_def upd_proc_def rebase_def)
  from ok g obtain k where k: "0 < k" "k < PAGES_SIZE" "p = page_addr k" "MEM_MAP s k = 0" "MEM_MAP s1 = (MEM_MAP s)(k := 1)"
      "\<And>x. ram s1 x = (if x \<in> page_words k then 0 else ram s x)"
    by (rule getFreePage_frame) blast
  have fp: "frame_of p = k" using drop_page_addr [of k] k(2,3) by (simp add: frame_of_def)
  have jw: "words (shared_entries ?a) (page_addr j) \<subseteq> page_words j" by (rule words_mono) simp
  note f = i(2) [unfolded fork_result_def t Let_def fork_ready_alloc(2) [OF r g]]
  have ik: "i \<noteq> k" "MEM_MAP s i = 0" using f k(5) by (auto split: if_splits)
  have out: "ram s3 x = ram s x" if "x \<noteq> dir_addr ?d" "x \<notin> page_words k" "x \<notin> page_words i"
      "x \<notin> words (shared_entries ?a) (page_addr j)" for x
  proof -
    have "ram s3 x = ram s1 x" using f that by blast
    then show ?thesis using that(2) by (simp only: k(6) if_False)
  qed
  have low: "ram s3 x = ram s x" if x: "unat x < 4096" "x \<noteq> dir_addr ?d" for x
  proof -
    have "x \<notin> page_words i" "x \<notin> page_words j" "x \<notin> page_words k"
      using i(2) k(1,2) r unfolding fork_result_def fork_ready_def Let_def
      by (simp_all only: directory_not_page [OF x(1)] not_False_eq_True)
    with jw show ?thesis using out x(2) by blast
  qed
  have counts: "MEM_MAP s3 x = (if x = i \<or> x = k then 1 else MEM_MAP s x) +
      of_nat (refs (table (shared_entries ?a) (page_addr j) (ram s)) x)" for x
    using f k(5) by simp
  have "shares_memory nr p j i s s3"
    using f out low counts k(1-4) ik unfolding shares_memory_def Let_def fp by blast
  with that e only_memory_copyPageTables [OF i(1)] show ?thesis unfolding t_def by blast
qed

definition child_of :: "nat \<Rightarrow> u32 \<Rightarrow> u32 \<Rightarrow> regs \<Rightarrow> 'a kernel_scheme \<Rightarrow> process" where
  "child_of nr p pid r s =
     (rebase nr (child_process nr p pid (TICKS s) r (PROC s (CURRENT s))))\<lparr>p_state := TASK_RUNNING\<rparr>"

lemma copyProcess_child:
  assumes c: "can_fork nr j s" and f: "\<not> is_singleton (free_frames s)" "free_frames s \<noteq> {}"
  shows "if nr < 62 then \<exists>p i s'. copyProcess nr r s = Inr (last_pid s, s') \<and> p \<in> free_frames s \<and>
      TASKS s' = (TASKS s)(nr := p) \<and> PROC s' = (PROC s)(p := child_of nr p (last_pid s) r s) \<and>
      GDT s' = (GDT s)(3 + 2 * nr := setGdtDesc (GDT s (3 + 2 * nr)) (p + 720) 104 DA_386TSS,
        4 + 2 * nr := setGdtDesc (GDT s (4 + 2 * nr)) (p + 696) 24 DA_LDT) \<and>
      CURRENT s' = CURRENT s \<and> last_pid s' = last_pid s \<and> shares_memory nr p j i s s'
    else copyProcess nr r s = Inl (Fault ''GDT'')"
proof -
  obtain p s1 where g: "getFreePage s = (p, s1)" by fastforce
  have ok: "mem_ok s" using c by (simp add: mem_ok_def fork_ready_def can_fork_def)
  have p0: "p \<noteq> 0" using pool.alloc_fails [OF ok, of s1] f(2) g by auto
  from getFreePage_frame [OF ok g p0] have pf: "p \<in> free_frames s" by metis
  have f2: "free_frames s - {p} \<noteq> {}" using f pf by (auto simp: is_singleton_def)
  have pc: "CURRENT s \<noteq> p" using c pf by (auto simp: can_fork_def)
  note m1 = only_memory_kernel [OF only_memory_getFreePage [OF g]]
  define s2 where "s2 = s1\<lparr>TASKS := (TASKS s1)(nr := p), PROC := (PROC s1)(p :=
      child_process nr p (last_pid s1) (TICKS s1) r (PROC s1 (CURRENT s1)))\<rparr>"
  have s2: "ram s2 = ram s1" "MEM_MAP s2 = MEM_MAP s1" "CURRENT s2 = CURRENT s"
    "PROC s2 (CURRENT s) = PROC s (CURRENT s)"
    using m1 pc by (simp_all add: s2_def)
  from c g p0 s2 f2 obtain i s3 where i: "copyMem nr p s2 = Inr (0, s3)"
    "only_memory (upd_proc p (rebase nr) s2) s3" "shares_memory nr p j i s s3"
    by (rule copyMem_shares)
  note m3 = only_memory_kernel [OF i(2)]
  let ?q = "child_process nr p (last_pid s) (TICKS s) r (PROC s (CURRENT s))"
  have s3: "TASKS s3 = (TASKS s)(nr := p)" "PROC s3 = (PROC s)(p := rebase nr ?q)" "CURRENT s3 = CURRENT s"
    "last_pid s3 = last_pid s" "GDT s3 = GDT s"
    unfolding m3 using m1 by (simp_all add: upd_proc_def s2_def)
  define s4 where "s4 = share_inode (p_executable (PROC s (CURRENT s))) (share_inode (p_root (PROC s (CURRENT s)))
      (share_inode (p_pwd (PROC s (CURRENT s))) (fold (share_file (PROC s3 p)) [0..<NR_OPEN] s3)))"
  have s4: "TASKS s4 = TASKS s3" "PROC s4 = PROC s3" "CURRENT s4 = CURRENT s3" "last_pid s4 = last_pid s3"
    "GDT s4 = GDT s3" "ram s4 = ram s3" "MEM_MAP s4 = MEM_MAP s3"
    by (simp_all add: s4_def share_fold del: upt_Suc)
  have e: "copyProcess nr r s = andThen (set_gdt (3 + 2 * nr) (p + 720) 104 DA_386TSS s4) (\<lambda>s.
       andThen (set_gdt (4 + 2 * nr) (p + 696) 24 DA_LDT s) (\<lambda>s.
       Inr (last_pid s, upd_proc p (\<lambda>c. c\<lparr>p_state := TASK_RUNNING\<rparr>) s)))"
    using g p0 i(1) s3 s4(1) pc by (simp add: copyProcess_def Let_def s2_def s4_def share_fold set_gdt_def del: upt_Suc)
  show ?thesis
  proof (cases "nr < 62")
    case True
    define s5 where "s5 = upd_proc p (\<lambda>c. c\<lparr>p_state := TASK_RUNNING\<rparr>)
      (s4\<lparr>GDT := (GDT s4)(3 + 2 * nr := setGdtDesc (GDT s4 (3 + 2 * nr)) (p + 720) 104 DA_386TSS,
        4 + 2 * nr := setGdtDesc (GDT s4 (4 + 2 * nr)) (p + 696) 24 DA_LDT)\<rparr>)"
    have "copyProcess nr r s = Inr (last_pid s, s5)"
      unfolding e using True s3 s4 by (simp add: set_gdt_def s5_def upd_proc_def)
    moreover have "ram s5 = ram s3" "MEM_MAP s5 = MEM_MAP s3" using s4(6,7) by (simp_all add: s5_def upd_proc_def)
    then have "shares_memory nr p j i s s5" using i(3) shares_memory_cong by blast
    moreover have "TASKS s5 = (TASKS s)(nr := p)" "CURRENT s5 = CURRENT s" "last_pid s5 = last_pid s"
      "PROC s5 = (PROC s)(p := child_of nr p (last_pid s) r s)"
      "GDT s5 = (GDT s)(3 + 2 * nr := setGdtDesc (GDT s (3 + 2 * nr)) (p + 720) 104 DA_386TSS,
        4 + 2 * nr := setGdtDesc (GDT s (4 + 2 * nr)) (p + 696) 24 DA_LDT)"
      using s3 s4 by (simp_all add: s5_def upd_proc_def child_of_def)
    ultimately show ?thesis using True pf by auto
  next
    case False
    then have "copyProcess nr r s = Inl (Fault ''GDT'')"
      unfolding e by (cases "nr = 62") (auto simp: set_gdt_def)
    then show ?thesis using False by simp
  qed
qed

text \<open>When a page for the child's control block is left but none for its page table, the fork is undone.\<close>

lemma dir_count_pred: "dir_count (l + 1) = 1 \<Longrightarrow> dir_count l \<le> 1"
proof -
  assume "dir_count (l + 1) = 1"
  then have d: "unat (l + 1 + 0x3FFFFF) div 4194304 = 1" by (simp add: dir_count_def drop_bit_eq_div unat_div)
  then have b: "4194304 \<le> unat (l + 1 + 0x3FFFFF)" "unat (l + 1 + 0x3FFFFF) < 8388608" by linarith+
  have "l + 0x3FFFFF = (l + 1 + 0x3FFFFF) - 1" by simp
  moreover have "(1 :: u32) \<le> l + 1 + 0x3FFFFF" using b(1) by (simp add: word_le_nat_alt)
  ultimately have "unat (l + 0x3FFFFF) = unat (l + 1 + 0x3FFFFF) - 1"
    using unat_minus_small [of 1 "l + 1 + 0x3FFFFF"] by (simp add: add.commute)
  then show ?thesis using b by (simp add: dir_count_def drop_bit_eq_div unat_div)
qed

lemma copyProcess_undone:
  assumes c: "can_fork nr j s" and f: "free_frames s = {p}" and p: "KERNEL_MEM \<le> p"
    and n: "TASKS s nr = 0"
  shows "\<exists>s'. copyProcess nr r s = Inr (- 1, s') \<and> TASKS s' = TASKS s \<and> MEM_MAP s' = MEM_MAP s \<and>
    CURRENT s' = CURRENT s \<and> (\<forall>q. q \<noteq> p \<longrightarrow> PROC s' q = PROC s q) \<and>
    (\<forall>x. x \<notin> page_words (frame_of p) \<longrightarrow> ram s' x = ram s x)"
proof -
  have ok: "mem_ok s" using c by (simp add: mem_ok_def fork_ready_def can_fork_def)
  obtain a s1 where g: "getFreePage s = (a, s1)" by fastforce
  have a0: "a \<noteq> 0" using pool.alloc_fails [OF ok, of s1] f g by auto
  from ok g a0 obtain k where k: "0 < k" "k < PAGES_SIZE" "a = page_addr k" "MEM_MAP s k = 0"
    "MEM_MAP s1 = (MEM_MAP s)(k := 1)" "free_frames s1 = free_frames s - {a}" "a \<in> free_frames s"
    "\<And>x. ram s1 x = (if x \<in> page_words k then 0 else ram s x)"
    by (rule getFreePage_frame) blast
  then have ap: "a = p" using f by simp
  then have f1: "free_frames s1 = {}" using k(6) f by simp
  note m1 = only_memory_kernel [OF only_memory_getFreePage [OF g]]
  have pc: "CURRENT s \<noteq> p" using c f by (auto simp: can_fork_def)
  let ?d = "of_nat nr * 0x4000000 :: u32" and ?b = "getDescBase (p_ldt (PROC s (CURRENT s)) 2)"
  let ?l = "getDescLimit (p_ldt (PROC s (CURRENT s)) 2)"
  have r: "fork_ready ?d ?b (?l + 1) j s" using c by (simp add: can_fork_def)
  define s2 where "s2 = s1\<lparr>TASKS := (TASKS s1)(nr := p), PROC := (PROC s1)(p :=
      child_process nr p (last_pid s1) (TICKS s1) r (PROC s1 (CURRENT s1)))\<rparr>"
  define t where "t = upd_proc p (rebase nr) s2"
  have t: "ram t = ram s1" "MEM_MAP t = MEM_MAP s1" by (simp_all add: t_def upd_proc_def s2_def)
  have rt: "fork_ready ?d ?b (?l + 1) j t"
    using fork_ready_alloc(1) [OF r g a0] by (simp only: fork_ready_cong [OF t])
  have okt: "mem_ok t" using rt by (simp add: mem_ok_def fork_ready_def)
  have "free_frames t = {}" using f1 free_frames_cong [OF t(2)] by simp
  then have gt: "getFreePage t = (0, t)"
    using pool.alloc_fails [OF okt] pool.alloc_fresh [OF okt] by (metis emptyE prod.collapse)
  have cp: "copyPageTables ?d ?b (?l + 1) t = Inr (- 1, t)"
    using rt gt by (simp add: copyPageTables_def fork_ready_def present_def)
  have fp: "freePageTables ?d ?l t = Inr (0, loadCR3 PAGE_DIR t)" if "dir_count ?l \<le> 1"
    using rt that by (cases "dir_count ?l") (simp_all add: freePageTables_def fork_ready_def present_def and.commute)
  have l1: "dir_count ?l \<le> 1"
    using rt dir_count_pred [of ?l] by (simp add: fork_ready_def)
  define t' where "t' = (if dir_count ?l \<le> 1 then loadCR3 PAGE_DIR t else t)"
  have st: "PROC t = (PROC s)(p := rebase nr (child_process nr p (last_pid s) (TICKS s) r (PROC s (CURRENT s))))"
      "TASKS t = (TASKS s)(nr := p)" "CURRENT t = CURRENT s"
    using m1 by (simp_all add: t_def s2_def upd_proc_def)
  have cm: "copyMem nr p s2 = Inr (- 1, loadCR3 PAGE_DIR t)"
    using cp fp [OF l1] c pc m1 by (simp add: copyMem_def Let_def can_fork_def t_def s2_def upd_proc_def rebase_def)
  let ?u = "(loadCR3 PAGE_DIR t)\<lparr>TASKS := (TASKS t)(nr := 0)\<rparr>"
  have "freePage p ?u = Inr (?u\<lparr>MEM_MAP := MEM_MAP s\<rparr>)"
  proof -
    have "p < MEM_SIZE" using k(2,3) ap unat_page_addr [of k] by (simp add: word_less_nat_alt)
    moreover have "unat (drop_bit 12 p) = k" using k(2,3) ap drop_page_addr [of k] by simp
    ultimately show ?thesis using freePage_dec [OF p, of ?u] k(4,5) t(2)
      by (simp add: fun_upd_idem loadCR3_def)
  qed
  then have "copyProcess nr r s = Inr (- 1, ?u\<lparr>MEM_MAP := MEM_MAP s\<rparr>)"
    using g a0 ap cm by (simp add: copyProcess_def Let_def s2_def loadCR3_def)
  moreover have "frame_of p = k" using k(2,3) ap drop_page_addr [of k] by (simp add: frame_of_def)
  then have "\<forall>x. x \<notin> page_words (frame_of p) \<longrightarrow> ram t x = ram s x" by (auto simp: t(1) k(8) simp del: words.simps)
  ultimately show ?thesis using st n by (simp add: loadCR3_def fun_upd_idem del: words.simps)
qed

subsection \<open>The number and the slot of a new process\<close>

lemma pid_scan_frame:
  "pid_scan n i s = Inr s' \<Longrightarrow> i \<le> 64 \<Longrightarrow> (\<forall>j < i. TASKS s j \<noteq> 0 \<longrightarrow> p_pid (PROC s (TASKS s j)) \<noteq> last_pid s) \<Longrightarrow>
   \<exists>v. s' = s\<lparr>last_pid := v\<rparr> \<and> v \<notin> used_pids s"
proof (induction n arbitrary: i s)
  case (Suc n)
  show ?case
  proof (cases "i = 64")
    case True
    then have "s' = s\<lparr>last_pid := last_pid s\<rparr>" "last_pid s \<notin> used_pids s"
      using Suc.prems by (auto simp: used_pids_def)
    then show ?thesis by blast
  next
    case False
    show ?thesis
    proof (cases "TASKS s i \<noteq> 0 \<and> p_pid (PROC s (TASKS s i)) = last_pid s")
      case True
      then have "pid_scan n 0 (s\<lparr>last_pid := last_pid s + 1\<rparr>) = Inr s'" using Suc.prems False by simp
      from Suc.IH [OF this] show ?thesis by auto
    next
      case ne: False
      have "pid_scan n (i + 1) s = Inr s'" using Suc.prems(1,2) ne False by auto
      moreover have "\<forall>j < i + 1. TASKS s j \<noteq> 0 \<longrightarrow> p_pid (PROC s (TASKS s j)) \<noteq> last_pid s"
        using Suc.prems(3) ne by (auto simp: less_Suc_eq)
      ultimately show ?thesis using Suc.IH [of "i + 1" s] Suc.prems(2) False by simp
    qed
  qed
qed simp

lemma findEmptyProcess_frame:
  assumes "findEmptyProcess n s = Inr (v, s')"
  shows "v = free_slot s \<and> (\<exists>l. s' = s\<lparr>last_pid := l\<rparr> \<and> l \<notin> used_pids s)"
proof -
  obtain t where t: "pid_scan n 0 (s\<lparr>last_pid := last_pid s + 1\<rparr>) = Inr t" "s' = t" "v = free_slot t"
    using assms by (auto simp: findEmptyProcess_def)
  from pid_scan_frame [OF t(1)] t(2,3) show ?thesis by (auto simp: free_slot_def)
qed

lemma free_slot_unat: "free_slot s \<noteq> - 1 \<Longrightarrow> unat (free_slot s) < NR_TASKS \<and> TASKS s (unat (free_slot s)) = 0"
  using free_slot_cases [of s] unat_of_nat_u32 by fastforce

subsection \<open>The properties of process creation\<close>

lemma fork_ready_map:
  "fork_ready d a l j s \<Longrightarrow> ram t = ram s \<Longrightarrow> MEM_MAP t = (MEM_MAP s)(i := v) \<Longrightarrow> v \<noteq> 0 \<Longrightarrow> fork_ready d a l j t"
  by (auto simp: fork_ready_def)

lemma process_boot_can_fork: "can_fork 2 1024 process_boot"
proof -
  have "fork_ready (of_nat 2 * 0x4000000) 0x4000000 (0x9FFFF + 1) 1024 process_boot"
    using boot_fork_ready by (simp add: fork_ready_def dir_count_def)
  then show ?thesis using process_boot_current second_process_ldt by (simp add: can_fork_def)
qed

text \<open>
  The kernel with process 0 alone: the first page table, at 1000H, maps the first four megabytes to
  themselves, and the entry 0 of the page directory points to it.
\<close>

definition first_boot :: kernel where
  "first_boot = process_boot\<lparr>TASKS := \<lambda>i. if i = 0 then 0x20000 else 0, CURRENT := 0x20000, last_pid := 0,
     ram := \<lambda>a. if a = 0 then 0x1007 else if 0x1000 \<le> a \<and> a < 0x2000 then push_bit 10 (a - 0x1000) OR 7 else 0\<rparr>"

lemma first_boot_simps [simp]:
  "TASKS first_boot i = (if i = 0 then 0x20000 else 0)" "CURRENT first_boot = 0x20000" "last_pid first_boot = 0"
  "MEM_MAP first_boot = MEM_MAP process_boot" "ram first_boot 0 = 0x1007"
  "PROC first_boot p = PROC process_boot p" "TICKS first_boot = TICKS process_boot"
  "free_frames first_boot = free_frames process_boot"
  by (simp_all add: first_boot_def free_frames_def)

lemma first_process_ldt:
  "getDescBase (p_ldt (first_process a) 1) = 0" "getDescBase (p_ldt (first_process a) 2) = 0"
  "getDescLimit (p_ldt (first_process a) 2) = 0x9FFFF"
  by (simp_all add: first_process_def getDescLimit_setGdtDesc)

lemma first_boot_table:
  assumes "e \<in> set (table 0xA0 (page_addr 1) (ram first_boot))"
  shows "\<not> counted e"
proof -
  obtain x where "x \<in> words 0xA0 (page_addr 1)" "e = ram first_boot x" using assms unfolding set_table by blast
  then obtain k where k: "k < 0xA0" "e = ram first_boot (page_addr 1 + 4 * of_nat k)" unfolding words_iff by blast
  have u: "unat (0x1000 + 4 * of_nat k :: u32) = 4096 + 4 * k"
    using unat_of_nat_u32 [of "4096 + 4 * k"] k(1) by simp
  have p: "page_addr 1 = 0x1000" by (simp add: page_addr_def)
  have "push_bit 10 (4 * of_nat k) = page_addr k" by (simp add: page_addr_def push_bit_eq_mult)
  moreover have "\<not> 0x1000 + 4 * of_nat k = (0 :: u32)" "(0x1000 :: u32) \<le> 0x1000 + 4 * of_nat k" "0x1000 + 4 * of_nat k < (0x2000 :: u32)"
    using u k(1) by (auto simp: word_le_nat_alt word_less_nat_alt)
  ultimately have e: "e = page_addr k OR 7" using k(2) unfolding p by (simp add: first_boot_def)
  have "page_addr k OR PG_P OR PG_RWW OR PG_USU = page_addr k OR 7" by (simp add: or.assoc)
  then have "frame_of e = frame_of (page_addr k)"
    using dir_entry_page(1) [of k] k(1) frame_of_page [of e] unfolding e by simp
  also have "\<dots> = k" using drop_page_addr [of k] k(1) by (simp add: frame_of_def)
  finally show ?thesis using k(1) by (simp add: counted_iff)
qed

lemma first_boot_directory: "0 < unat x \<Longrightarrow> unat x < 4096 \<Longrightarrow> ram first_boot x = 0"
  by (auto simp: first_boot_def word_le_nat_alt)

lemma first_boot_fork_ready: "fork_ready 0x4000000 0 0xA0000 1 first_boot"
proof -
  have m: "(0xFFFFF000 :: u32) AND 0x1007 = page_addr 1" by (simp add: page_addr_def)
  have "ram first_boot 64 = 0" by (intro first_boot_directory) simp_all
  moreover have "\<forall>e \<in> set (table (shared_entries 0) (page_addr 1) (ram first_boot)).
      counted e \<longrightarrow> frame_of e < 8192 \<and> MEM_MAP first_boot (frame_of e) \<noteq> 0"
    using first_boot_table by (simp add: shared_entries_def)
  ultimately show ?thesis unfolding fork_ready_def
    by (simp add: m dir_count_def present_def) (simp add: page_addr_def)
qed

lemma first_boot_can_fork: "can_fork 1 1 first_boot"
proof -
  have "0x20000 \<notin> free_frames process_boot"
  proof
    assume "0x20000 \<in> free_frames process_boot"
    then obtain i where i: "i < 8192" "0x20000 = page_addr i" "MEM_MAP process_boot i = 0" by (auto simp: free_frames_def)
    have "(0x20000 :: u32) = page_addr 32" by (simp add: page_addr_def)
    with i(1,2) have "i = 32" by (simp add: page_addr_inj)
    with i(3) show False by simp
  qed
  then show ?thesis using first_boot_fork_ready by (simp add: can_fork_def first_process_ldt first_process_ldt(1) [simplified])
qed

lemma free_slot_first: "i < NR_TASKS \<Longrightarrow> TASKS s i = 0 \<Longrightarrow> \<forall>j < i. TASKS s j \<noteq> 0 \<Longrightarrow> free_slot s = of_nat i"
  using free_slot_cases [of s] by (metis linorder_neqE_nat)

lemma process_boot_slot: "free_slot process_boot = 2"
  using free_slot_first [of 2 process_boot] by simp

text \<open>C29. \<open>findEmptyProcess\<close> always returns: the new process number is the first one after the last that
  no process in the table has, found among the next 65, and the slot is the first empty one, or -1 when
  the table is full. Nothing else changes.\<close>

theorem findEmptyProcess_fresh:
  "\<exists>m s'. findEmptyProcess (4225 + n) s = Inr (free_slot s, s') \<and> m \<le> 64 \<and>
    s' = s\<lparr>last_pid := last_pid s + 1 + of_nat m\<rparr> \<and> last_pid s' \<notin> used_pids s \<and>
    (\<forall>k < m. last_pid s + 1 + of_nat k \<in> used_pids s) \<and>
    ((\<exists>i < 64. free_slot s = of_nat i \<and> TASKS s i = 0 \<and> (\<forall>j < i. TASKS s j \<noteq> 0)) \<or>
     free_slot s = - 1 \<and> (\<forall>i < 64. TASKS s i \<noteq> 0))"
proof -
  obtain m s' where r: "findEmptyProcess (4225 + n) s = Inr (free_slot s, s')"
    "s' = s\<lparr>last_pid := last_pid s + 1 + of_nat m\<rparr>" "last_pid s' \<notin> used_pids s"
    "\<forall>k < m. last_pid s + 1 + of_nat k \<in> used_pids s" "m \<le> 64" by (rule findEmptyProcess_result)
  show ?thesis by (intro exI [of _ m] exI [of _ s'] conjI r free_slot_cases)
qed

theorem findEmptyProcess_fresh_witness:
  "\<exists>s'. findEmptyProcess 4225 process_boot = Inr (2, s') \<and> last_pid s' \<notin> {0, 1}"
proof -
  obtain s' where s': "findEmptyProcess (4225 + 0) process_boot = Inr (free_slot process_boot, s')"
    "last_pid s' \<notin> used_pids process_boot" using findEmptyProcess_fresh [of 0 process_boot] by blast
  have "used_pids process_boot = {0, 1}" unfolding used_pids_def by force
  then show ?thesis using s' process_boot_slot by simp
qed

lemma sysFork_creates:
  assumes "can_fork (unat (free_slot s)) j s" and "free_slot s \<noteq> - 1" and "unat (free_slot s) < 62"
    and "x \<in> free_frames s" and "y \<in> free_frames s" and "x \<noteq> y"
  shows "\<exists>p i pid s'. sysFork (4225 + n) r s = Inr (pid, s') \<and> pid \<notin> used_pids s \<and> p \<in> free_frames s \<and>
    TASKS s' = (TASKS s)(unat (free_slot s) := p) \<and>
    PROC s' = (PROC s)(p := child_of (unat (free_slot s)) p pid r s) \<and>
    GDT s' = (GDT s)(3 + 2 * unat (free_slot s) := setGdtDesc (GDT s (3 + 2 * unat (free_slot s))) (p + 720) 104 DA_386TSS,
      4 + 2 * unat (free_slot s) := setGdtDesc (GDT s (4 + 2 * unat (free_slot s))) (p + 696) 24 DA_LDT) \<and>
    CURRENT s' = CURRENT s \<and> shares_memory (unat (free_slot s)) p j i s s'"
proof -
  obtain m t where t: "findEmptyProcess (4225 + n) s = Inr (free_slot s, t)"
    "t = s\<lparr>last_pid := last_pid s + 1 + of_nat m\<rparr>" "last_pid t \<notin> used_pids s"
    using findEmptyProcess_result [of n s] by metis
  let ?nr = "unat (free_slot s)"
  have f: "free_frames t = free_frames s" by (simp add: t(2) free_frames_def)
  have "can_fork ?nr j t" using assms(1) unfolding can_fork_def f by (simp add: t(2) fork_ready_def)
  moreover have "\<not> is_singleton (free_frames t)" "free_frames t \<noteq> {}"
    using assms(4-6) unfolding f by (auto elim!: is_singletonE)
  ultimately obtain p i s' where c: "copyProcess ?nr r t = Inr (last_pid t, s')" "p \<in> free_frames t"
    "TASKS s' = (TASKS t)(?nr := p)" "PROC s' = (PROC t)(p := child_of ?nr p (last_pid t) r t)"
    "GDT s' = (GDT t)(3 + 2 * ?nr := setGdtDesc (GDT t (3 + 2 * ?nr)) (p + 720) 104 DA_386TSS,
        4 + 2 * ?nr := setGdtDesc (GDT t (4 + 2 * ?nr)) (p + 696) 24 DA_LDT)"
    "CURRENT s' = CURRENT t" "shares_memory ?nr p j i t s'"
    using copyProcess_child [of ?nr j t r] assms(3) by auto
  have "sysFork (4225 + n) r s = Inr (last_pid t, s')" using t(1) c(1) assms(2) by (simp add: sysFork_def)
  moreover have "child_of ?nr p (last_pid t) r t = child_of ?nr p (last_pid t) r s" by (simp add: child_of_def t(2))
  moreover have "shares_memory ?nr p j i s s'" using c(7) by (simp only: t(2) shares_memory_last_pid)
  ultimately show ?thesis using c t(2,3) f
    by (intro exI [of _ p] exI [of _ i] exI [of _ "last_pid t"] exI [of _ s'] conjI) simp_all
qed

text \<open>C13. A fork by a process whose region has one page table (at most four megabytes), process 0 included,
  into an empty slot from 1 to 61 whose region is not mapped: its code and data segments have the same base,
  its page table and the pages it maps, its control block and the pages below one megabyte are taken, and two
  pages are free. The child gets an unused process number, the control block of its parent with the registers
  of the call and the result 0, the linear region of its slot, and the two descriptors that point to its task
  state segment and local table. Its page table maps the parent's pages read-only, the first 640 kilobytes of
  them for process 0; in the parent's table the entries for pages from one megabyte on become read-only too,
  and the counts of these pages grow. Every other process, descriptor, count and word is unchanged.\<close>

theorem sysFork_child:
  assumes "can_fork (unat (free_slot s)) j s" and "free_slot s \<noteq> - 1" and "unat (free_slot s) < 62"
    and "x \<in> free_frames s" and "y \<in> free_frames s" and "x \<noteq> y"
  shows "\<exists>p i pid s'. sysFork (4225 + n) r s = Inr (pid, s') \<and> pid \<notin> used_pids s \<and> p \<in> free_frames s \<and>
    TASKS s' = (TASKS s)(unat (free_slot s) := p) \<and>
    PROC s' = (PROC s)(p := child_of (unat (free_slot s)) p pid r s) \<and>
    GDT s' = (GDT s)(3 + 2 * unat (free_slot s) := setGdtDesc (GDT s (3 + 2 * unat (free_slot s))) (p + 720) 104 DA_386TSS,
      4 + 2 * unat (free_slot s) := setGdtDesc (GDT s (4 + 2 * unat (free_slot s))) (p + 696) 24 DA_LDT) \<and>
    CURRENT s' = CURRENT s \<and> shares_memory (unat (free_slot s)) p j i s s'"
  using sysFork_creates [OF assms, of n r] .

definition some_regs :: regs where
  "some_regs = \<lparr>r_EDI = 0, r_ESI = 0, r_EBP = 0, r_EBX = 0, r_EDX = 0, r_ECX = 0, r_gs = 0x17, r_fs = 0x17,
     r_es = 0x17, r_ds = 0x17, r_eip = 0x1000, r_cs = 0x0F, r_eflags = 0x3202, r_esp = 0x9F000, r_ss = 0x17\<rparr>"

lemma first_boot_slot: "free_slot first_boot = 1"
  using free_slot_first [of 1 first_boot] by simp

theorem sysFork_child_witness:
  "\<exists>pid s'. sysFork 4225 some_regs first_boot = Inr (pid, s') \<and> pid \<noteq> 0 \<and>
    tss_eax (p_tss (PROC s' (TASKS s' 1))) = 0 \<and> getDescBase (p_ldt (PROC s' (TASKS s' 1)) 2) = 0x4000000"
proof -
  have "used_pids first_boot = {0}" unfolding used_pids_def by force
  moreover obtain p pid s' where "sysFork (4225 + 0) some_regs first_boot = Inr (pid, s')" "pid \<notin> used_pids first_boot"
    "TASKS s' = (TASKS first_boot)(1 := p)" "PROC s' = (PROC first_boot)(p := child_of 1 p pid some_regs first_boot)"
    using sysFork_child [of first_boot 1 "page_addr 2000" "page_addr 2001" 0 some_regs]
      first_boot_can_fork process_boot_frames by (auto simp: first_boot_slot)
  ultimately show ?thesis by (simp add: child_of_def child_process_def child_tss_def rebase_def)
qed

text \<open>C40. The global descriptor table has entries for 62 processes, the table of processes 64 slots: a fork
  in one of the last two slots that does not run out of memory stores beyond the table. This is for a process
  as in \<open>sysFork_child\<close>, process 0 included: one base for code and data, a region of at most four megabytes
  whose page table and pages are taken, an unmapped region for the slot, and two free pages.\<close>

theorem sysFork_last_slots:
  assumes "can_fork (unat (free_slot s)) j s" and "free_slot s \<noteq> - 1" and "62 \<le> unat (free_slot s)"
    and "x \<in> free_frames s" and "y \<in> free_frames s" and "x \<noteq> y"
  shows "sysFork (4225 + n) r s = Inl (Fault ''GDT'')"
proof -
  obtain m t where t: "findEmptyProcess (4225 + n) s = Inr (free_slot s, t)"
    "t = s\<lparr>last_pid := last_pid s + 1 + of_nat m\<rparr>" using findEmptyProcess_result [of n s] by metis
  have f: "free_frames t = free_frames s" by (simp add: t(2) free_frames_def)
  have "can_fork (unat (free_slot s)) j t" using assms(1) unfolding can_fork_def f by (simp add: t(2) fork_ready_def)
  moreover have "\<not> is_singleton (free_frames t)" "free_frames t \<noteq> {}"
    using assms(4-6) unfolding f by (auto elim!: is_singletonE)
  ultimately have "copyProcess (unat (free_slot s)) r t = Inl (Fault ''GDT'')"
    using copyProcess_child [of "unat (free_slot s)" j t r] assms(3) by simp
  then show ?thesis using t(1) assms(2) by (simp add: sysFork_def)
qed

text \<open>The table with the slots 2 to 61 taken by processes at 30000H and further on.\<close>

definition full_boot :: kernel where
  "full_boot = process_boot\<lparr>TASKS := \<lambda>i. if 2 \<le> i \<and> i < 62 then 0x30000 else TASKS process_boot i\<rparr>"

theorem sysFork_last_slots_witness:
  "sysFork 4225 some_regs full_boot = Inl (Fault ''GDT'')"
proof -
  have slot: "free_slot full_boot = 62"
    using free_slot_first [of 62 full_boot] by (simp add: full_boot_def)
  have f: "free_frames full_boot = free_frames process_boot" by (simp add: full_boot_def free_frames_def)
  have "fork_ready (62 * 0x4000000) 0x4000000 (0x9FFFF + 1) 1024 process_boot"
    using boot_fork_ready by (simp add: fork_ready_def dir_count_def present_def)
  then have "can_fork 62 1024 full_boot"
    using process_boot_current second_process_ldt unfolding can_fork_def f by (simp add: full_boot_def fork_ready_def)
  then show ?thesis
    using sysFork_last_slots [of full_boot 1024 "page_addr 2000" "page_addr 2001" 0 some_regs] process_boot_frames
    by (simp add: slot f)
qed

text \<open>C30. A fork for which one page is left, but none for the page table of the child, returns -1 and is undone:
  the table of processes, the page counts, the other processes and every word of memory outside the page that
  was left are as before. This is for a process as in \<open>sysFork_child\<close>, process 0 included: one base for code
  and data, a region of at most four megabytes whose page table and pages are taken, and an empty slot
  whose region is not mapped; the page that was left lies above one megabyte.\<close>

theorem sysFork_undone:
  assumes "can_fork (unat (free_slot s)) j s" and "free_slot s \<noteq> - 1"
    and "free_frames s = {p}" and "KERNEL_MEM \<le> p"
  shows "\<exists>s'. sysFork (4225 + n) r s = Inr (- 1, s') \<and> TASKS s' = TASKS s \<and> MEM_MAP s' = MEM_MAP s \<and>
    CURRENT s' = CURRENT s \<and> (\<forall>q. q \<noteq> p \<longrightarrow> PROC s' q = PROC s q) \<and>
    (\<forall>x. x \<notin> words 1024 (page_addr (frame_of p)) \<longrightarrow> ram s' x = ram s x)"
proof -
  obtain m t where t: "findEmptyProcess (4225 + n) s = Inr (free_slot s, t)"
    "t = s\<lparr>last_pid := last_pid s + 1 + of_nat m\<rparr>" using findEmptyProcess_result [of n s] by metis
  have f: "free_frames t = free_frames s" by (simp add: t(2) free_frames_def)
  have c: "can_fork (unat (free_slot s)) j t" using assms(1) unfolding can_fork_def f by (simp add: t(2) fork_ready_def)
  have "TASKS t (unat (free_slot s)) = 0" using free_slot_unat [OF assms(2)] by (simp add: t(2))
  from copyProcess_undone [OF c _ assms(4) this, of r] assms(3) f
  show ?thesis using t assms(2) by (simp add: sysFork_def)
qed

text \<open>The state with all pages taken but one.\<close>

definition one_page :: kernel where
  "one_page = process_boot\<lparr>MEM_MAP := \<lambda>i. if i = 2000 \<or> 8192 \<le> i then 0 else 1\<rparr>"

theorem sysFork_undone_witness:
  "\<exists>s'. sysFork 4225 some_regs one_page = Inr (- 1, s') \<and> TASKS s' = TASKS one_page"
proof -
  have "{i. i < 8192 \<and> MEM_MAP one_page i = 0} = {2000}" by (auto simp: one_page_def split: if_splits)
  moreover have "free_frames one_page = page_addr ` {i. i < 8192 \<and> MEM_MAP one_page i = 0}"
    unfolding free_frames_def by (rule setcompr_eq_image)
  ultimately have f: "free_frames one_page = {page_addr 2000}" by simp
  have slot: "free_slot one_page = 2"
    using free_slot_first [of 2 one_page] by (simp add: one_page_def)
  have fr: "fork_ready (of_nat 2 * 0x4000000) 0x4000000 (0x9FFFF + 1) 1024 process_boot"
    using boot_fork_ready by (simp add: fork_ready_def dir_count_def)
  have "0x402000 \<noteq> page_addr 2000" by (simp add: page_addr_def)
  moreover have "fork_ready (of_nat 2 * 0x4000000) 0x4000000 (0x9FFFF + 1) 1024 one_page"
    using fr by (auto simp: fork_ready_def one_page_def)
  ultimately have "can_fork 2 1024 one_page"
    using second_process_ldt unfolding can_fork_def f by (simp add: one_page_def)
  then have "can_fork (unat (free_slot one_page)) 1024 one_page" "free_slot one_page \<noteq> - 1" by (simp_all add: slot)
  from sysFork_undone [OF this f, of 0 some_regs]
  have "KERNEL_MEM \<le> page_addr 2000 \<Longrightarrow> \<exists>s'. sysFork (4225 + 0) some_regs one_page = Inr (- 1, s') \<and> TASKS s' = TASKS one_page"
    by blast
  moreover have "KERNEL_MEM \<le> page_addr 2000" by (simp add: page_addr_def)
  ultimately show ?thesis by (simp only: add_0_right)
qed

end
