(* ===== verification/Steps.thy ===== *)
theory Steps
  imports Fork
begin

section \<open>Steps of the kernel and the table of processes\<close>

text \<open>
  A run of the kernel as far as it concerns the table of processes: timer ticks, wake-ups, the two halves of
  a sleep, pauses and forks, one after the other. The invariant says that the table is consistent and that
  every process owns the page of its control block, the region of its slot and a page table; it is what
  makes the next fork find a page that no process uses.
\<close>

subsection \<open>The steps\<close>

text \<open>
  What can change the processes: a timer tick, a wake-up, the two halves of a sleep (before and after
  the process gives up the processor), a pause and a fork.
\<close>

inductive kstep :: "nat \<Rightarrow> 'a kernel_scheme \<Rightarrow> 'a kernel_scheme \<Rightarrow> bool" for n where
  tick: "timerHandler n s = Inr s' \<Longrightarrow> kstep n s s'"
| wake: "kstep n s (wakeUp q s)"
| sleep: "schedule n (upd_proc (CURRENT s) (\<lambda>p. p\<lparr>p_state := TASK_UNINTERRUPTIBLE\<rparr>) (set_waitq q (CURRENT s) s)) = Inr s' \<Longrightarrow>
    kstep n s s'"
| resume: "kstep n s (if tmp \<noteq> 0 then upd_proc tmp (\<lambda>p. p\<lparr>p_state := TASK_RUNNING\<rparr>) (set_waitq q tmp s) else set_waitq q tmp s)"
| pause: "schedule n (upd_proc (CURRENT s) (\<lambda>p. p\<lparr>p_state := TASK_INTERRUPTIBLE\<rparr>) s) = Inr s' \<Longrightarrow> kstep n s s'"
| fork: "sysFork n r s = Inr (v, s') \<Longrightarrow> kstep n s s'"

text \<open>The control blocks are in pages that are taken.\<close>

definition blocks_taken :: "'a kernel_scheme \<Rightarrow> bool" where
  "blocks_taken s \<longleftrightarrow> mem_ok s \<and> (\<forall>i < NR_TASKS. TASKS s i \<noteq> 0 \<longrightarrow> TASKS s i \<notin> free_frames s)"

definition tasks_inv :: "'a kernel_scheme \<Rightarrow> bool" where
  "tasks_inv s \<longleftrightarrow> TASKS s 0 \<noteq> 0 \<and> (\<exists>k < NR_TASKS. TASKS s k \<noteq> 0 \<and> CURRENT s = TASKS s k) \<and>
     (\<forall>i < NR_TASKS. \<forall>j < NR_TASKS. TASKS s i \<noteq> 0 \<and> TASKS s j \<noteq> 0 \<and>
        p_pid (PROC s (TASKS s i)) = p_pid (PROC s (TASKS s j)) \<longrightarrow> i = j)"

lemma tasks_inv_schedule:
  assumes i: "tasks_inv s" and t: "TASKS t = TASKS s" "\<forall>p. p_pid (PROC t p) = p_pid (PROC s p)"
    and r: "schedule n t = Inr s'"
  shows "tasks_inv s'"
proof -
  note f = schedule_frame [OF r]
  have "TASKS s' = TASKS s" "\<forall>p. p_pid (PROC s' p) = p_pid (PROC s p)" using f t by (simp_all add: same_tasks_def)
  moreover have "\<exists>k < NR_TASKS. TASKS s k \<noteq> 0 \<and> CURRENT s' = TASKS s k"
    using f t(1) i unfolding tasks_inv_def by metis
  ultimately show ?thesis using i by (simp add: tasks_inv_def)
qed

lemma tasks_inv_same:
  "tasks_inv s \<Longrightarrow> TASKS s' = TASKS s \<Longrightarrow> CURRENT s' = CURRENT s \<Longrightarrow>
   \<forall>i < NR_TASKS. TASKS s i \<noteq> 0 \<longrightarrow> p_pid (PROC s' (TASKS s i)) = p_pid (PROC s (TASKS s i)) \<Longrightarrow> tasks_inv s'"
  unfolding tasks_inv_def by metis

lemma upd_proc_pid:
  "(\<And>c. p_pid (f c) = p_pid c) \<Longrightarrow> p_pid (PROC (upd_proc p f s) q) = p_pid (PROC s q)"
  by (simp add: upd_proc_def)

lemma tasks_inv_fork:
  assumes i: "tasks_inv s" and b: "blocks_taken s" and r: "sysFork n r s = Inr (v, s')"
  shows "tasks_inv s'"
proof -
  obtain w t where w: "findEmptyProcess n s = Inr (w, t)"
    "(if w = - 1 then Inr (- 1, t) else copyProcess (unat w) r t) = Inr (v, s')"
    using r by (auto simp: sysFork_def)
  from findEmptyProcess_frame [OF w(1)] obtain l where l: "w = free_slot s" "t = s\<lparr>last_pid := l\<rparr>" "l \<notin> used_pids s"
    by blast
  have it: "tasks_inv t" using i l(2) by (simp add: tasks_inv_def)
  show ?thesis
  proof (cases "w = - 1")
    case True
    then show ?thesis using w(2) it by simp
  next
    case False
    with w(2) have c: "copyProcess (unat w) r t = Inr (v, s')" by simp
    from free_slot_unat [of s] False l(1) have slot: "unat w < NR_TASKS" "TASKS s (unat w) = 0" by simp_all
    then have slot0: "unat w \<noteq> 0" using i unfolding tasks_inv_def by metis
    define p where "p = fst (getFreePage t)"
    have pf: "p \<in> free_frames s" if "p \<noteq> 0"
      using pool.alloc_fresh [of t p "snd (getFreePage t)"] b l(2) that
      by (simp add: blocks_taken_def mem_ok_def p_def free_frames_def)
    then have fresh: "TASKS s k \<noteq> p" if "p \<noteq> 0" "k < NR_TASKS" "TASKS s k \<noteq> 0" for k
      using b that by (auto simp: blocks_taken_def)
    have cur: "CURRENT s' = CURRENT t" and cases: "TASKS s' = TASKS t \<or> TASKS s' = (TASKS t)(unat w := 0) \<or>
        (p \<noteq> 0 \<and> TASKS s' = (TASKS t)(unat w := p) \<and> p_pid (PROC s' p) = l)"
      and pr: "PROC s' = PROC t \<or> p \<noteq> 0 \<and> (\<forall>q. q \<noteq> p \<longrightarrow> PROC s' q = PROC t q)"
      using c by (cases rule: copyProcess_cases; simp add: p_def l(2))+
    have pids: "p_pid (PROC s' (TASKS s k)) = p_pid (PROC s (TASKS s k))" if "k < NR_TASKS" "TASKS s k \<noteq> 0" for k
      using pr fresh that l(2) by force
    have "(TASKS t)(unat w := 0) = TASKS t" using slot(2) l(2) by (simp add: fun_upd_idem)
    with cases consider (same) "TASKS s' = TASKS t" | (child) "p \<noteq> 0" "TASKS s' = (TASKS t)(unat w := p)" "p_pid (PROC s' p) = l"
      by (elim disjE) simp_all
    then show ?thesis
    proof cases
      case same
      show ?thesis by (rule tasks_inv_same [OF i]) (use same cur pids l(2) in auto)
    next
      case child
      have new: "p_pid (PROC s (TASKS s k)) \<noteq> l" if "k < NR_TASKS" "TASKS s k \<noteq> 0" for k
        using l(3) that by (auto simp: used_pids_def)
      show ?thesis unfolding tasks_inv_def
      proof (intro conjI allI impI)
        show "TASKS s' 0 \<noteq> 0" using i child(2) slot0 l(2) by (simp add: tasks_inv_def)
        show "\<exists>k < NR_TASKS. TASKS s' k \<noteq> 0 \<and> CURRENT s' = TASKS s' k"
        proof -
          obtain k where "k < NR_TASKS" "TASKS s k \<noteq> 0" "CURRENT s = TASKS s k" using i by (auto simp: tasks_inv_def)
          then show ?thesis using child(2) slot(2) cur l(2) by (intro exI [of _ k]) auto
        qed
        fix a b assume ab: "a < NR_TASKS" "b < NR_TASKS" "TASKS s' a \<noteq> 0 \<and> TASKS s' b \<noteq> 0 \<and>
            p_pid (PROC s' (TASKS s' a)) = p_pid (PROC s' (TASKS s' b))"
        show "a = b"
          using ab i child(2,3) pids [of a] pids [of b] new [of a] new [of b] l(2)
          unfolding tasks_inv_def by (cases "a = unat w"; cases "b = unat w") auto
      qed
    qed
  qed
qed

subsection \<open>The memory of the processes\<close>

definition slot_base :: "nat \<Rightarrow> u32" where
  "slot_base k = of_nat k * 0x4000000"

lemma slot_base_nat: "k < 64 \<Longrightarrow> unat (slot_base k) = 67108864 * k"
  using unat_of_nat_u32 [of "67108864 * k"] by (simp add: slot_base_def mult.commute)

lemma dir_slot:
  assumes "k < 64"
  shows "unat (dir_addr (slot_base k)) = 64 * k" and "slot_base k AND 0x3FFFFF = 0" and "slot_base k = 0 \<longleftrightarrow> k = 0"
proof -
  note u = slot_base_nat [OF assms]
  have w: "unat (drop_bit 22 (slot_base k)) = 16 * k" by (simp add: drop_bit_eq_div unat_div u)
  have "unat (push_bit 2 w) = 4 * unat w" if "unat w < 1024" for w :: u32
    unfolding push_bit_eq_mult unat_word_ariths(2) using that by simp
  from this [of "drop_bit 22 (slot_base k)"] show "unat (dir_addr (slot_base k)) = 64 * k" using assms unfolding w by simp
  have "slot_base k = push_bit 26 (of_nat k)" by (simp add: slot_base_def push_bit_eq_mult mult.commute)
  moreover have "push_bit 26 w AND mask 22 = 0" for w :: u32
    by (rule bit_word_eqI) (auto simp: bit_and_iff bit_push_bit_iff bit_mask_iff)
  ultimately show "slot_base k AND 0x3FFFFF = 0" by (simp add: mask_eq_exp_minus_1)
  have "slot_base k = 0 \<longleftrightarrow> unat (slot_base k) = 0" by (simp add: unat_eq_0)
  then show "slot_base k = 0 \<longleftrightarrow> k = 0" unfolding u by simp
qed

lemma dir_slot_inj: "k < 64 \<Longrightarrow> m < 64 \<Longrightarrow> dir_addr (slot_base k) = dir_addr (slot_base m) \<longleftrightarrow> k = m"
  using dir_slot(1) [of k] dir_slot(1) [of m] by (metis mult_cancel1 zero_neq_numeral)

text \<open>
  What the process in slot \<open>k\<close> owns: a control block in a page that is taken, the region of the slot with
  both its segments, of at most four megabytes, and a page table in page \<open>j\<close> for it. The entries that a fork
  would share map no page with a reference count: that is so for process 0, whose table maps the kernel's
  first 640 kilobytes, and for all its children as long as none of them takes a page fault, which is not a
  step here.
\<close>

definition own_region :: "nat \<Rightarrow> 'a kernel_scheme \<Rightarrow> nat \<Rightarrow> bool" where
  "own_region k s j \<longleftrightarrow> TASKS s k \<notin> free_frames s \<and>
     getDescBase (p_ldt (PROC s (TASKS s k)) 1) = slot_base k \<and> getDescBase (p_ldt (PROC s (TASKS s k)) 2) = slot_base k \<and>
     dir_count (getDescLimit (p_ldt (PROC s (TASKS s k)) 2) + 1) = 1 \<and>
     present (ram s (dir_addr (slot_base k))) \<and> 0xFFFFF000 AND ram s (dir_addr (slot_base k)) = page_addr j \<and>
     0 < j \<and> j < PAGES_SIZE \<and> MEM_MAP s j \<noteq> 0 \<and>
     (\<forall>e \<in> set (table (shared_entries (slot_base k)) (page_addr j) (ram s)). \<not> counted e)"

definition region_inv :: "'a kernel_scheme \<Rightarrow> bool" where
  "region_inv s \<longleftrightarrow> (\<forall>f < 256. MEM_MAP s f \<noteq> 0) \<and>
     (\<forall>k < NR_TASKS. if TASKS s k = 0 then \<not> present (ram s (dir_addr (slot_base k))) else \<exists>j. own_region k s j)"

lemma region_inv_blocks: "region_inv s \<Longrightarrow> blocks_taken s"
  by (auto simp: region_inv_def blocks_taken_def mem_ok_def own_region_def split: if_splits)

text \<open>Whoever runs can fork, as far as its region is concerned.\<close>

lemma region_inv_can_fork:
  assumes "tasks_inv s" and "region_inv s" and "nr < NR_TASKS" and "TASKS s nr = 0"
  shows "\<exists>j. can_fork nr j s \<and> (\<forall>e \<in> set (table (shared_entries (data_base s)) (page_addr j) (ram s)). \<not> counted e)"
proof -
  obtain k where k: "k < NR_TASKS" "TASKS s k \<noteq> 0" "CURRENT s = TASKS s k" using assms(1) by (auto simp: tasks_inv_def)
  have nr0: "nr \<noteq> 0" "nr \<noteq> k" using assms(1,4) k(2) unfolding tasks_inv_def by metis+
  obtain j where j: "own_region k s j" using assms(2) k(1,2) unfolding region_inv_def by metis
  have a: "\<not> present (ram s (dir_addr (slot_base nr)))" "\<forall>i < 256. MEM_MAP s i \<noteq> 0"
    using assms(2-4) by (auto simp: region_inv_def)
  have d: "slot_base nr AND 0x3FFFFF = 0" "slot_base k AND 0x3FFFFF = 0" "slot_base nr \<noteq> 0"
    "dir_addr (slot_base nr) \<noteq> dir_addr (slot_base k)"
    using dir_slot(2,3) dir_slot_inj nr0 assms(3) k(1) by auto
  have "fork_ready (slot_base nr) (slot_base k) (getDescLimit (p_ldt (PROC s (TASKS s k)) 2) + 1) j s"
    unfolding fork_ready_def using j d a unfolding own_region_def by blast
  then have "can_fork nr j s"
    using j k(3) assms(3) by (simp add: can_fork_def own_region_def slot_base_def)
  then show ?thesis using j k(3) by (auto simp: own_region_def)
qed

lemma table_pointwise: "table n a m = table n a m' \<Longrightarrow> x \<in> words n a \<Longrightarrow> m x = m' x"
  by (induction n arbitrary: a) auto

lemma free_frames_mono:
  "(\<And>f. MEM_MAP s f \<noteq> 0 \<Longrightarrow> MEM_MAP s' f \<noteq> 0) \<Longrightarrow> p \<notin> free_frames s \<Longrightarrow> p \<notin> free_frames s'"
  by (auto simp: free_frames_def)

text \<open>A region stays owned when its process keeps its segments and the pages that were taken keep their contents.\<close>

lemma own_region_mono:
  assumes o: "own_region k s j" and t: "TASKS s' k = TASKS s k" and p: "p_ldt (PROC s' (TASKS s k)) = p_ldt (PROC s (TASKS s k))"
    and m: "\<And>f. MEM_MAP s f \<noteq> 0 \<Longrightarrow> MEM_MAP s' f \<noteq> 0" and d: "ram s' (dir_addr (slot_base k)) = ram s (dir_addr (slot_base k))"
    and r: "\<And>f x. 0 < f \<Longrightarrow> f < PAGES_SIZE \<Longrightarrow> MEM_MAP s f \<noteq> 0 \<Longrightarrow> x \<in> page_words f \<Longrightarrow> ram s' x = ram s x"
  shows "own_region k s' j"
proof -
  have j: "0 < j" "j < PAGES_SIZE" "MEM_MAP s j \<noteq> 0" using o by (simp_all add: own_region_def)
  have "words (shared_entries (slot_base k)) (page_addr j) \<subseteq> page_words j" by (rule words_mono) simp
  then have "table (shared_entries (slot_base k)) (page_addr j) (ram s') = table (shared_entries (slot_base k)) (page_addr j) (ram s)"
    using r [OF j] by (intro table_cong) blast
  moreover have "TASKS s k \<notin> free_frames s'" using m o by (intro free_frames_mono [of s s']) (auto simp: own_region_def)
  ultimately show ?thesis using o m [OF j(3)] by (simp add: own_region_def t p d)
qed

lemma region_inv_same:
  assumes "region_inv s" and "TASKS s' = TASKS s" and "\<And>p. p_ldt (PROC s' p) = p_ldt (PROC s p)"
    and "MEM_MAP s' = MEM_MAP s" and "ram s' = ram s"
  shows "region_inv s'"
proof -
  have "own_region k s' j" if "own_region k s j" for k j 
    by (rule own_region_mono [OF that]) (simp_all add: assms(2-5))
  then show ?thesis using assms(1) unfolding region_inv_def assms(2,4,5) by metis
qed

text \<open>The page directory's first entry is no process state, so the null pointers of \<open>schedule\<close> store nothing.\<close>

lemma region_inv_inert:
  assumes "tasks_inv s" and "region_inv s"
  shows "ram s 0 \<noteq> TASK_INTERRUPTIBLE"
proof
  assume e: "ram s 0 = TASK_INTERRUPTIBLE"
  have "dir_addr (slot_base 0) = 0" by (simp add: slot_base_def)
  moreover obtain j where "own_region 0 s j" using assms zero_less_numeral unfolding tasks_inv_def region_inv_def by metis
  ultimately have "page_addr j = 0" "0 < j" "j < PAGES_SIZE" using e by (simp_all add: own_region_def)
  then show False using page_addr_0 [of j] by simp
qed

lemma region_inv_schedule:
  assumes i: "tasks_inv s" "region_inv s" and t: "TASKS t = TASKS s" "\<And>p. p_ldt (PROC t p) = p_ldt (PROC s p)"
      "MEM_MAP t = MEM_MAP s" "ram t = ram s"
    and r: "schedule n t = Inr s'"
  shows "region_inv s'"
proof (rule region_inv_same [OF i(2)])
  have f: "same_tasks t s'" using schedule_frame [OF r] by blast
  show "TASKS s' = TASKS s" "\<And>p. p_ldt (PROC s' p) = p_ldt (PROC s p)" "MEM_MAP s' = MEM_MAP s"
    using f t by (simp_all add: same_tasks_def)
  show "ram s' = ram s" using f t(4) region_inv_inert [OF i] by (simp add: same_tasks_def)
qed

text \<open>A fork that creates a child.\<close>

lemma region_inv_child:
  assumes i: "region_inv s" and nr: "nr < NR_TASKS" "TASKS s nr = 0" and c: "can_fork nr j s"
    and u: "\<forall>e \<in> set (table (shared_entries (data_base s)) (page_addr j) (ram s)). \<not> counted e"
    and s': "TASKS s' = (TASKS s)(nr := p)" "PROC s' = (PROC s)(p := child_of nr p pid r s)" "p \<in> free_frames s" "p \<noteq> 0"
    and m: "shares_memory nr p j i' s s'"
  shows "region_inv s'"
proof -
  define n where "n = shared_entries (data_base s)"
  define k where "k = frame_of p"
  let ?es = "table n (page_addr j) (ram s)" and ?dir = "dir_addr (slot_base nr)"
  have c': "fork_ready (slot_base nr) (data_base s) (getDescLimit (p_ldt (PROC s (CURRENT s)) 2) + 1) j s"
    using c by (simp add: can_fork_def slot_base_def)
  have z: "refs ?es f = 0" for f using u by (simp add: refs_def n_def filter_empty_conv)
  have same: "map parent_entry ?es = ?es" using u by (intro map_idI) (simp add: parent_entry_def n_def)
  have M: "p = page_addr k" "0 < k" "k < PAGES_SIZE" "0 < i'" "i' < PAGES_SIZE" "i' \<noteq> k" "MEM_MAP s k = 0" "MEM_MAP s i' = 0"
      "ram s' ?dir = page_addr i' OR PG_P OR PG_RWW OR PG_USU"
      "table 1024 (page_addr i') (ram s') = map (\<lambda>e. child_entry e 0) ?es @ replicate (1024 - n) 0"
      "table n (page_addr j) (ram s') = ?es"
      "\<And>x. x \<noteq> ?dir \<Longrightarrow> x \<notin> page_words k \<Longrightarrow> x \<notin> page_words i' \<Longrightarrow> x \<notin> words n (page_addr j) \<Longrightarrow> ram s' x = ram s x"
      "\<And>x. unat x < 4096 \<Longrightarrow> x \<noteq> ?dir \<Longrightarrow> ram s' x = ram s x"
      "\<And>f. MEM_MAP s' f = (if f = i' \<or> f = k then 1 else MEM_MAP s f)"
    using m same z unfolding shares_memory_def Let_def n_def [symmetric] k_def [symmetric] slot_base_def [symmetric] by simp_all
  have up: "MEM_MAP s f \<noteq> 0 \<Longrightarrow> MEM_MAP s' f \<noteq> 0" for f using M(14) [of f] by simp
  have keep: "ram s' x = ram s x" if "0 < f" "f < PAGES_SIZE" "MEM_MAP s f \<noteq> 0" "x \<in> page_words f" for f x
  proof (cases "x \<in> words n (page_addr j)")
    case True
    then show ?thesis using table_pointwise M(11) by metis
  next
    case False
    have "f \<noteq> k" "f \<noteq> i'" using that(3) M(7,8) by auto
    then have "x \<notin> page_words k" "x \<notin> page_words i'"
      using page_words_disjoint [of f k] page_words_disjoint [of f i'] that(2,4) M(3,5) by auto
    moreover have "x \<noteq> ?dir" using dir_addr_not_page [OF that(1,2)] that(4) by blast
    ultimately show ?thesis using M(12) False by blast
  qed
  have low: "\<forall>f < 256. MEM_MAP s' f \<noteq> 0" using i up by (simp add: region_inv_def)
  have "if TASKS s' q = 0 then \<not> present (ram s' (dir_addr (slot_base q))) else \<exists>j. own_region q s' j" if q: "q < NR_TASKS" for q
  proof (cases "q = nr")
    case True
    have "own_region nr s' i'" unfolding own_region_def
    proof (intro conjI)
      have P: "PROC s' (TASKS s' nr) = child_of nr p pid r s" by (simp add: s'(1,2))
      show "getDescBase (p_ldt (PROC s' (TASKS s' nr)) 1) = slot_base nr" "getDescBase (p_ldt (PROC s' (TASKS s' nr)) 2) = slot_base nr"
        "dir_count (getDescLimit (p_ldt (PROC s' (TASKS s' nr)) 2) + 1) = 1"
        using c' unfolding P by (simp_all add: child_of_def rebase_def child_process_def slot_base_def fork_ready_def)
      show "TASKS s' nr \<notin> free_frames s'"
      proof -
        have "MEM_MAP s' k \<noteq> 0" using M(14) by simp
        then have "page_addr k \<notin> free_frames s'" using M(3) by (auto simp: free_frames_def page_addr_inj)
        then show ?thesis by (simp add: s'(1) M(1))
      qed
      show "present (ram s' ?dir)" "0xFFFFF000 AND ram s' ?dir = page_addr i'"
        unfolding M(9) using dir_entry_page [OF M(5)] by blast+
      show "0 < i'" "i' < PAGES_SIZE" "MEM_MAP s' i' \<noteq> 0" using M(4,5,14) by simp_all
      have "\<not> counted e" if "e \<in> set (table 1024 (page_addr i') (ram s'))" for e
        using that u counted_child unfolding M(10) n_def by fastforce
      moreover have "shared_entries (slot_base nr) = 1024"
        using c' by (simp add: shared_entries_def fork_ready_def)
      ultimately show "\<forall>e \<in> set (table (shared_entries (slot_base nr)) (page_addr i') (ram s')). \<not> counted e" by metis
    qed
    then show ?thesis using True s'(1,4) by auto
  next
    case False
    then have d: "ram s' (dir_addr (slot_base q)) = ram s (dir_addr (slot_base q))"
      using dir_slot_inj q nr(1) M(13) unat_dir_addr by metis
    have t: "TASKS s' q = TASKS s q" using False by (simp add: s'(1))
    have "own_region q s' j" if "own_region q s j" for j
    proof (rule own_region_mono [OF that t _ up d keep])
      have "TASKS s q \<noteq> p" using that s'(3) by (auto simp: own_region_def)
      then show "p_ldt (PROC s' (TASKS s q)) = p_ldt (PROC s (TASKS s q))" by (simp add: s'(2))
    qed
    then show ?thesis using i q unfolding region_inv_def t d by metis
  qed
  then show ?thesis using low unfolding region_inv_def by blast
qed

lemma region_inv_undone:
  assumes i: "region_inv s" and f: "free_frames s = {p}" and t: "TASKS s' = TASKS s" "MEM_MAP s' = MEM_MAP s"
    and p: "\<forall>q. q \<noteq> p \<longrightarrow> PROC s' q = PROC s q" and r: "\<forall>x. x \<notin> page_words (frame_of p) \<longrightarrow> ram s' x = ram s x"
  shows "region_inv s'"
proof -
  obtain g where g: "p = page_addr g" "g < PAGES_SIZE" "MEM_MAP s g = 0" using f by (auto simp: free_frames_def)
  have fp: "frame_of p = g" using drop_page_addr [of g] g(1,2) by (simp add: frame_of_def)
  have "\<not> g < 256" using i g(3) by (auto simp: region_inv_def)
  then have g0: "0 < g" by simp
  have dir: "ram s' (dir_addr (slot_base k)) = ram s (dir_addr (slot_base k))" for k
    using r dir_addr_not_page [OF g0 g(2)] unfolding fp by blast
  have "own_region k s' j" if "own_region k s j" for k j
  proof (rule own_region_mono [OF that t(1) [THEN fun_cong] _ _ dir])
    have "TASKS s k \<noteq> p" using that f by (auto simp: own_region_def)
    then show "p_ldt (PROC s' (TASKS s k)) = p_ldt (PROC s (TASKS s k))" using p by simp
    show "MEM_MAP s h \<noteq> 0 \<Longrightarrow> MEM_MAP s' h \<noteq> 0" for h by (simp add: t(2))
    show "ram s' x = ram s x" if "0 < h" "h < PAGES_SIZE" "MEM_MAP s h \<noteq> 0" "x \<in> page_words h" for h x
    proof -
      have "h \<noteq> g" using that(3) g(3) by auto
      then have "x \<notin> page_words g" using page_words_disjoint [of h g] that(2,4) g(2) by auto
      then show ?thesis using r unfolding fp by blast
    qed
  qed
  then show ?thesis using i unfolding region_inv_def t dir by metis
qed

lemma region_inv_fork:
  assumes i: "tasks_inv s" "region_inv s" and r: "sysFork n r s = Inr (v, s')"
  shows "region_inv s'"
proof -
  obtain w t where w: "findEmptyProcess n s = Inr (w, t)"
    "(if w = - 1 then Inr (- 1, t) else copyProcess (unat w) r t) = Inr (v, s')"
    using r by (auto simp: sysFork_def)
  from findEmptyProcess_frame [OF w(1)] obtain l where l: "w = free_slot s" "t = s\<lparr>last_pid := l\<rparr>" by blast
  have it: "tasks_inv t" "region_inv t"
    using i region_inv_same [OF i(2), of t] by (simp_all add: l(2) tasks_inv_def)
  show ?thesis
  proof (cases "w = - 1")
    case True
    then show ?thesis using w(2) it(2) by simp
  next
    case False
    with w(2) have c: "copyProcess (unat w) r t = Inr (v, s')" by simp
    from free_slot_unat [of s] False l have slot: "unat w < NR_TASKS" "TASKS t (unat w) = 0" by simp_all
    obtain j where j: "can_fork (unat w) j t"
      "\<forall>e \<in> set (table (shared_entries (data_base t)) (page_addr j) (ram t)). \<not> counted e"
      using region_inv_can_fork [OF it slot] by blast
    have ok: "mem_ok t" using region_inv_blocks [OF it(2)] by (simp add: blocks_taken_def)
    consider "free_frames t = {}" | p where "free_frames t = {p}"
      | "\<not> is_singleton (free_frames t)" "free_frames t \<noteq> {}" by (auto simp: is_singleton_def)
    then show ?thesis
    proof cases
      case 1
      then have "getFreePage t = (0, t)"
        using pool.alloc_fails [OF ok] pool.alloc_fresh [OF ok] by (metis emptyE prod.collapse)
      then show ?thesis using c it(2) by (simp add: copyProcess_def)
    next
      case (2 p)
      then obtain g where g: "p = page_addr g" "g < PAGES_SIZE" "MEM_MAP t g = 0" by (auto simp: free_frames_def)
      have "\<not> g < 256" using it(2) g(3) by (auto simp: region_inv_def)
      then have "KERNEL_MEM \<le> p" using g(1,2) unat_page_addr [of g] by (simp add: word_le_nat_alt)
      from copyProcess_undone [OF j(1) 2 this slot(2), of r] c show ?thesis
        using region_inv_undone [OF it(2) 2] by auto
    next
      case 3
      have "unat w < 62" using copyProcess_child [OF j(1) 3, of r] c by (auto split: if_splits)
      with copyProcess_child [OF j(1) 3, of r] c obtain p i' where p: "p \<in> free_frames t"
        "TASKS s' = (TASKS t)(unat w := p)" "PROC s' = (PROC t)(p := child_of (unat w) p (last_pid t) r t)"
        "shares_memory (unat w) p j i' t s'" by auto
      have "p \<noteq> 0" using p(1) ok by (auto simp: free_frames_def mem_ok_def page_addr_0)
      from region_inv_child [OF it(2) slot j p(2,3,1) this p(4)] show ?thesis .
    qed
  qed
qed

subsection \<open>The invariant of every run\<close>

definition kernel_inv :: "'a kernel_scheme \<Rightarrow> bool" where
  "kernel_inv s \<longleftrightarrow> tasks_inv s \<and> region_inv s"

text \<open>Two states that differ in the running, the state and the time of processes and in the queues only.\<close>

definition same_memory :: "'a kernel_scheme \<Rightarrow> 'a kernel_scheme \<Rightarrow> bool" where
  "same_memory s t \<longleftrightarrow> TASKS t = TASKS s \<and> CURRENT t = CURRENT s \<and> MEM_MAP t = MEM_MAP s \<and> ram t = ram s \<and>
     (\<forall>p. p_pid (PROC t p) = p_pid (PROC s p) \<and> p_ldt (PROC t p) = p_ldt (PROC s p))"

lemma kernel_inv_same:
  assumes "kernel_inv s" and "same_memory s t"
  shows "kernel_inv t"
  using assms tasks_inv_same [of s t] region_inv_same [of s t] by (simp add: kernel_inv_def same_memory_def)

lemma kernel_inv_schedule:
  assumes "kernel_inv s" and "same_memory s t" and "schedule n t = Inr s'"
  shows "kernel_inv s'"
proof -
  have t: "tasks_inv t" "region_inv t" using kernel_inv_same [OF assms(1,2)] by (simp_all add: kernel_inv_def)
  show ?thesis
    using tasks_inv_schedule [OF t(1) _ _ assms(3)] region_inv_schedule [OF t _ _ _ _ assms(3)] by (simp add: kernel_inv_def)
qed

lemma kernel_inv_step: "kstep n s s' \<Longrightarrow> kernel_inv s \<Longrightarrow> kernel_inv s'"
proof (induction rule: kstep.induct)
  case (tick s s')
  let ?t = "upd_proc (CURRENT s) (\<lambda>p. p\<lparr>p_counter := p_counter p - 1\<rparr>) (s\<lparr>TICKS := TICKS s + 1\<rparr>)"
  have t: "same_memory s ?t" by (simp add: same_memory_def upd_proc_def)
  have "s' = ?t \<or> schedule n ?t = Inr s'"
    using tick(1) by (auto simp: timerHandler_def Let_def upd_proc_def split: if_splits)
  then show ?case using kernel_inv_same [OF tick(2) t] kernel_inv_schedule [OF tick(2) t] by blast
next
  case (wake s q)
  show ?case by (rule kernel_inv_same [OF wake]) (simp add: same_memory_def wakeUp_def set_waitq_def upd_proc_def)
next
  case (sleep s q s')
  show ?case
    by (rule kernel_inv_schedule [OF sleep(2) _ sleep(1)]) (simp add: same_memory_def set_waitq_def upd_proc_def)
next
  case (resume s tmp q)
  show ?case by (rule kernel_inv_same [OF resume]) (simp add: same_memory_def set_waitq_def upd_proc_def)
next
  case (pause s s')
  show ?case by (rule kernel_inv_schedule [OF pause(2) _ pause(1)]) (simp add: same_memory_def upd_proc_def)
next
  case (fork s r v s')
  then show ?case using tasks_inv_fork [OF _ region_inv_blocks] region_inv_fork unfolding kernel_inv_def by blast
qed

text \<open>
  The kernel at its start: process 0 alone, with the segments that \<open>initSchedule\<close> gives it, a page table
  below one megabyte whose first 160 entries map the first megabyte, no mapping in the regions of the other
  slots, and every page below one megabyte taken.
\<close>

definition kernel_start :: "u32 \<Rightarrow> 'a kernel_scheme \<Rightarrow> bool" where
  "kernel_start init s \<longleftrightarrow> init \<noteq> 0 \<and> init \<notin> free_frames s \<and> TASKS s = (\<lambda>i. if i = 0 then init else 0) \<and>
     CURRENT s = init \<and> p_ldt (PROC s init) = p_ldt (first_process init) \<and> (\<forall>f < 256. MEM_MAP s f \<noteq> 0) \<and>
     (\<exists>j. 0 < j \<and> j < 256 \<and> present (ram s 0) \<and> 0xFFFFF000 AND ram s 0 = page_addr j \<and>
       (\<forall>e \<in> set (table 0xA0 (page_addr j) (ram s)). present e \<longrightarrow> frame_of e < 256)) \<and>
     (\<forall>k. 0 < k \<and> k < NR_TASKS \<longrightarrow> \<not> present (ram s (of_nat (64 * k))))"

lemma dir_slot_word: "k < 64 \<Longrightarrow> dir_addr (slot_base k) = of_nat (64 * k)"
  using dir_slot(1) [of k] unat_of_nat_u32 [of "64 * k"] by (simp add: word_unat_eq_iff)

lemma kernel_start_inv:
  assumes "kernel_start init s"
  shows "kernel_inv s"
proof -
  have "tasks_inv s" using assms by (auto simp: tasks_inv_def kernel_start_def)
  moreover have "region_inv s"
  proof -
    from assms obtain j where j: "0 < j" "j < 256" "present (ram s 0)" "0xFFFFF000 AND ram s 0 = page_addr j"
      "\<forall>e \<in> set (table 0xA0 (page_addr j) (ram s)). present e \<longrightarrow> frame_of e < 256" "MEM_MAP s j \<noteq> 0"
      by (auto simp: kernel_start_def)
    have c: "\<not> counted e" if "e \<in> set (table 0xA0 (page_addr j) (ram s))" for e using j(5) that by (auto simp: counted_iff)
    have z: "slot_base 0 = 0" by (simp add: slot_base_def)
    have t: "TASKS s 0 = init" "p_ldt (PROC s init) = p_ldt (first_process init)" "init \<notin> free_frames s"
      using assms by (simp_all add: kernel_start_def)
    have "own_region 0 s j" using j(1-4,6) c
      unfolding own_region_def z t first_process_ldt shared_entries_def
      by (simp add: t(3) dir_count_def)
    moreover have "\<not> present (ram s (dir_addr (slot_base k)))" "TASKS s k = 0" if "0 < k" "k < 64" for k
      using assms that unfolding dir_slot_word [OF that(2)] by (simp_all add: kernel_start_def)
    moreover have "TASKS s 0 \<noteq> 0" "\<forall>f < 256. MEM_MAP s f \<noteq> 0" using assms by (simp_all add: kernel_start_def)
    ultimately show ?thesis unfolding region_inv_def by (metis neq0_conv)
  qed
  ultimately show ?thesis by (simp add: kernel_inv_def)
qed

lemma kernel_inv_reachable: "(kstep n)\<^sup>*\<^sup>* s s' \<Longrightarrow> kernel_inv s \<Longrightarrow> kernel_inv s'"
  by (induction rule: rtranclp_induct) (auto intro: kernel_inv_step)

text \<open>C17. In every state that timer ticks, sleeps, wake-ups, pauses and forks lead to from the start of the
  kernel, with process 0 alone, its page table and what it maps below one megabyte and no other region mapped:
  the running process is in the table of processes, slot 0 is taken, no two slots hold the same process or the
  same process number, and no process of the table has its control block in a free page. Page faults are not
  among these steps.\<close>

theorem process_table_invariant:
  assumes "(kstep n)\<^sup>*\<^sup>* s s'" and "kernel_start init s"
  shows "TASKS s' 0 \<noteq> 0 \<and> (\<exists>k < 64. TASKS s' k \<noteq> 0 \<and> CURRENT s' = TASKS s' k) \<and>
    (\<forall>i < 64. TASKS s' i \<noteq> 0 \<longrightarrow> TASKS s' i \<notin> free_frames s') \<and>
    (\<forall>i < 64. \<forall>j < 64. TASKS s' i \<noteq> 0 \<and> TASKS s' j \<noteq> 0 \<and> i \<noteq> j \<longrightarrow>
      TASKS s' i \<noteq> TASKS s' j \<and> p_pid (PROC s' (TASKS s' i)) \<noteq> p_pid (PROC s' (TASKS s' j)))"
proof -
  have i: "tasks_inv s'" "blocks_taken s'"
    using kernel_inv_reachable [OF assms(1) kernel_start_inv [OF assms(2)]] region_inv_blocks by (auto simp: kernel_inv_def)
  then show ?thesis unfolding tasks_inv_def blocks_taken_def by metis
qed

lemma first_boot_start: "kernel_start 0x20000 first_boot"
proof -
  have "\<not> present (ram first_boot (of_nat (64 * k)))" if "0 < k" "k < 64" for k
  proof -
    have "unat (of_nat (64 * k) :: u32) = 64 * k" using that by (intro unat_of_nat_u32) simp
    then have "ram first_boot (of_nat (64 * k)) = 0" using that by (intro first_boot_directory) simp_all
    then show ?thesis by simp
  qed
  moreover have "(0xFFFFF000 :: u32) AND 0x1007 = page_addr 1" "present 0x1007" by (simp_all add: page_addr_def present_def)
  moreover have "\<forall>e \<in> set (table 0xA0 (page_addr 1) (ram first_boot)). present e \<longrightarrow> frame_of e < 256"
    using first_boot_table by (force simp: counted_iff)
  moreover have "0x20000 \<notin> free_frames process_boot" using first_boot_can_fork by (simp add: can_fork_def)
  ultimately show ?thesis unfolding kernel_start_def by (auto intro!: exI [of _ 1])
qed

text \<open>A run with a fork and a timer tick.\<close>

theorem process_table_invariant_witness:
  "\<exists>s'. (kstep 4225)\<^sup>*\<^sup>* first_boot s' \<and> p_counter (PROC s' (CURRENT s')) = 14 \<and> TASKS s' 1 \<noteq> 0 \<and>
    p_pid (PROC s' (TASKS s' 0)) \<noteq> p_pid (PROC s' (TASKS s' 1))"
proof -
  obtain p i pid s1 where s1: "sysFork (4225 + 0) some_regs first_boot = Inr (pid, s1)" "p \<in> free_frames first_boot"
    "TASKS s1 = (TASKS first_boot)(1 := p)" "PROC s1 = (PROC first_boot)(p := child_of 1 p pid some_regs first_boot)"
    "CURRENT s1 = CURRENT first_boot"
    using sysFork_creates [of first_boot 1 "page_addr 2000" "page_addr 2001" 0 some_regs]
      first_boot_can_fork process_boot_frames by (auto simp: first_boot_slot)
  have p: "p \<noteq> 0" "p \<noteq> 0x20000"
    using s1(2) first_boot_can_fork page_addr_0 by (auto simp: can_fork_def free_frames_def)
  have "timerHandler 4225 s1 = Inr (ticked 1 s1)"
    using p by (simp add: timerHandler_def s1(4,5) upd_proc_def ticked_def Let_def)
  moreover have "kstep 4225 first_boot s1" using s1(1) by (intro kstep.fork) simp
  ultimately have st: "(kstep 4225)\<^sup>*\<^sup>* first_boot (ticked 1 s1)"
    by (meson kstep.tick converse_rtranclp_into_rtranclp rtranclp.rtrancl_refl)
  have T: "TASKS (ticked 1 s1) = TASKS s1" by (simp add: ticked_def upd_proc_def)
  have "p_pid (PROC (ticked 1 s1) (TASKS (ticked 1 s1) 0)) \<noteq> p_pid (PROC (ticked 1 s1) (TASKS (ticked 1 s1) 1))"
    using process_table_invariant [OF st first_boot_start, THEN conjunct2, THEN conjunct2, THEN conjunct2, rule_format, of 0 1]
      p(1) unfolding T s1(3) by simp
  moreover have "p_counter (PROC (ticked 1 s1) (CURRENT (ticked 1 s1))) = 14"
    using p by (simp add: ticked_def upd_proc_def s1(4,5))
  moreover have "TASKS (ticked 1 s1) 1 \<noteq> 0" unfolding T s1(3) using p(1) by simp
  ultimately show ?thesis using st by blast
qed

end
