(* ===== verification/Request.thy ===== *)
theory Request
  imports Process
begin

section \<open>Buffers and requests\<close>

text \<open>
  The data of \<^verbatim>\<open>include/fs.h\<close> and \<^verbatim>\<open>include/blk_drv/blk.h\<close> that the block devices and the buffer cache
  share, the lock of a buffer and \<open>endRequest\<close> (\<^verbatim>\<open>kernel/blk_drv/ll_rw_blk.c\<close>). Buffer heads are in a heap
  of their own, by address; requests are named by their index in \<^verbatim>\<open>REQUEST_INFO\<close>; \<open>DATA\<close> holds the bytes
  of the blocks. The waiting process of a request or a buffer is a cell of \<open>WAITQ\<close>.
\<close>

abbreviation (input) READ :: t32 where "READ \<equiv> 0"
abbreviation (input) WRITE :: t32 where "WRITE \<equiv> 1"
abbreviation (input) READA :: t32 where "READA \<equiv> 2"
abbreviation (input) WRITEA :: t32 where "WRITEA \<equiv> 3"
abbreviation (input) MAJOR_NR :: nat where "MAJOR_NR \<equiv> 3"
abbreviation (input) NR_REQUEST :: nat where "NR_REQUEST \<equiv> 32"
abbreviation (input) NR_BLK_DEV :: nat where "NR_BLK_DEV \<equiv> 7"
abbreviation (input) BLOCK_SIZE :: u32 where "BLOCK_SIZE \<equiv> 1024"

text \<open>\<^verbatim>\<open>MAJOR\<close> and \<^verbatim>\<open>MINOR\<close> of a device number.\<close>

definition MAJOR :: "u32 \<Rightarrow> u32" where
  "MAJOR a = drop_bit 8 a"

definition MINOR :: "u32 \<Rightarrow> u32" where
  "MINOR a = a AND 0xFF"

record buffer_head =
  b_data :: u32
  b_block_nr :: u32
  b_dev :: u16
  b_uptodate :: u8
  b_dirt :: u8
  b_count :: u8
  b_lock :: u8
  b_prev :: u32
  b_next :: u32
  b_prev_free :: u32
  b_next_free :: u32

record request =
  r_dev :: t32
  r_cmd :: t32
  r_errors :: t32
  r_sector :: u32
  r_nr_sectors :: u32
  r_buffer :: u32
  r_bh :: u32
  r_next :: "nat option"

datatype request_fn = HarddiskRequest

record blk_dev =
  request_fn :: "request_fn option"
  current_request :: "nat option"

record hard_disk =
  hd_head :: u32
  hd_sector :: u32
  hd_cylinder :: u32
  hd_wpcom :: u32
  hd_lzone :: u32
  hd_ctrl :: u32

record hd =
  start_sector :: u32
  cnt_sectors :: u32

record blk = kernel +
  REQUEST_INFO :: "nat \<Rightarrow> request"
  BLK_DEV_INFO :: "nat \<Rightarrow> blk_dev"
  HARD_DISK_INFO :: hard_disk
  HD_INFO :: "nat \<Rightarrow> hd"
  DEVICE_INTR :: "irq_handler option"
  hd_reset :: bool
  hd_recalibrate :: bool
  BUF :: "u32 \<Rightarrow> buffer_head"
  DATA :: "u32 \<Rightarrow> u8"

definition upd_buf :: "u32 \<Rightarrow> (buffer_head \<Rightarrow> buffer_head) \<Rightarrow> 'a blk_scheme \<Rightarrow> 'a blk_scheme" where
  "upd_buf p f s = s\<lparr>BUF := (BUF s)(p := f (BUF s p))\<rparr>"

definition upd_req :: "nat \<Rightarrow> (request \<Rightarrow> request) \<Rightarrow> 'a blk_scheme \<Rightarrow> 'a blk_scheme" where
  "upd_req i f s = s\<lparr>REQUEST_INFO := (REQUEST_INFO s)(i := f (REQUEST_INFO s i))\<rparr>"

definition upd_dev :: "nat \<Rightarrow> (blk_dev \<Rightarrow> blk_dev) \<Rightarrow> 'a blk_scheme \<Rightarrow> 'a blk_scheme" where
  "upd_dev d f s = s\<lparr>BLK_DEV_INFO := (BLK_DEV_INFO s)(d := f (BLK_DEV_INFO s d))\<rparr>"

definition initBlkDev :: "'a blk_scheme \<Rightarrow> 'a blk_scheme" where
  "initBlkDev s =
     fold (\<lambda>i. upd_req i (\<lambda>r. r\<lparr>r_dev := - 1, r_next := None\<rparr>)) [0..<NR_REQUEST]
       (fold (\<lambda>i. upd_dev i (\<lambda>d. d\<lparr>request_fn := None, current_request := None\<rparr>)) [0..<NR_BLK_DEV] s)"

subsection \<open>The lock of a buffer\<close>

definition lockBuffer :: "'a blk_scheme platform \<Rightarrow> u32 \<Rightarrow> 'a blk_scheme \<Rightarrow> 'a blk_scheme outcome" where
  "lockBuffer pf bh s =
     andThen (wait_loop (pf_fuel pf) pf (\<lambda>s. b_lock (BUF s bh) \<noteq> 0) (BufferWait bh) (disableInt s))
       (\<lambda>s. Inr (enableInt (upd_buf bh (\<lambda>b. b\<lparr>b_lock := 1\<rparr>) s)))"

definition unlockBuffer :: "'a blk_scheme platform \<Rightarrow> u32 \<Rightarrow> 'a blk_scheme \<Rightarrow> 'a blk_scheme outcome" where
  "unlockBuffer pf bh s =
     andThen (if b_lock (BUF s bh) = 0
        then kmsg pf (''ll_rw_block.c: buffer not locked'' @ [CHR 0x0A, CHR 0x0D]) (\<lambda>_. 0) s else Inr s)
       (\<lambda>s. Inr (wakeUp (BufferWait bh) (upd_buf bh (\<lambda>b. b\<lparr>b_lock := 0\<rparr>) s)))"

subsection \<open>The end of a request\<close>

text \<open>
  \<open>endRequest\<close> on the current request of the disk; without one it would read through a null pointer. The
  last statement, \<^verbatim>\<open>curr = curr->next\<close>, assigns a local variable.
\<close>

definition endRequest :: "'a blk_scheme platform \<Rightarrow> u8 \<Rightarrow> 'a blk_scheme \<Rightarrow> 'a blk_scheme outcome" where
  "endRequest pf uptodate s =
     (case current_request (BLK_DEV_INFO s MAJOR_NR) of
        None \<Rightarrow> Inl (Fault ''endRequest'')
      | Some cur \<Rightarrow>
          let bh = r_bh (REQUEST_INFO s cur)
          in andThen
               (if bh \<noteq> 0 then unlockBuffer pf bh (upd_buf bh (\<lambda>b. b\<lparr>b_uptodate := uptodate\<rparr>) s) else Inr s)
               (\<lambda>s. andThen
                 (if uptodate = 0 then
                    andThen (kmsg pf (''harddisk I/O error'' @ [CHR 0x0A, CHR 0x0D]) (\<lambda>_. 0) s) (\<lambda>s.
                      if bh = 0 then Inl (Fault ''endRequest'')
                      else kmsg pf (''dev %04x, block %d'' @ [CHR 0x0A, CHR 0x0D])
                             (\<lambda>k. if k = 0 then r_dev (REQUEST_INFO s cur) else b_block_nr (BUF s bh)) s)
                  else Inr s)
                 (\<lambda>s. Inr (upd_req cur (\<lambda>r. r\<lparr>r_dev := - 1\<rparr>)
                        (wakeUp WAIT_FOR_REQUEST (wakeUp (RequestWait cur) s))))))"

end
