(* ===== verification/Harddisk.thy ===== *)
theory Harddisk
  imports Request
begin

section \<open>The hard disk\<close>

text \<open>
  \<^verbatim>\<open>kernel/blk_drv/harddisk.c\<close>: the commands to the controller, the request routine and the four interrupt
  routines. The controller answers through the device parameters of the platform.
\<close>

abbreviation (input) HD_CMD :: u32 where "HD_CMD \<equiv> 0x3F6"
abbreviation (input) HD_DATA :: u32 where "HD_DATA \<equiv> 0x1F0"
abbreviation (input) HD_ERROR :: u32 where "HD_ERROR \<equiv> 0x1F1"
abbreviation (input) HD_STATUS :: u32 where "HD_STATUS \<equiv> 0x1F7"
abbreviation (input) AT_WINI_IRQ :: nat where "AT_WINI_IRQ \<equiv> 14"

text \<open>\<open>initHarddisk\<close> installs the value that \<^verbatim>\<open>DEVICE_INTR\<close> has at the start, the null pointer.\<close>

definition initHarddisk :: "device \<Rightarrow> 'a blk_scheme \<Rightarrow> 'a blk_scheme" where
  "initHarddisk dev s =
     (let s = s\<lparr>hd_reset := False, hd_recalibrate := False\<rparr>;
          s = upd_dev MAJOR_NR (\<lambda>d. d\<lparr>request_fn := Some HarddiskRequest\<rparr>) s;
          s = putIrqHandler AT_WINI_IRQ (DEVICE_INTR s) s
      in enableIrq dev AT_WINI_IRQ s)"

text \<open>The result of the last command; \<open>True\<close> is failure.\<close>

definition winResult :: "device \<Rightarrow> 'a io_scheme \<Rightarrow> bool \<times> 'a io_scheme" where
  "winResult dev s =
     (let (i, s) = inByte dev HD_STATUS s
      in if i AND (0x80 OR 0x40 OR 0x20 OR 0x10 OR 0x01) = 0x40 OR 0x10 then (False, s)
         else if i AND 1 \<noteq> 0 then (True, snd (inByte dev HD_ERROR s))
         else (True, s))"

definition badRwIntr :: "'a blk_scheme platform \<Rightarrow> 'a blk_scheme \<Rightarrow> 'a blk_scheme outcome" where
  "badRwIntr pf s =
     (case current_request (BLK_DEV_INFO s MAJOR_NR) of
        None \<Rightarrow> Inl (Fault ''badRwIntr'')
      | Some cur \<Rightarrow>
          let s = upd_req cur (\<lambda>r. r\<lparr>r_errors := r_errors r + 1\<rparr>) s
          in andThen (if sint (r_errors (REQUEST_INFO s cur)) \<ge> 7 then endRequest pf 0 s else Inr s) (\<lambda>s.
             Inr (if sint (r_errors (REQUEST_INFO s cur)) > 7 div 2 then s\<lparr>hd_reset := True\<rparr> else s)))"

subsection \<open>Commands\<close>

text \<open>Up to 10000 readings of the status until the drive is ready.\<close>

primrec busy_loop :: "device \<Rightarrow> nat \<Rightarrow> 'a io_scheme \<Rightarrow> 'a io_scheme" where
  "busy_loop dev 0 s = s"
| "busy_loop dev (Suc n) s =
     (let (v, s) = inByte dev HD_STATUS s in if v AND (0x80 OR 0x40) = 0x40 then s else busy_loop dev n s)"

definition driveBusy :: "'a kernel_scheme platform \<Rightarrow> 'a kernel_scheme \<Rightarrow> (bool \<times> 'a kernel_scheme) outcome" where
  "driveBusy pf s =
     (let s = busy_loop (pf_dev pf) 10000 s;
          (i, s) = inByte (pf_dev pf) HD_STATUS s
      in if i AND (0x80 OR 0x40 OR 0x10) = 0x40 OR 0x10 then Inr (False, s)
         else andThen (kmsg pf (''HD controller times out'' @ [CHR 0x0A, CHR 0x0D]) (\<lambda>_. 0) s) (\<lambda>s. Inr (True, s)))"

text \<open>\<^verbatim>\<open>while (--retries && (inByte(HD_STATUS) & 0x80))\<close>, with the retries left.\<close>

fun ready_loop :: "device \<Rightarrow> nat \<Rightarrow> 'a io_scheme \<Rightarrow> nat \<times> 'a io_scheme" where
  "ready_loop dev 0 s = (0, s)"
| "ready_loop dev (Suc 0) s = (0, s)"
| "ready_loop dev (Suc (Suc n)) s =
     (let (v, s) = inByte dev HD_STATUS s in if v AND 0x80 \<noteq> 0 then ready_loop dev (Suc n) s else (Suc n, s))"

definition controllerReady :: "device \<Rightarrow> 'a io_scheme \<Rightarrow> nat \<times> 'a io_scheme" where
  "controllerReady dev s = ready_loop dev 100000 s"

text \<open>Both calls of \<^verbatim>\<open>outByte\<close> in \<open>resetController\<close> have the value in the place of the port.\<close>

definition resetController :: "'a blk_scheme platform \<Rightarrow> 'a blk_scheme \<Rightarrow> 'a blk_scheme outcome" where
  "resetController pf s =
     (let s = outByte 4 (ucast HD_CMD) s;
          s = outByte (hd_ctrl (HARD_DISK_INFO s) AND 0x0F) (ucast HD_CMD) s
      in andThen (driveBusy pf s) (\<lambda>(busy, s).
         andThen (if busy then kmsg pf (''HD-controller still busy'' @ [CHR 0x0A, CHR 0x0D]) (\<lambda>_. 0) s else Inr s) (\<lambda>s.
         let (i, s) = inByte (pf_dev pf) HD_ERROR s
         in if i \<noteq> 1 then kmsg pf (''HD-controller reset failed: %02x'' @ [CHR 0x0A, CHR 0x0D]) (\<lambda>_. ucast i) s
            else Inr s)))"

text \<open>The task file of the controller: the ports from 1F1H on, in order.\<close>

definition hdOut ::
  "'a blk_scheme platform \<Rightarrow> u32 \<Rightarrow> u32 \<Rightarrow> u32 \<Rightarrow> u32 \<Rightarrow> u32 \<Rightarrow> u32 \<Rightarrow> irq_handler \<Rightarrow> 'a blk_scheme \<Rightarrow> 'a blk_scheme outcome"
where
  "hdOut pf drive nsect sect head cyl cmd intr_addr s =
     (if drive > 1 \<or> head > 15
      then andThen (kmsg pf ''Trying to write bad sector'' (\<lambda>_. 0) s) (\<lambda>_. Inl (Hang ''hdOut''))
      else
        let (retries, s) = controllerReady (pf_dev pf) s
        in if retries = 0
           then andThen (kmsg pf ''HD controller not ready'' (\<lambda>_. 0) s) (\<lambda>_. Inl (Hang ''hdOut''))
           else
             let s = s\<lparr>DEVICE_INTR := Some intr_addr\<rparr>;
                 s = outByte HD_CMD (ucast (hd_ctrl (HARD_DISK_INFO s))) s;
                 s = outByte 0x1F1 (ucast (drop_bit 2 (hd_wpcom (HARD_DISK_INFO s)))) s;
                 s = outByte 0x1F2 (ucast nsect) s;
                 s = outByte 0x1F3 (ucast sect) s;
                 s = outByte 0x1F4 (ucast cyl) s;
                 s = outByte 0x1F5 (ucast (drop_bit 8 cyl)) s;
                 s = outByte 0x1F6 (ucast (0xA0 OR push_bit 4 drive OR head)) s
             in Inr (outByte 0x1F7 (ucast cmd) s))"

definition resetHd :: "'a blk_scheme platform \<Rightarrow> u32 \<Rightarrow> 'a blk_scheme \<Rightarrow> 'a blk_scheme outcome" where
  "resetHd pf nr s =
     andThen (resetController pf s) (\<lambda>s.
       let h = HARD_DISK_INFO s
       in hdOut pf nr (hd_sector h) (hd_sector h) (hd_head h - 1) (hd_cylinder h) 0x91 RecalIntr s)"

subsection \<open>The request routine\<close>

text \<open>Up to 3000 readings of the status until the controller asks for data; the last reading's bit.\<close>

primrec drq_loop :: "device \<Rightarrow> nat \<Rightarrow> 'a io_scheme \<Rightarrow> bool \<times> 'a io_scheme" where
  "drq_loop dev 0 s = (False, s)"
| "drq_loop dev (Suc n) s =
     (let (v, s) = inByte dev HD_STATUS s in if v AND 0x08 \<noteq> 0 then (True, s) else drq_loop dev n s)"

text \<open>The two messages about a request that is not one of the disk.\<close>

definition check_request :: "'a blk_scheme platform \<Rightarrow> nat \<Rightarrow> 'a blk_scheme \<Rightarrow> 'a blk_scheme outcome" where
  "check_request pf cur s =
     (if MAJOR (r_dev (REQUEST_INFO s cur)) \<noteq> of_nat MAJOR_NR then
        andThen (kmsg pf ''harddisk request list destroyed'' (\<lambda>_. 0) s) (\<lambda>s.
          if r_bh (REQUEST_INFO s cur) \<noteq> 0 \<and> b_lock (BUF s (r_bh (REQUEST_INFO s cur))) = 0
          then kmsg pf ''harddisk block not locked'' (\<lambda>_. 0) s else Inr s)
      else Inr s)"

text \<open>
  The command for a request in the range of its partition; \<open>again\<close> is the jump to \<^verbatim>\<open>repeat\<close>. A divisor of
  zero is a fault.
\<close>

definition start_command ::
  "'a blk_scheme platform \<Rightarrow> nat \<Rightarrow> ('a blk_scheme \<Rightarrow> 'a blk_scheme outcome) \<Rightarrow> 'a blk_scheme \<Rightarrow> 'a blk_scheme outcome"
where
  "start_command pf cur again s =
     (let req = REQUEST_INFO s cur;
          dev = MINOR (r_dev req);
          block = r_sector req + start_sector (HD_INFO s (unat dev));
          dev = dev div 5;
          h = HARD_DISK_INFO s
      in if hd_sector h = 0 \<or> hd_head h = 0 then Inl (Fault ''division'')
         else
           let sec = block mod hd_sector h;
               block = block div hd_sector h;
               head = block mod hd_head h;
               cyl = block div hd_head h;
               sec = sec + 1;
               nsect = r_nr_sectors req
           in if hd_reset s
              then resetHd pf (MINOR (r_dev req) div 5) (s\<lparr>hd_reset := False, hd_recalibrate := True\<rparr>)
              else if hd_recalibrate s
              then hdOut pf dev (hd_sector h) 0 0 0 0x10 RecalIntr (s\<lparr>hd_recalibrate := False\<rparr>)
              else if r_cmd req = WRITE
              then andThen (hdOut pf dev nsect sec head cyl 0x30 WriteIntr s) (\<lambda>s.
                let (r, s) = drq_loop (pf_dev pf) 3000 s
                in if \<not> r then andThen (badRwIntr pf s) again
                   else Inr (portWrite (DATA s) (pf_esi pf (trace s)) HD_DATA
                          (r_buffer (REQUEST_INFO s cur)) 256 s))
              else if r_cmd req = READ
              then hdOut pf dev nsect sec head cyl 0x20 ReadIntr s
              else kmsg pf ''unknown hd-command'' (\<lambda>_. 0) s)"

text \<open>
  \<open>harddiskRequest\<close> reads the current request once; the jumps to \<^verbatim>\<open>repeat\<close> start again with the same one.
\<close>

primrec request_loop :: "nat \<Rightarrow> 'a blk_scheme platform \<Rightarrow> nat \<Rightarrow> 'a blk_scheme \<Rightarrow> 'a blk_scheme outcome" where
  "request_loop 0 pf cur s = Inl NoFuel"
| "request_loop (Suc n) pf cur s =
     andThen (check_request pf cur s) (\<lambda>s.
       let dev = MINOR (r_dev (REQUEST_INFO s cur));
           block = r_sector (REQUEST_INFO s cur)
       in if dev \<ge> 5 \<or>
             block + 2 > start_sector (HD_INFO s (unat dev)) + cnt_sectors (HD_INFO s (unat dev)) - 1
          then andThen (endRequest pf 0 s) (request_loop n pf cur)
          else start_command pf cur (request_loop n pf cur) s)"

definition harddiskRequest :: "'a blk_scheme platform \<Rightarrow> 'a blk_scheme \<Rightarrow> 'a blk_scheme outcome" where
  "harddiskRequest pf s =
     (case current_request (BLK_DEV_INFO s MAJOR_NR) of
        None \<Rightarrow> Inr s
      | Some cur \<Rightarrow> request_loop (pf_fuel pf) pf cur s)"

subsection \<open>Interrupt routines\<close>

text \<open>\<open>portRead\<close> stores the bytes of a sector from an address on.\<close>

definition store_bytes :: "u32 \<Rightarrow> u8 list \<Rightarrow> 'a blk_scheme \<Rightarrow> 'a blk_scheme" where
  "store_bytes a bs s =
     s\<lparr>DATA := (\<lambda>x. if unat (x - a) < length bs then bs ! unat (x - a) else DATA s x)\<rparr>"

definition readIntr :: "'a blk_scheme platform \<Rightarrow> 'a blk_scheme \<Rightarrow> 'a blk_scheme outcome" where
  "readIntr pf s =
     (case current_request (BLK_DEV_INFO s MAJOR_NR) of
        None \<Rightarrow> Inl (Fault ''readIntr'')
      | Some cur \<Rightarrow>
          let (failed, s) = winResult (pf_dev pf) s
          in if failed then andThen (badRwIntr pf s) (harddiskRequest pf)
             else
               let (bs, s) = portRead (pf_bulk pf) HD_DATA 256 s;
                   s = store_bytes (r_buffer (REQUEST_INFO s cur)) bs s;
                   s = upd_req cur (\<lambda>r. r\<lparr>r_errors := 0, r_buffer := r_buffer r + 512,
                         r_sector := r_sector r + 1, r_nr_sectors := r_nr_sectors r - 1\<rparr>) s
               in if r_nr_sectors (REQUEST_INFO s cur) \<noteq> 0
                  then Inr (s\<lparr>DEVICE_INTR := Some ReadIntr\<rparr>)
                  else andThen (endRequest pf 1 s) (harddiskRequest pf))"

definition writeIntr :: "'a blk_scheme platform \<Rightarrow> 'a blk_scheme \<Rightarrow> 'a blk_scheme outcome" where
  "writeIntr pf s =
     (case current_request (BLK_DEV_INFO s MAJOR_NR) of
        None \<Rightarrow> Inl (Fault ''writeIntr'')
      | Some cur \<Rightarrow>
          let (failed, s) = winResult (pf_dev pf) s
          in if failed then andThen (badRwIntr pf s) (harddiskRequest pf)
             else
               let s = upd_req cur (\<lambda>r. r\<lparr>r_nr_sectors := r_nr_sectors r - 1\<rparr>) s
               in if r_nr_sectors (REQUEST_INFO s cur) \<noteq> 0
                  then
                    let s = upd_req cur (\<lambda>r. r\<lparr>r_sector := r_sector r + 1, r_buffer := r_buffer r + 512\<rparr>) s;
                        s = s\<lparr>DEVICE_INTR := Some WriteIntr\<rparr>
                    in Inr (portWrite (DATA s) (pf_esi pf (trace s)) HD_DATA (r_buffer (REQUEST_INFO s cur)) 256 s)
                  else andThen (endRequest pf 1 s) (harddiskRequest pf))"

definition recalIntr :: "'a blk_scheme platform \<Rightarrow> 'a blk_scheme \<Rightarrow> 'a blk_scheme outcome" where
  "recalIntr pf s =
     (let (failed, s) = winResult (pf_dev pf) s
      in andThen (if failed then badRwIntr pf s else Inr s) (harddiskRequest pf))"

end
