(* ===== verification/Blk.thy ===== *)
theory Blk
  imports Harddisk
begin

section \<open>The queue of requests\<close>

text \<open>
  The rest of \<^verbatim>\<open>kernel/blk_drv/ll_rw_blk.c\<close>: making a request and putting it into the queue of the device.
\<close>

definition in_order :: "request \<Rightarrow> request \<Rightarrow> bool" where
  "in_order s1 s2 \<longleftrightarrow>
     sint (r_cmd s1) < sint (r_cmd s2) \<or>
     r_cmd s1 = r_cmd s2 \<and>
       (sint (r_dev s1) < sint (r_dev s2) \<or> r_dev s1 = r_dev s2 \<and> r_sector s1 < r_sector s2)"

text \<open>The call through the pointer \<^verbatim>\<open>dev->request_fn\<close>.\<close>

definition call_request_fn :: "'a blk_scheme platform \<Rightarrow> nat \<Rightarrow> 'a blk_scheme \<Rightarrow> 'a blk_scheme outcome" where
  "call_request_fn pf major s =
     (case request_fn (BLK_DEV_INFO s major) of
        None \<Rightarrow> Inl (Fault ''request_fn'')
      | Some HarddiskRequest \<Rightarrow> harddiskRequest pf s)"

text \<open>The position in the queue: the request after which the new one goes.\<close>

primrec find_place :: "nat \<Rightarrow> (nat \<Rightarrow> request) \<Rightarrow> nat \<Rightarrow> nat \<Rightarrow> nat outcome" where
  "find_place 0 R req tmp = Inl NoFuel"
| "find_place (Suc n) R req tmp =
     (case r_next (R tmp) of
        None \<Rightarrow> Inr tmp
      | Some k \<Rightarrow>
          if (in_order (R tmp) (R req) \<or> \<not> in_order (R tmp) (R k)) \<and> in_order (R req) (R k) then Inr tmp
          else find_place n R req k)"

definition addRequest :: "'a blk_scheme platform \<Rightarrow> nat \<Rightarrow> nat \<Rightarrow> 'a blk_scheme \<Rightarrow> 'a blk_scheme outcome" where
  "addRequest pf major req s =
     (let s = disableInt (upd_req req (\<lambda>r. r\<lparr>r_next := None\<rparr>) s);
          bh = r_bh (REQUEST_INFO s req);
          s = (if bh \<noteq> 0 then upd_buf bh (\<lambda>b. b\<lparr>b_dirt := 0\<rparr>) s else s)
      in case current_request (BLK_DEV_INFO s major) of
           None \<Rightarrow>
             call_request_fn pf major (enableInt (upd_dev major (\<lambda>d. d\<lparr>current_request := Some req\<rparr>) s))
         | Some tmp \<Rightarrow>
             andThen (find_place (pf_fuel pf) (REQUEST_INFO s) req tmp) (\<lambda>tmp.
               let s = upd_req req (\<lambda>r. r\<lparr>r_next := r_next (REQUEST_INFO s tmp)\<rparr>) s;
                   s = upd_req tmp (\<lambda>r. r\<lparr>r_next := Some req\<rparr>) s
               in Inr (enableInt s)))"

text \<open>The search for a free request, downwards from \<open>n\<close>.\<close>

primrec free_request :: "(nat \<Rightarrow> request) \<Rightarrow> nat \<Rightarrow> nat option" where
  "free_request R 0 = None"
| "free_request R (Suc n) = (if sint (r_dev (R n)) < 0 then Some n else free_request R n)"

text \<open>The loop at the label \<^verbatim>\<open>repeat\<close>; \<open>None\<close> is the return of a read-ahead that finds no request.\<close>

primrec get_request ::
  "nat \<Rightarrow> 'a blk_scheme platform \<Rightarrow> t32 \<Rightarrow> bool \<Rightarrow> 'a blk_scheme \<Rightarrow> (nat option \<times> 'a blk_scheme) outcome" where
  "get_request 0 pf rw ahead s = Inl NoFuel"
| "get_request (Suc n) pf rw ahead s =
     (case free_request (REQUEST_INFO s) (if rw = READ then NR_REQUEST else (NR_REQUEST * 2) div 3) of
        Some i \<Rightarrow> Inr (Some i, s)
      | None \<Rightarrow> if ahead then Inr (None, s)
                else andThen (sleepOn pf WAIT_FOR_REQUEST s) (get_request n pf rw ahead))"

definition makeRequest :: "'a blk_scheme platform \<Rightarrow> nat \<Rightarrow> t32 \<Rightarrow> u32 \<Rightarrow> 'a blk_scheme \<Rightarrow> 'a blk_scheme outcome" where
  "makeRequest pf major rw bh s =
     (let ahead = (rw = READA \<or> rw = WRITEA)
      in if ahead \<and> b_lock (BUF s bh) \<noteq> 0 then Inr s
         else
           let rw = (if ahead then (if rw = READA then READ else WRITE) else rw)
           in if rw \<noteq> READ \<and> rw \<noteq> WRITE
              then andThen (kmsg pf ''Bad block dev command, must be R/W/RA/WA'' (\<lambda>_. 0) s) (\<lambda>_. Inl (Hang ''makeRequest''))
              else andThen (lockBuffer pf bh s) (\<lambda>s.
                if rw = WRITE \<and> b_dirt (BUF s bh) = 0 \<or> rw = READ \<and> b_uptodate (BUF s bh) \<noteq> 0
                then unlockBuffer pf bh s
                else andThen (get_request (pf_fuel pf) pf rw ahead s) (\<lambda>(r, s).
                  case r of
                    None \<Rightarrow> unlockBuffer pf bh s
                  | Some req \<Rightarrow>
                      let b = BUF s bh;
                          s = set_waitq (RequestWait req) 0 s;
                          s = upd_req req (\<lambda>_. \<lparr>r_dev = ucast (b_dev b), r_cmd = rw, r_errors = 0,
                                r_sector = push_bit 1 (b_block_nr b), r_nr_sectors = 2, r_buffer = b_data b,
                                r_bh = bh, r_next = None\<rparr>) s
                      in addRequest pf major req s)))"

definition ll_rw_block :: "'a blk_scheme platform \<Rightarrow> t32 \<Rightarrow> u32 \<Rightarrow> 'a blk_scheme \<Rightarrow> 'a blk_scheme outcome" where
  "ll_rw_block pf rw bh s =
     (let major = MAJOR (ucast (b_dev (BUF s bh)))
      in if major \<ge> of_nat NR_BLK_DEV \<or> request_fn (BLK_DEV_INFO s (unat major)) = None
         then kmsg pf (''Trying to read nonexistent block-device'' @ [CHR 0x0A, CHR 0x0D]) (\<lambda>_. 0) s
         else makeRequest pf (unat major) rw bh s)"

end
