(* ===== verification/Disk.thy ===== *)
theory Disk
  imports Blk Sched
begin

section \<open>Block device requests\<close>

text \<open>
  What a message leaves alone, what the end of a request does to the queue, the commands that reach the
  controller, and the order of the queue.
\<close>


subsection \<open>Messages change nothing but the console\<close>

lemma con_more [simp]:
  "console.more (setCursor s) = console.more s" "console.more (setOrigin s) = console.more s"
  "console.more (lf s) = console.more s" "console.more (cr s) = console.more s"
  "console.more (del s) = console.more s" "console.more (wrap_line s) = console.more s"
  "console.more (set_write_q chan q s) = console.more s"
  by (simp_all add: setCursor_def setOrigin_def lf_def scrollUp_def cr_def del_def wrap_line_def Let_def io_defs set_write_q_def)

lemma con_char_more [simp]: "console.more (con_char e c s) = console.more s"
  by (simp add: con_char_def Let_def)

lemma con_loop_more [simp]: "console.more (con_loop chan n s) = console.more s"
  by (induction n arbitrary: s) (simp_all add: con_step_def Let_def case_prod_beta)

lemma tty_write_fn_more [simp]: "console.more (tty_write_fn chan s) = console.more s"
  by (simp add: tty_write_fn_def conWrite_def rsWrite_def split: tty_write.split)

lemma tty_loop_more: "tty_loop n chan bs crf s = Inr s' \<Longrightarrow> console.more s' = console.more s"
proof (induction n chan bs crf s rule: tty_loop.induct)
  case (3 n chan b bs crf s)
  obtain r f q where f: "tty_fill (c_oflag (tty_termios (TTY_TABLE s chan))) (b # bs) crf (write_q (TTY_TABLE s chan)) = (r, f, q)"
    by (rule prod_cases3)
  with "3.prems" have "tty_loop n chan r f (tty_write_fn chan (set_write_q chan q s)) = Inr s'" by (simp add: Let_def)
  from "3.IH" [OF refl refl f [symmetric] refl this] show ?case by simp
qed auto

lemma printk_more: "printk tx n fmt args s = Inr (k, s') \<Longrightarrow> console.more s' = console.more s"
  by (auto simp: printk_def ttyWrite_def split: if_splits dest: tty_loop_more)

lemma kmsg_more: "kmsg pf fmt args s = Inr s' \<Longrightarrow> console.more s' = console.more s"
  by (auto simp: kmsg_def dest: printk_more)

lemma blk_view:
  assumes "console.more s' = console.more s"
  shows "REQUEST_INFO s' = REQUEST_INFO s" "BLK_DEV_INFO s' = BLK_DEV_INFO s" "HD_INFO s' = HD_INFO s" "BUF s' = BUF s"
    "WAITQ s' = WAITQ s" "HARD_DISK_INFO s' = HARD_DISK_INFO s" "DATA s' = DATA s" "hd_reset s' = hd_reset s"
    "hd_recalibrate s' = hd_recalibrate s" "PROC s' = PROC s"
  using assms by (cases s; cases s'; simp)+

lemma io_view:
  assumes "io.more s' = io.more s"
  shows "console.more s' = console.more s" "TTY_TABLE s' = TTY_TABLE s"
  using assms by (cases s; cases s'; simp)+

subsection \<open>The end of a request\<close>

lemma unlockBuffer_frame:
  assumes "unlockBuffer pf bh s = Inr s'"
  shows "REQUEST_INFO s' = REQUEST_INFO s" "BLK_DEV_INFO s' = BLK_DEV_INFO s" "HD_INFO s' = HD_INFO s"
    "BUF s' = (BUF s)(bh := (BUF s bh)\<lparr>b_lock := 0\<rparr>)"
proof -
  obtain t where t: "(if b_lock (BUF s bh) = 0
        then kmsg pf (''ll_rw_block.c: buffer not locked'' @ [CHR 0x0A, CHR 0x0D]) (\<lambda>_. 0) s else Inr s) = Inr t"
    "s' = wakeUp (BufferWait bh) (upd_buf bh (\<lambda>b. b\<lparr>b_lock := 0\<rparr>) t)"
    using assms by (auto simp: unlockBuffer_def)
  have "console.more t = console.more s" using t(1) kmsg_more by (metis Inr_inject)
  note v = blk_view [OF this]
  show "REQUEST_INFO s' = REQUEST_INFO s" "BLK_DEV_INFO s' = BLK_DEV_INFO s" "HD_INFO s' = HD_INFO s"
    "BUF s' = (BUF s)(bh := (BUF s bh)\<lparr>b_lock := 0\<rparr>)"
    using v by (simp_all add: t(2) wakeUp_def upd_buf_def set_waitq_def upd_proc_def)
qed

text \<open>Whatever the request, its end leaves it at the head of the queue, free.\<close>

lemma endRequest_frame:
  assumes "endRequest pf u s = Inr s'" and "current_request (BLK_DEV_INFO s 3) = Some cur"
  shows "REQUEST_INFO s' = (REQUEST_INFO s)(cur := (REQUEST_INFO s cur)\<lparr>r_dev := - 1\<rparr>)"
    "BLK_DEV_INFO s' = BLK_DEV_INFO s" "HD_INFO s' = HD_INFO s"
    "BUF s' = (let bh = r_bh (REQUEST_INFO s cur) in if bh = 0 then BUF s
       else (BUF s)(bh := (BUF s bh)\<lparr>b_uptodate := u, b_lock := 0\<rparr>))"
proof -
  let ?bh = "r_bh (REQUEST_INFO s cur)"
  obtain t where t: "(if ?bh \<noteq> 0 then unlockBuffer pf ?bh (upd_buf ?bh (\<lambda>b. b\<lparr>b_uptodate := u\<rparr>) s) else Inr s) = Inr t"
    "andThen (if u = 0 then
        andThen (kmsg pf (''harddisk I/O error'' @ [CHR 0x0A, CHR 0x0D]) (\<lambda>_. 0) t) (\<lambda>s.
          if ?bh = 0 then Inl (Fault ''endRequest'')
          else kmsg pf (''dev %04x, block %d'' @ [CHR 0x0A, CHR 0x0D])
                 (\<lambda>k. if k = 0 then r_dev (REQUEST_INFO s cur) else b_block_nr (BUF s ?bh)) s)
      else Inr t)
      (\<lambda>s. Inr (upd_req cur (\<lambda>r. r\<lparr>r_dev := - 1\<rparr>) (wakeUp WAIT_FOR_REQUEST (wakeUp (RequestWait cur) s)))) = Inr s'"
    using assms by (auto simp: endRequest_def Let_def)
  obtain v where v: "console.more v = console.more t"
    "s' = upd_req cur (\<lambda>r. r\<lparr>r_dev := - 1\<rparr>) (wakeUp WAIT_FOR_REQUEST (wakeUp (RequestWait cur) v))"
    using t(2) by (auto split: if_splits dest!: kmsg_more)
  note w = blk_view [OF v(1)]
  have "REQUEST_INFO t = REQUEST_INFO s" "BLK_DEV_INFO t = BLK_DEV_INFO s" "HD_INFO t = HD_INFO s"
    "BUF t = (if ?bh = 0 then BUF s else (BUF s)(?bh := (BUF s ?bh)\<lparr>b_uptodate := u, b_lock := 0\<rparr>))"
    using t(1) by (auto split: if_splits dest: unlockBuffer_frame simp: upd_buf_def)
  then show "REQUEST_INFO s' = (REQUEST_INFO s)(cur := (REQUEST_INFO s cur)\<lparr>r_dev := - 1\<rparr>)"
    "BLK_DEV_INFO s' = BLK_DEV_INFO s" "HD_INFO s' = HD_INFO s"
    "BUF s' = (let bh = r_bh (REQUEST_INFO s cur) in if bh = 0 then BUF s
       else (BUF s)(bh := (BUF s bh)\<lparr>b_uptodate := u, b_lock := 0\<rparr>))"
    using w by (simp_all add: v(2) upd_req_def wakeUp_def set_waitq_def upd_proc_def Let_def)
qed

text \<open>The successful end of a request whose buffer is locked: it always returns.\<close>

lemma endRequest_success:
  assumes "current_request (BLK_DEV_INFO s 3) = Some cur"
    and "r_bh (REQUEST_INFO s cur) \<noteq> 0 \<longrightarrow> b_lock (BUF s (r_bh (REQUEST_INFO s cur))) \<noteq> 0"
  shows "endRequest pf 1 s = Inr (upd_req cur (\<lambda>r. r\<lparr>r_dev := - 1\<rparr>) (wakeUp WAIT_FOR_REQUEST (wakeUp (RequestWait cur)
    (if r_bh (REQUEST_INFO s cur) = 0 then s
     else wakeUp (BufferWait (r_bh (REQUEST_INFO s cur))) (upd_buf (r_bh (REQUEST_INFO s cur)) (\<lambda>b. b\<lparr>b_uptodate := 1, b_lock := 0\<rparr>) s)))))"
  using assms by (simp add: endRequest_def Let_def unlockBuffer_def upd_buf_def)

subsection \<open>A finished request at the head of the queue\<close>

text \<open>
  A request whose device is -1 has been ended already; as the current one it cannot be served. It is ended
  as a failed one over and over again, and stays the current request.
\<close>

lemma ended_request_stuck:
  "current_request (BLK_DEV_INFO s 3) = Some cur \<Longrightarrow> r_dev (REQUEST_INFO s cur) = - 1 \<Longrightarrow>
   request_loop n pf cur s \<noteq> Inr s'"
proof (induction n arbitrary: s)
  case (Suc m)
  show ?case
  proof
    assume r: "request_loop (Suc m) pf cur s = Inr s'"
    have m: "MAJOR (- 1) \<noteq> of_nat MAJOR_NR" "MINOR (- 1) = 255" by (simp_all add: MAJOR_def MINOR_def mask_eq_exp_minus_1)
    obtain t where t: "check_request pf cur s = Inr t" using r by auto
    then have "console.more t = console.more s"
      by (auto simp: check_request_def dest!: kmsg_more split: if_splits)
    note v = blk_view [OF this]
    have "andThen (endRequest pf 0 t) (request_loop m pf cur) = Inr s'"
      using r Suc.prems(2) m t v(1) by (simp add: Let_def)
    then obtain u where u: "endRequest pf 0 t = Inr u" "request_loop m pf cur u = Inr s'" by auto
    have "current_request (BLK_DEV_INFO t 3) = Some cur" using Suc.prems(1) v(2) by simp
    note f = endRequest_frame [OF u(1) this]
    show False using Suc.IH [of u] u(2) f(1,2) Suc.prems(1) v(2) by simp
  qed
qed simp

definition in_range :: "'a blk_scheme \<Rightarrow> request \<Rightarrow> bool" where
  "in_range s r \<longleftrightarrow> MINOR (r_dev r) < 5 \<and>
     r_sector r + 2 \<le> start_sector (HD_INFO s (unat (MINOR (r_dev r)))) + cnt_sectors (HD_INFO s (unat (MINOR (r_dev r)))) - 1"

lemma out_of_range_stuck:
  assumes c: "current_request (BLK_DEV_INFO s 3) = Some cur" and d: "MAJOR (r_dev (REQUEST_INFO s cur)) = 3"
    and r: "\<not> in_range s (REQUEST_INFO s cur)"
  shows "request_loop n pf cur s \<noteq> Inr s'"
proof (cases n)
  case (Suc m)
  show ?thesis
  proof
    assume "request_loop n pf cur s = Inr s'"
    then have "andThen (endRequest pf 0 s) (request_loop m pf cur) = Inr s'"
      using Suc d r by (auto simp: check_request_def Let_def in_range_def not_le not_less split: if_splits)
    then obtain t where t: "endRequest pf 0 s = Inr t" "request_loop m pf cur t = Inr s'" by auto
    note f = endRequest_frame [OF t(1) c]
    from ended_request_stuck [of t cur m pf s'] t(2) c f(1,2) show False by simp
  qed
qed simp

subsection \<open>The geometry of the disk\<close>

text \<open>The block number of a cylinder, head and sector, for \<open>H\<close> heads and \<open>S\<close> sectors in a track.\<close>

definition block_of :: "nat \<Rightarrow> nat \<Rightarrow> nat \<Rightarrow> nat \<Rightarrow> nat \<Rightarrow> nat" where
  "block_of H S cyl head sec = (cyl * H + head) * S + (sec - 1)"

lemma block_of_chs:
  "0 < H \<Longrightarrow> 0 < S \<Longrightarrow> block_of H S (b div S div H) (b div S mod H) (b mod S + 1) = b"
  by (simp add: block_of_def)

definition disk_ready :: "'s platform \<Rightarrow> bool" where
  "disk_ready pf \<longleftrightarrow> (\<forall>tr. pf_dev pf tr HD_STATUS AND 0x80 = 0)"

lemma controllerReady_now:
  "disk_ready pf \<Longrightarrow> controllerReady (pf_dev pf) s = (99999, snd (inByte (pf_dev pf) HD_STATUS s))"
proof -
  have "(100000 :: nat) = Suc (Suc 99998)" by simp
  then show "disk_ready pf \<Longrightarrow> ?thesis"
    unfolding controllerReady_def by (simp only: ready_loop.simps) (simp add: inByte_def disk_ready_def)
qed

lemma hdOut_command:
  assumes "disk_ready pf" and "drive \<le> 1" and "head \<le> 15"
  shows "\<exists>s'. hdOut pf drive nsect sect head cyl cmd f s = Inr s' \<and> DEVICE_INTR s' = Some f \<and>
    REQUEST_INFO s' = REQUEST_INFO s \<and>
    trace s' = [Out 0x1F7 (ucast cmd), Out 0x1F6 (ucast (0xA0 OR push_bit 4 drive OR head)),
      Out 0x1F5 (ucast (drop_bit 8 cyl)), Out 0x1F4 (ucast cyl), Out 0x1F3 (ucast sect), Out 0x1F2 (ucast nsect),
      Out 0x1F1 (ucast (drop_bit 2 (hd_wpcom (HARD_DISK_INFO s)))),
      Out 0x3F6 (ucast (hd_ctrl (HARD_DISK_INFO s))), In 0x1F7] @ trace s"
  using assms(2,3) controllerReady_now [OF assms(1), of s]
  by (simp add: hdOut_def Let_def inByte_def outByte_def not_less)

subsection \<open>The properties of the disk\<close>

text \<open>A kernel with one request, for block 20 of the whole disk of 16 heads, 63 sectors and 100 cylinders.\<close>

definition zero_buffer :: buffer_head where
  "zero_buffer = \<lparr>b_data = 0, b_block_nr = 0, b_dev = 0, b_uptodate = 0, b_dirt = 0, b_count = 0, b_lock = 0,
     b_prev = 0, b_next = 0, b_prev_free = 0, b_next_free = 0\<rparr>"

definition free_slot_request :: request where
  "free_slot_request = \<lparr>r_dev = - 1, r_cmd = 0, r_errors = 0, r_sector = 0, r_nr_sectors = 0, r_buffer = 0,
     r_bh = 0, r_next = None\<rparr>"

definition boot_request :: request where
  "boot_request = \<lparr>r_dev = 0x300, r_cmd = 0, r_errors = 0, r_sector = 40, r_nr_sectors = 2, r_buffer = 0x1FFC00,
     r_bh = 0x100000, r_next = None\<rparr>"

definition blk_boot :: blk where
  "blk_boot = kernel.extend process_boot (blk.fields
     (\<lambda>i. if i = 31 then boot_request else free_slot_request)
     (\<lambda>d. if d = 3 then \<lparr>request_fn = Some HarddiskRequest, current_request = Some 31\<rparr>
          else \<lparr>request_fn = None, current_request = None\<rparr>)
     \<lparr>hd_head = 16, hd_sector = 63, hd_cylinder = 100, hd_wpcom = 0, hd_lzone = 0, hd_ctrl = 8\<rparr>
     (\<lambda>i. if i = 0 then \<lparr>start_sector = 0, cnt_sectors = 100800\<rparr> else \<lparr>start_sector = 0, cnt_sectors = 0\<rparr>)
     None False False
     (\<lambda>p. if p = 0x100000 then zero_buffer\<lparr>b_data := 0x1FFC00, b_block_nr := 20, b_dev := 0x300, b_count := 1, b_lock := 1\<rparr>
          else zero_buffer)
     (\<lambda>_. 0))"

lemma blk_boot_simps [simp]:
  "REQUEST_INFO blk_boot i = (if i = 31 then boot_request else free_slot_request)"
  "BLK_DEV_INFO blk_boot d = (if d = 3 then \<lparr>request_fn = Some HarddiskRequest, current_request = Some 31\<rparr>
     else \<lparr>request_fn = None, current_request = None\<rparr>)"
  "HARD_DISK_INFO blk_boot = \<lparr>hd_head = 16, hd_sector = 63, hd_cylinder = 100, hd_wpcom = 0, hd_lzone = 0, hd_ctrl = 8\<rparr>"
  "HD_INFO blk_boot i = (if i = 0 then \<lparr>start_sector = 0, cnt_sectors = 100800\<rparr> else \<lparr>start_sector = 0, cnt_sectors = 0\<rparr>)"
  "hd_reset blk_boot = False" "hd_recalibrate blk_boot = False" "DATA blk_boot a = 0"
  by (simp_all add: blk_boot_def kernel.defs blk.defs)

lemma boot_request_simps [simp]:
  "r_dev boot_request = 0x300" "r_cmd boot_request = 0" "r_sector boot_request = 40" "r_nr_sectors boot_request = 2"
  "r_buffer boot_request = 0x1FFC00" "r_bh boot_request = 0x100000" "r_next boot_request = None"
  by (simp_all add: boot_request_def)



text \<open>The queue never moves on: a request beyond the end of its partition stays current after it has been
  ended, is taken up again with the device -1, and the request routine never comes back.\<close>

theorem harddiskRequest_out_of_range:
  assumes "current_request (BLK_DEV_INFO s 3) = Some cur" and "MAJOR (r_dev (REQUEST_INFO s cur)) = 3"
    and "\<not> in_range s (REQUEST_INFO s cur)"
  shows "\<nexists>s'. harddiskRequest pf s = Inr s'"
  using out_of_range_stuck [OF assms] assms(1) by (simp add: harddiskRequest_def)

definition beyond_boot :: blk where
  "beyond_boot = upd_req 31 (\<lambda>r. r\<lparr>r_sector := 100800\<rparr>) blk_boot"

theorem harddiskRequest_out_of_range_witness:
  "\<forall>s'. harddiskRequest (some_platform Inr) beyond_boot \<noteq> Inr s'"
  using harddiskRequest_out_of_range [of beyond_boot 31 "some_platform Inr"]
  by (simp add: beyond_boot_def upd_req_def in_range_def MAJOR_def MINOR_def)

lemma store_bytes_requests [simp]: "REQUEST_INFO (store_bytes a bs s) = REQUEST_INFO s"
  by (simp add: store_bytes_def)

lemma wakeUp_blk_view [simp]:
  "REQUEST_INFO (wakeUp q s) = REQUEST_INFO s" "BLK_DEV_INFO (wakeUp q s) = BLK_DEV_INFO s" "BUF (wakeUp q s) = BUF s"
  "DATA (wakeUp q s) = DATA s" "WAITQ (wakeUp q s) = (WAITQ s)(q := 0)"
  by (auto simp: wakeUp_def set_waitq_def upd_proc_def)

lemma wakeUp_states:
  "p_state (PROC (wakeUp q s) p) = (if p = WAITQ s q \<and> p \<noteq> 0 then 0 else p_state (PROC s p))"
  by (simp add: wakeUp_def set_waitq_def upd_proc_def)

text \<open>What a request that ends with success leaves: its buffer valid and unlocked, its entry free, and everybody who
  waits for one of them awake.\<close>

lemma endRequest_ends:
  assumes "current_request (BLK_DEV_INFO t 3) = Some cur"
  defines "bh \<equiv> r_bh (REQUEST_INFO t cur)"
  assumes "bh \<noteq> 0 \<longrightarrow> b_lock (BUF t bh) \<noteq> 0"
  shows "\<exists>u. endRequest pf 1 t = Inr u \<and> REQUEST_INFO u = (REQUEST_INFO t)(cur := (REQUEST_INFO t cur)\<lparr>r_dev := - 1\<rparr>) \<and>
    BLK_DEV_INFO u = BLK_DEV_INFO t \<and> DATA u = DATA t \<and>
    BUF u = (if bh = 0 then BUF t else (BUF t)(bh := (BUF t bh)\<lparr>b_uptodate := 1, b_lock := 0\<rparr>)) \<and>
    (\<forall>q \<in> {RequestWait cur, WAIT_FOR_REQUEST} \<union> (if bh = 0 then {} else {BufferWait bh}).
      WAITQ u q = 0 \<and> (WAITQ t q \<noteq> 0 \<longrightarrow> p_state (PROC u (WAITQ t q)) = 0))"
proof -
  define v where "v = (if bh = 0 then t else wakeUp (BufferWait bh) (upd_buf bh (\<lambda>b. b\<lparr>b_uptodate := 1, b_lock := 0\<rparr>) t))"
  define u where "u = upd_req cur (\<lambda>r. r\<lparr>r_dev := - 1\<rparr>) (wakeUp WAIT_FOR_REQUEST (wakeUp (RequestWait cur) v))"
  have v: "REQUEST_INFO v = REQUEST_INFO t" "BLK_DEV_INFO v = BLK_DEV_INFO t" "DATA v = DATA t"
    "BUF v = (if bh = 0 then BUF t else (BUF t)(bh := (BUF t bh)\<lparr>b_uptodate := 1, b_lock := 0\<rparr>))"
    "WAITQ v = (if bh = 0 then WAITQ t else (WAITQ t)(BufferWait bh := 0))"
    "p_state (PROC v p) = (if bh \<noteq> 0 \<and> p = WAITQ t (BufferWait bh) \<and> p \<noteq> 0 then 0 else p_state (PROC t p))" for p
    by (simp_all add: v_def upd_buf_def wakeUp_states)
  have u: "WAITQ u = (WAITQ v)(RequestWait cur := 0, WAIT_FOR_REQUEST := 0)"
    "PROC u = PROC (wakeUp WAIT_FOR_REQUEST (wakeUp (RequestWait cur) v))"
    by (simp_all add: u_def upd_req_def)
  have "endRequest pf 1 t = Inr u"
    using endRequest_success [OF assms(1), of pf] assms(3) by (simp add: u_def v_def bh_def)
  moreover have "\<forall>q \<in> {RequestWait cur, WAIT_FOR_REQUEST} \<union> (if bh = 0 then {} else {BufferWait bh}).
      WAITQ u q = 0 \<and> (WAITQ t q \<noteq> 0 \<longrightarrow> p_state (PROC u (WAITQ t q)) = 0)"
    by (simp add: u v(5,6) wakeUp_states)
  ultimately show ?thesis using v(1-4) by (intro exI [of _ u]) (simp add: u_def upd_req_def)
qed

text \<open>C21. After a successful sector, \<open>readIntr\<close> stores its 512 bytes at the request's buffer, moves the request
  on and waits for the next sector. After the last one it stores the bytes all the same and, the request's
  buffer being locked, ends the request with success: the buffer is valid and unlocked, the request is free,
  and the processes that wait for the buffer, the request or a free request are awake. Then it calls the
  request routine, for which the ended request is still the current one: that call, and with it the interrupt,
  never returns.\<close>

theorem readIntr_sector:
  assumes "current_request (BLK_DEV_INFO s 3) = Some cur"
    and "pf_dev pf (trace s) 0x1F7 AND 0xF1 = 0x50"
    and "let r = REQUEST_INFO s cur in r_bh r \<noteq> 0 \<longrightarrow> b_lock (BUF s (r_bh r)) \<noteq> 0"
  shows "let r = REQUEST_INFO s cur;
      stored = (\<lambda>s'. (\<forall>i < 512. DATA s' (r_buffer r + of_nat i) = pf_bulk pf (In 0x1F7 # trace s) 0x1F0 i) \<and>
        (\<forall>x. 512 \<le> unat (x - r_buffer r) \<longrightarrow> DATA s' x = DATA s x));
      next_sector = r\<lparr>r_errors := 0, r_buffer := r_buffer r + 512, r_sector := r_sector r + 1, r_nr_sectors := r_nr_sectors r - 1\<rparr>
    in if r_nr_sectors r = 1
      then \<exists>u. stored u \<and> REQUEST_INFO u = (REQUEST_INFO s)(cur := next_sector\<lparr>r_dev := - 1\<rparr>) \<and>
        BUF u = (if r_bh r = 0 then BUF s else (BUF s)(r_bh r := (BUF s (r_bh r))\<lparr>b_uptodate := 1, b_lock := 0\<rparr>)) \<and>
        (\<forall>q \<in> {RequestWait cur, WAIT_FOR_REQUEST} \<union> (if r_bh r = 0 then {} else {BufferWait (r_bh r)}).
          WAITQ u q = 0 \<and> (WAITQ s q \<noteq> 0 \<longrightarrow> p_state (PROC u (WAITQ s q)) = 0)) \<and>
        readIntr pf s = harddiskRequest pf u \<and> (\<forall>s'. harddiskRequest pf u \<noteq> Inr s')
      else \<exists>s'. readIntr pf s = Inr s' \<and> DEVICE_INTR s' = Some ReadIntr \<and> stored s' \<and>
        REQUEST_INFO s' = (REQUEST_INFO s)(cur := next_sector) \<and> BUF s' = BUF s \<and> WAITQ s' = WAITQ s"
proof -
  let ?r = "REQUEST_INFO s cur"
  let ?n = "?r\<lparr>r_errors := 0, r_buffer := r_buffer ?r + 512, r_sector := r_sector ?r + 1, r_nr_sectors := r_nr_sectors ?r - 1\<rparr>"
  define bs where "bs = map (pf_bulk pf (In 0x1F7 # trace s) 0x1F0) [0..<512]"
  have lbs: "length bs = 512" by (simp add: bs_def del: upt_Suc)
  have w: "winResult (pf_dev pf) s = (False, s\<lparr>trace := In 0x1F7 # trace s\<rparr>)"
    using assms(2) by (simp add: winResult_def inByte_def)
  define t where "t = upd_req cur (\<lambda>r. r\<lparr>r_errors := 0, r_buffer := r_buffer r + 512,
    r_sector := r_sector r + 1, r_nr_sectors := r_nr_sectors r - 1\<rparr>)
    (store_bytes (r_buffer ?r) bs (s\<lparr>trace := InWords 0x1F0 256 # In 0x1F7 # trace s\<rparr>))"
  have t: "BLK_DEV_INFO t = BLK_DEV_INFO s" "REQUEST_INFO t = (REQUEST_INFO s)(cur := ?n)"
    "DATA t = (\<lambda>x. if unat (x - r_buffer ?r) < 512 then bs ! unat (x - r_buffer ?r) else DATA s x)"
    "BUF t = BUF s" "WAITQ t = WAITQ s" "PROC t = PROC s"
    by (simp_all add: t_def upd_req_def store_bytes_def lbs cong: if_cong)
  have e: "readIntr pf s = (if r_nr_sectors ?r \<noteq> 1 then Inr (t\<lparr>DEVICE_INTR := Some ReadIntr\<rparr>)
      else andThen (endRequest pf 1 t) (harddiskRequest pf))"
    using assms(1) w by (simp add: readIntr_def portRead_def Let_def t_def bs_def upd_req_def del: upt_Suc)
  have d: "DATA t (r_buffer ?r + of_nat i) = pf_bulk pf (In 0x1F7 # trace s) 0x1F0 i" if "i < 512" for i
    using that unat_of_nat_u32 [of i] by (simp add: t(3) bs_def)
  have o: "DATA t x = DATA s x" if "512 \<le> unat (x - r_buffer ?r)" for x using that by (simp add: t(3))
  show ?thesis
  proof (cases "r_nr_sectors ?r = 1")
    case True
    have c: "current_request (BLK_DEV_INFO t 3) = Some cur" using assms(1) t(1) by simp
    have rt: "r_bh (REQUEST_INFO t cur) = r_bh ?r" by (simp add: t(2))
    have "r_bh ?r \<noteq> 0 \<longrightarrow> b_lock (BUF t (r_bh ?r)) \<noteq> 0" using assms(3) by (simp add: t(4) Let_def)
    then obtain u where u: "endRequest pf 1 t = Inr u" "REQUEST_INFO u = (REQUEST_INFO s)(cur := ?n\<lparr>r_dev := - 1\<rparr>)"
      "BLK_DEV_INFO u = BLK_DEV_INFO s" "DATA u = DATA t"
      "BUF u = (if r_bh ?r = 0 then BUF s else (BUF s)(r_bh ?r := (BUF s (r_bh ?r))\<lparr>b_uptodate := 1, b_lock := 0\<rparr>))"
      "\<forall>q \<in> {RequestWait cur, WAIT_FOR_REQUEST} \<union> (if r_bh ?r = 0 then {} else {BufferWait (r_bh ?r)}).
        WAITQ u q = 0 \<and> (WAITQ s q \<noteq> 0 \<longrightarrow> p_state (PROC u (WAITQ s q)) = 0)"
      using endRequest_ends [OF c, of pf, unfolded rt] unfolding t(1,2,4,5) by auto
    have "readIntr pf s = harddiskRequest pf u" using e True u(1) by simp
    moreover have "\<forall>s'. harddiskRequest pf u \<noteq> Inr s'"
      using ended_request_stuck [of u cur "pf_fuel pf" pf] assms(1) u(2,3) by (simp add: harddiskRequest_def)
    moreover have "\<forall>i < 512. DATA u (r_buffer ?r + of_nat i) = pf_bulk pf (In 0x1F7 # trace s) 0x1F0 i"
        "\<forall>x. 512 \<le> unat (x - r_buffer ?r) \<longrightarrow> DATA u x = DATA s x" using d o unfolding u(4) by blast+
    ultimately show ?thesis
      unfolding Let_def if_P [OF True] using u(2,5,6) by (intro exI [of _ u] conjI)
  next
    case False
    let ?s = "t\<lparr>DEVICE_INTR := Some ReadIntr\<rparr>"
    have "readIntr pf s = Inr ?s" using e False by simp
    moreover have "\<forall>i < 512. DATA ?s (r_buffer ?r + of_nat i) = pf_bulk pf (In 0x1F7 # trace s) 0x1F0 i"
        "\<forall>x. 512 \<le> unat (x - r_buffer ?r) \<longrightarrow> DATA ?s x = DATA s x" using d o by simp_all
    moreover have "DEVICE_INTR ?s = Some ReadIntr" "REQUEST_INFO ?s = (REQUEST_INFO s)(cur := ?n)" "BUF ?s = BUF s" "WAITQ ?s = WAITQ s"
      by (simp_all add: t(2,4,5))
    ultimately show ?thesis unfolding Let_def if_not_P [OF False] by (intro exI [of _ ?s] conjI)
  qed
qed

definition answering :: "'s platform \<Rightarrow> 's platform" where
  "answering pf = pf\<lparr>pf_dev := \<lambda>_ _. 0x50, pf_bulk := \<lambda>_ _ i. of_nat i\<rparr>"

lemma blk_boot_locked: "b_lock (BUF blk_boot 0x100000) = 1"
  by (simp add: blk_boot_def kernel.defs blk.defs)

definition last_boot :: blk where
  "last_boot = upd_req 31 (\<lambda>r. r\<lparr>r_nr_sectors := 1\<rparr>) blk_boot"

theorem readIntr_sector_witness:
  "(\<exists>s'. readIntr (answering (some_platform Inr)) blk_boot = Inr s' \<and> DATA s' 0x1FFC07 = 7) \<and>
   (\<exists>u. readIntr (answering (some_platform Inr)) last_boot = harddiskRequest (answering (some_platform Inr)) u \<and>
     DATA u 0x1FFC07 = 7 \<and> r_dev (REQUEST_INFO u 31) = - 1 \<and> b_lock (BUF u 0x100000) = 0)"
proof (intro conjI)
  let ?pf = "answering (some_platform Inr)"
  have n: "0x1FFC07 = 0x1FFC00 + (of_nat 7 :: u32)" by simp
  obtain s' where s': "readIntr ?pf blk_boot = Inr s'" "\<forall>i < 512. DATA s' (0x1FFC00 + of_nat i) = of_nat i"
    using readIntr_sector [of blk_boot 31 ?pf, unfolded Let_def] blk_boot_locked by (auto simp: answering_def)
  from s'(2) have "DATA s' (0x1FFC00 + of_nat 7) = of_nat 7" by (elim allE [of _ 7]) simp
  then show "\<exists>s'. readIntr ?pf blk_boot = Inr s' \<and> DATA s' 0x1FFC07 = 7" using s'(1) by simp
  have l: "REQUEST_INFO last_boot 31 = boot_request\<lparr>r_nr_sectors := 1\<rparr>" "BLK_DEV_INFO last_boot = BLK_DEV_INFO blk_boot"
    "BUF last_boot = BUF blk_boot" "trace last_boot = trace blk_boot" by (simp_all add: last_boot_def upd_req_def)
  have "\<exists>u. readIntr ?pf last_boot = harddiskRequest ?pf u \<and> (\<forall>i < 512. DATA u (0x1FFC00 + of_nat i) = of_nat i) \<and>
      REQUEST_INFO u = (REQUEST_INFO last_boot)(31 := boot_request\<lparr>r_errors := 0, r_buffer := 2096640, r_sector := 41,
        r_nr_sectors := 0, r_dev := - 1\<rparr>) \<and>
      BUF u = (BUF blk_boot)(0x100000 := BUF blk_boot 0x100000\<lparr>b_uptodate := 1, b_lock := 0\<rparr>)"
    using readIntr_sector [of last_boot 31 ?pf, unfolded Let_def] blk_boot_locked l by (auto simp: answering_def)
  then obtain u where u: "readIntr ?pf last_boot = harddiskRequest ?pf u" "\<forall>i < 512. DATA u (0x1FFC00 + of_nat i) = of_nat i"
    "r_dev (REQUEST_INFO u 31) = - 1" "b_lock (BUF u 0x100000) = 0" by auto
  from u(2) have "DATA u (0x1FFC00 + of_nat 7) = of_nat 7" by (elim allE [of _ 7]) simp
  then show "\<exists>u. readIntr ?pf last_boot = harddiskRequest ?pf u \<and> DATA u 0x1FFC07 = 7 \<and>
      r_dev (REQUEST_INFO u 31) = - 1 \<and> b_lock (BUF u 0x100000) = 0"
    using u(1,3,4) by (intro exI [of _ u]) simp
qed

end
