(* ===== verification/Elevator.thy ===== *)
theory Elevator
  imports Disk "HOL-Library.Multiset"
begin

section \<open>The order of the requests\<close>

text \<open>
  \<open>addRequest\<close> and \<open>makeRequest\<close>: the linked queue of requests as a list, the insertion as an operation on
  lists, and which requests a read and a write may take.
\<close>


subsection \<open>The elevator\<close>

text \<open>Requests are ordered by command, device and sector.\<close>

datatype req_key = ReqKey int int nat

instantiation req_key :: linorder
begin

fun less_req_key :: "req_key \<Rightarrow> req_key \<Rightarrow> bool" where
  "less_req_key (ReqKey c d n) (ReqKey c' d' n') \<longleftrightarrow> c < c' \<or> c = c' \<and> (d < d' \<or> d = d' \<and> n < n')"

definition less_eq_req_key :: "req_key \<Rightarrow> req_key \<Rightarrow> bool" where
  "less_eq_req_key x y \<longleftrightarrow> x < y \<or> x = y"

instance
proof
  fix x y z :: req_key
  show "x < y \<longleftrightarrow> x \<le> y \<and> \<not> y \<le> x"
    by (cases x; cases y) (auto simp: less_eq_req_key_def)
  show "x \<le> x" by (simp add: less_eq_req_key_def)
  show "x \<le> y \<Longrightarrow> y \<le> z \<Longrightarrow> x \<le> z"
    by (cases x; cases y; cases z) (auto simp: less_eq_req_key_def)
  show "x \<le> y \<Longrightarrow> y \<le> x \<Longrightarrow> x = y"
    by (cases x; cases y) (auto simp: less_eq_req_key_def)
  show "x \<le> y \<or> y \<le> x"
    by (cases x; cases y) (auto simp: less_eq_req_key_def)
qed

end

definition key :: "request \<Rightarrow> req_key" where
  "key r = ReqKey (sint (r_cmd r)) (sint (r_dev r)) (unat (r_sector r))"

lemma in_order_key: "in_order r r' \<longleftrightarrow> key r < key r'"
  by (auto simp: in_order_def key_def sint_inj_u32 word_less_nat_alt)

text \<open>The queue as a list of indices, and the place of a new request in it.\<close>

fun is_queue :: "(nat \<Rightarrow> request) \<Rightarrow> nat list \<Rightarrow> bool" where
  "is_queue R [] = True"
| "is_queue R [x] = (r_next (R x) = None)"
| "is_queue R (x # y # xs) = (r_next (R x) = Some y \<and> is_queue R (y # xs))"

fun elevator :: "(nat \<Rightarrow> 'k::linorder) \<Rightarrow> nat \<Rightarrow> nat list \<Rightarrow> nat list" where
  "elevator k r [] = [r]"
| "elevator k r [x] = [x, r]"
| "elevator k r (x # y # xs) =
     (if (k x < k r \<or> \<not> k x < k y) \<and> k r < k y then x # r # y # xs else x # elevator k r (y # xs))"

lemma mset_elevator: "mset (elevator k r xs) = add_mset r (mset xs)"
  by (induction k r xs rule: elevator.induct) auto

lemma hd_elevator: "elevator k r (x # xs) = x # tl (elevator k r (x # xs))"
  by (cases xs) auto

text \<open>At most two sweeps: the keys grow, except at one place.\<close>

definition two_sweeps :: "'k::linorder list \<Rightarrow> bool" where
  "two_sweeps ks \<longleftrightarrow> (\<exists>as bs. ks = as @ bs \<and> sorted_wrt (<) as \<and> sorted_wrt (<) bs)"

lemma elevator_one_sweep:
  "sorted_wrt (<) (map k (x # xs)) \<Longrightarrow> k x < k r \<Longrightarrow> k r \<notin> k ` set xs \<Longrightarrow>
   sorted_wrt (<) (map k (elevator k r (x # xs)))"
proof (induction xs arbitrary: x)
  case (Cons y ys)
  show ?case
  proof (cases "k r < k y")
    case False
    then have "k y < k r" using Cons.prems(3) by auto
    from Cons.IH [OF _ this] Cons.prems have s: "sorted_wrt (<) (map k (elevator k r (y # ys)))" by simp
    have "set (elevator k r (y # ys)) = insert r (set (y # ys))"
      using mset_elevator [of k r "y # ys"] by (metis set_mset_add_mset_insert set_mset_mset)
    then show ?thesis using s False Cons.prems by auto
  qed (use Cons.prems in auto)
qed simp

lemma elevator_append:
  "sorted_wrt (<) (map k (x # xs)) \<Longrightarrow> k r < k x \<Longrightarrow> elevator k r (x # xs) = x # xs @ [r]"
  by (induction xs arbitrary: x) auto

lemma elevator_two_runs:
  assumes "sorted_wrt (<) (map k (x # as))" and "sorted_wrt (<) (map k (b # bs))"
    and "\<not> k (last (x # as)) < k b" and "k r \<notin> k ` set (x # as @ b # bs)"
  shows "\<exists>us vs. elevator k r (x # as @ b # bs) = x # us @ vs \<and> sorted_wrt (<) (map k (x # us)) \<and>
    sorted_wrt (<) (map k vs)"
  using assms
proof (induction as arbitrary: x)
  case Nil
  show ?case
  proof (cases "k r < k b")
    case True
    then show ?thesis using Nil by (intro exI [of _ "[]"] exI [of _ "r # b # bs"]) auto
  next
    case False
    then have "k b < k r" using Nil.prems(4) by auto
    from elevator_one_sweep [OF Nil.prems(2) this] Nil.prems(4)
    have "sorted_wrt (<) (map k (elevator k r (b # bs)))" by auto
    then show ?thesis using False by (intro exI [of _ "[]"] exI [of _ "elevator k r (b # bs)"]) auto
  qed
next
  case (Cons y as)
  have xy: "k x < k y" using Cons.prems(1) by simp
  show ?case
  proof (cases "k x < k r \<and> k r < k y")
    case True
    then show ?thesis using Cons.prems by (intro exI [of _ "r # y # as"] exI [of _ "b # bs"]) auto
  next
    case False
    obtain us vs where u: "elevator k r (y # as @ b # bs) = y # us @ vs"
      "sorted_wrt (<) (map k (y # us))" "sorted_wrt (<) (map k vs)"
      using Cons.IH [of y] Cons.prems by auto
    have "\<forall>z \<in> set us. k x < k z" using u(2) xy by (auto intro: less_trans)
    then show ?thesis using u False xy by (intro exI [of _ "y # us"] exI [of _ vs]) auto
  qed
qed

lemma le_last_key:
  "sorted_wrt (<) (map k xs) \<Longrightarrow> u \<in> set xs \<Longrightarrow> (k u :: 'k::linorder) \<le> k (last xs)"
  by (induction xs) (auto intro: less_imp_le split: if_splits)

lemma elevator_sweeps:
  assumes "two_sweeps (map k (x # xs))" and "k r \<notin> k ` set (x # xs)"
  shows "two_sweeps (map k (elevator k r (x # xs)))"
proof -
  obtain as bs where ab: "map k (x # xs) = as @ bs" "sorted_wrt (<) as" "sorted_wrt (<) bs"
    using assms(1) by (auto simp: two_sweeps_def)
  then obtain ys zs where yz: "x # xs = ys @ zs" "map k ys = as" "map k zs = bs"
    by (metis map_eq_append_conv)
  have one: ?thesis if s: "sorted_wrt (<) (map k (x # xs))"
  proof (cases "k x < k r")
    case True
    then show ?thesis using elevator_one_sweep [OF s True] assms(2)
      unfolding two_sweeps_def by (metis (no_types, opaque_lifting) append.right_neutral image_insert insert_iff list.simps(15) sorted_wrt.simps(1))
  next
    case False
    then have "k r < k x" using assms(2) by auto
    from elevator_append [OF s this] s show ?thesis
      unfolding two_sweeps_def by (intro exI [of _ "map k (x # xs)"] exI [of _ "[k r]"]) simp
  qed
  show ?thesis
  proof (cases ys)
    case Nil
    then show ?thesis using one yz ab by simp
  next
    case (Cons y ys')
    show ?thesis
    proof (cases zs)
      case Nil
      then show ?thesis using one yz ab by simp
    next
      case zs: (Cons z zs')
      have e: "x # xs = y # ys' @ z # zs'" using yz Cons zs by simp
      show ?thesis
      proof (cases "k (last (y # ys')) < k z")
        case True
        have "\<forall>u \<in> set (y # ys'). \<forall>v \<in> set (z # zs'). k u < k v"
        proof (intro ballI)
          fix u v assume u: "u \<in> set (y # ys')" and v: "v \<in> set (z # zs')"
          have "k u \<le> k (last (y # ys'))"
            by (rule le_last_key) (use u ab(2) yz(2) Cons in auto)
          moreover have "k z \<le> k v" using v ab(3) yz(3) zs by (auto intro: less_imp_le)
          ultimately show "k u < k v" using True by auto
        qed
        then have "sorted_wrt (<) (map k (x # xs))"
          using ab yz Cons zs by (auto simp: sorted_wrt_append)
        then show ?thesis by (rule one)
      next
        case False
        have "sorted_wrt (<) (map k (y # ys'))" "sorted_wrt (<) (map k (z # zs'))" using ab yz Cons zs by auto
        from elevator_two_runs [OF this False, of r] assms(2) obtain us vs where
          "elevator k r (y # ys' @ z # zs') = y # us @ vs" "sorted_wrt (<) (map k (y # us))" "sorted_wrt (<) (map k vs)"
          unfolding e by blast
        then show ?thesis unfolding e two_sweeps_def
          by (intro exI [of _ "map k (y # us)"] exI [of _ "map k vs"]) simp
      qed
    qed
  qed
qed

subsection \<open>Linking a request into the queue\<close>

lemma is_queue_cong:
  "(\<And>i. i \<in> set xs \<Longrightarrow> r_next (R' i) = r_next (R i)) \<Longrightarrow> is_queue R' xs = is_queue R xs"
  by (induction R xs rule: is_queue.induct) auto

definition linked :: "(nat \<Rightarrow> request) \<Rightarrow> nat \<Rightarrow> nat \<Rightarrow> nat \<Rightarrow> request" where
  "linked R req t = R(req := (R req)\<lparr>r_next := r_next (R t)\<rparr>, t := (R t)\<lparr>r_next := Some req\<rparr>)"

lemma find_place_elevator:
  "is_queue R (x # xs) \<Longrightarrow> distinct (x # xs) \<Longrightarrow> req \<notin> set (x # xs) \<Longrightarrow> length (x # xs) \<le> n \<Longrightarrow>
   \<exists>t \<in> set (x # xs). find_place n R req x = Inr t \<and>
     is_queue (linked R req t) (elevator (\<lambda>i. key (R i)) req (x # xs))"
proof (induction xs arbitrary: x n)
  case Nil
  then obtain m where "n = Suc m" by (cases n) auto
  then show ?case using Nil by (auto simp: linked_def)
next
  case (Cons y ys)
  then obtain m where m: "n = Suc m" by (cases n) auto
  have q: "r_next (R x) = Some y" "is_queue R (y # ys)" using Cons.prems(1) by auto
  show ?case
  proof (cases "(key (R x) < key (R req) \<or> \<not> key (R x) < key (R y)) \<and> key (R req) < key (R y)")
    case True
    have "is_queue (linked R req x) (y # ys) = is_queue R (y # ys)"
      using Cons.prems by (intro is_queue_cong) (auto simp: linked_def)
    then have "is_queue (linked R req x) (x # req # y # ys)"
      using q Cons.prems by (auto simp: linked_def)
    moreover have "find_place n R req x = Inr x" using True q m by (simp add: in_order_key)
    ultimately show ?thesis using True by auto
  next
    case False
    obtain t where t: "t \<in> set (y # ys)" "find_place m R req y = Inr t"
      "is_queue (linked R req t) (elevator (\<lambda>i. key (R i)) req (y # ys))"
      using Cons.IH [OF q(2), of m] Cons.prems m by auto
    have "r_next (linked R req t x) = Some y" using q(1) t(1) Cons.prems by (auto simp: linked_def)
    then have "is_queue (linked R req t) (x # elevator (\<lambda>i. key (R i)) req (y # ys))"
      using t(3) hd_elevator [of "\<lambda>i. key (R i)" req y ys] by (metis is_queue.simps(3))
    moreover have "find_place n R req x = Inr t" using False q m t(2) by (auto simp: in_order_key)
    moreover have "elevator (\<lambda>i. key (R i)) req (x # y # ys) = x # elevator (\<lambda>i. key (R i)) req (y # ys)"
      using False by auto
    ultimately show ?thesis using t(1) by (metis list.set_intros(2))
  qed
qed

lemma key_next [simp]: "key (r\<lparr>r_next := n\<rparr>) = key r"
  by (simp add: key_def)

lemma key_linked [simp]: "key (linked R req t i) = key (R i)"
  by (simp add: linked_def)

text \<open>The queue of a device, as a list.\<close>

definition device_queue :: "nat \<Rightarrow> nat list \<Rightarrow> 'a blk_scheme \<Rightarrow> bool" where
  "device_queue major xs s \<longleftrightarrow> distinct xs \<and> is_queue (REQUEST_INFO s) xs \<and>
     current_request (BLK_DEV_INFO s major) = (case xs of [] \<Rightarrow> None | x # _ \<Rightarrow> Some x)"

abbreviation (input) keys_of :: "'a blk_scheme \<Rightarrow> nat list \<Rightarrow> req_key list" where
  "keys_of s xs \<equiv> map (\<lambda>i. key (REQUEST_INFO s i)) xs"

lemma addRequest_elevator:
  assumes q: "device_queue major (x # xs) s" and r: "req \<notin> set (x # xs)" and n: "length (x # xs) \<le> pf_fuel pf"
  shows "\<exists>s'. addRequest pf major req s = Inr s' \<and>
    device_queue major (elevator (\<lambda>i. key (REQUEST_INFO s i)) req (x # xs)) s' \<and>
    (\<forall>i. key (REQUEST_INFO s' i) = key (REQUEST_INFO s i)) \<and> int_flag s'"
proof -
  define R where "R = (REQUEST_INFO s)(req := (REQUEST_INFO s req)\<lparr>r_next := None\<rparr>)"
  have kR: "key (R i) = key (REQUEST_INFO s i)" for i by (simp add: R_def)
  have "is_queue R (x # xs) = is_queue (REQUEST_INFO s) (x # xs)"
    using r by (intro is_queue_cong) (auto simp: R_def)
  with q have "is_queue R (x # xs)" "distinct (x # xs)" by (simp_all add: device_queue_def)
  from find_place_elevator [OF this r n] obtain t where t: "find_place (pf_fuel pf) R req x = Inr t"
    "is_queue (linked R req t) (elevator (\<lambda>i. key (R i)) req (x # xs))" "t \<in> set (x # xs)" by blast
  let ?bh = "r_bh (REQUEST_INFO s req)"
  define s1 where "s1 = (let s = disableInt (upd_req req (\<lambda>r. r\<lparr>r_next := None\<rparr>) s)
    in if ?bh \<noteq> 0 then upd_buf ?bh (\<lambda>b. b\<lparr>b_dirt := 0\<rparr>) s else s)"
  have s1: "REQUEST_INFO s1 = R" "BLK_DEV_INFO s1 = BLK_DEV_INFO s"
    by (simp_all add: s1_def R_def Let_def upd_req_def upd_buf_def disableInt_def)
  have "t \<noteq> req" using t(3) r by auto
  define s2 where "s2 = enableInt (upd_req t (\<lambda>r. r\<lparr>r_next := Some req\<rparr>) (upd_req req (\<lambda>r. r\<lparr>r_next := r_next (REQUEST_INFO s1 t)\<rparr>) s1))"
  have "REQUEST_INFO s2 = linked R req t" "BLK_DEV_INFO s2 = BLK_DEV_INFO s" "int_flag s2"
    using s1 \<open>t \<noteq> req\<close> by (simp_all add: s2_def enableInt_def upd_req_def linked_def)
  moreover have "addRequest pf major req s = Inr s2"
    using q t(1) s1 by (simp add: addRequest_def device_queue_def Let_def s2_def s1_def upd_req_def disableInt_def upd_buf_def R_def split: if_splits)
  moreover have "distinct (elevator (\<lambda>i. key (R i)) req (x # xs))"
    using mset_elevator [of "\<lambda>i. key (R i)" req "x # xs"] \<open>distinct (x # xs)\<close> r
    by (metis distinct.simps(2) mset.simps(2) mset_eq_imp_distinct_iff)
  moreover have "current_request (BLK_DEV_INFO s major) = Some x" using q by (simp add: device_queue_def)
  ultimately show ?thesis
    using t(2) hd_elevator [of "\<lambda>i. key (R i)" req x xs] unfolding kR device_queue_def
    by (metis (no_types, lifting) kR key_linked list.simps(5))
qed

text \<open>A free request, from the top down.\<close>

lemma free_request_Some:
  "free_request R n = Some i \<Longrightarrow> i < n \<and> sint (r_dev (R i)) < 0 \<and> (\<forall>j. i < j \<and> j < n \<longrightarrow> 0 \<le> sint (r_dev (R j)))"
  by (induction n) (auto simp: less_Suc_eq split: if_splits)

lemma free_request_None: "free_request R n = None \<longleftrightarrow> (\<forall>j < n. 0 \<le> sint (r_dev (R j)))"
  by (induction n) (auto simp: less_Suc_eq)

lemma get_request_Some:
  "get_request n pf rw ahead s = Inr (Some i, s') \<Longrightarrow>
   i < (if rw = READ then 32 else 21) \<and> sint (r_dev (REQUEST_INFO s' i)) < 0"
proof (induction n arbitrary: s)
  case (Suc n)
  then show ?case by (auto dest: free_request_Some split: option.splits if_splits)
qed simp

subsection \<open>The properties of the queue\<close>

text \<open>C14. \<open>addRequest\<close> on a queue that is not empty links the new request in behind the current one, loses
  and repeats none, and keeps the elevator's order: along the queue the requests grow by command, device
  and sector, except at one place.\<close>

theorem addRequest_sweeps:
  assumes "device_queue major (x # xs) s" and "req \<notin> set (x # xs)" and "length (x # xs) \<le> pf_fuel pf"
    and "two_sweeps (keys_of s (x # xs))"
    and "key (REQUEST_INFO s req) \<notin> (\<lambda>i. key (REQUEST_INFO s i)) ` set (x # xs)"
  shows "\<exists>s' ys. addRequest pf major req s = Inr s' \<and> device_queue major (x # ys) s' \<and>
    mset (x # ys) = add_mset req (mset (x # xs)) \<and> two_sweeps (keys_of s' (x # ys))"
proof -
  let ?k = "\<lambda>i. key (REQUEST_INFO s i)"
  obtain s' where s': "addRequest pf major req s = Inr s'"
    "device_queue major (elevator ?k req (x # xs)) s'" "\<forall>i. key (REQUEST_INFO s' i) = ?k i"
    using addRequest_elevator [OF assms(1-3)] by blast
  obtain ys where ys: "elevator ?k req (x # xs) = x # ys" using hd_elevator by metis
  have "two_sweeps (map ?k (x # ys))" using elevator_sweeps [OF assms(4,5)] unfolding ys .
  moreover have "mset (x # ys) = add_mset req (mset (x # xs))" using mset_elevator [of ?k req "x # xs"] unfolding ys .
  ultimately show ?thesis using s' unfolding ys by (intro exI [of _ s'] exI [of _ ys]) simp
qed

definition two_requests :: blk where
  "two_requests = upd_req 30 (\<lambda>_. boot_request\<lparr>r_sector := 80\<rparr>) (upd_req 29 (\<lambda>_. boot_request\<lparr>r_sector := 60\<rparr>)
     (upd_req 31 (\<lambda>r. r\<lparr>r_next := Some 30\<rparr>) blk_boot))"

theorem addRequest_sweeps_witness:
  "\<exists>s'. addRequest (some_platform Inr) 3 29 two_requests = Inr s' \<and> device_queue 3 [31, 29, 30] s'"
proof -
  have k: "key (REQUEST_INFO two_requests 31) = ReqKey 0 0x300 40" "key (REQUEST_INFO two_requests 30) = ReqKey 0 0x300 80"
    "key (REQUEST_INFO two_requests 29) = ReqKey 0 0x300 60"
    by (simp_all add: two_requests_def upd_req_def key_def)
  have q: "device_queue 3 [31, 30] two_requests"
    by (simp add: device_queue_def two_requests_def upd_req_def)
  have "two_sweeps (keys_of two_requests [31, 30])"
    unfolding two_sweeps_def by (intro exI [of _ "[ReqKey 0 0x300 40, ReqKey 0 0x300 80]"] exI [of _ "[]"]) (simp add: k)
  from addRequest_sweeps [OF q _ _ this, of 29 "some_platform Inr"] k obtain s' ys where
    s': "addRequest (some_platform Inr) 3 29 two_requests = Inr s'" "device_queue 3 (31 # ys) s'"
    "mset (31 # ys) = {# 29, 31, 30 #}" "two_sweeps (keys_of s' (31 # ys))"
    by (auto simp: some_platform_def)
  from addRequest_elevator [OF q, of 29 "some_platform Inr"] k
  have "device_queue 3 [31, 29, 30] s'" using s'(1) by (auto simp: some_platform_def)
  then show ?thesis using s'(1) by blast
qed

text \<open>C32. The request that a transfer gets is free; a read may take any of the 32, a write one of the first 21
  only, so that eleven are left to the reads. A transfer without one is a read-ahead or write-ahead.\<close>

theorem get_request_reserve:
  assumes "get_request n pf rw ahead s = Inr (r, s')"
  shows "case r of Some i \<Rightarrow> i < (if rw = READ then 32 else 21) \<and> sint (r_dev (REQUEST_INFO s' i)) < 0
    | None \<Rightarrow> ahead \<and> (\<forall>i < (if rw = READ then 32 else 21). 0 \<le> sint (r_dev (REQUEST_INFO s' i)))"
  using assms
proof (induction n arbitrary: s)
  case (Suc n)
  let ?m = "if rw = READ then 32 else 21 :: nat"
  show ?case
  proof (cases "free_request (REQUEST_INFO s) ?m")
    case (Some i)
    then have "r = Some i" "s' = s" using Suc.prems by (auto split: if_splits)
    then show ?thesis using free_request_Some [OF Some] by (auto split: if_splits)
  next
    case None
    show ?thesis
    proof (cases ahead)
      case True
      then have "r = None" "s' = s" using Suc.prems None by (auto split: if_splits)
      then show ?thesis using True None by (simp add: free_request_None)
    next
      case False
      then obtain t where "get_request n pf rw ahead t = Inr (r, s')" using Suc.prems None by (auto split: if_splits)
      then show ?thesis by (rule Suc.IH)
    qed
  qed
qed simp

theorem get_request_reserve_witness:
  "get_request 1 (some_platform Inr) 1 False blk_boot = Inr (Some 20, blk_boot) \<and> (20 :: nat) < 21"
proof -
  have "free_request (REQUEST_INFO blk_boot) 21 = Some 20"
    using free_request_Some [of "REQUEST_INFO blk_boot" 21] by (simp add: eval_nat_numeral free_slot_request_def)
  then have r: "get_request 1 (some_platform Inr) 1 False blk_boot = Inr (Some 20, blk_boot)" by simp
  show ?thesis using get_request_reserve [OF r] r by simp
qed

end
