(* ===== verification/Buffer.thy ===== *)
theory Buffer
  imports Blk
begin

section \<open>The buffer cache\<close>

text \<open>
  \<^verbatim>\<open>fs/buffer.c\<close>: the ring of buffer heads, the hash table over them, and the routines that find, take
  and release a buffer. A buffer head is 36 bytes long; its fields \<^verbatim>\<open>b_prev\<close> and \<^verbatim>\<open>b_next\<close> link the
  chain of its hash value, \<^verbatim>\<open>b_prev_free\<close> and \<^verbatim>\<open>b_next_free\<close> the ring. The routine that writes a
  device back is an argument of \<open>getblk_with\<close>: theory \<open>Inode\<close> closes the circle, since writing an inode
  back reads a block.
\<close>

abbreviation (input) NR_HASH :: nat where "NR_HASH \<equiv> 307"
abbreviation (input) NR_SUPER :: nat where "NR_SUPER \<equiv> 8"
abbreviation (input) NR_INODE :: nat where "NR_INODE \<equiv> 32"
abbreviation (input) START_BUFFER_ADDR :: u32 where "START_BUFFER_ADDR \<equiv> 0x100000"

subsection \<open>The state\<close>

record super_block =
  s_ninodes :: u16
  s_nzones :: u16
  s_imap_blocks :: u16
  s_zmap_blocks :: u16
  s_firstdatazone :: u16
  s_log_zone_size :: u16
  s_max_size :: u32
  s_magic :: u16
  s_imap :: "nat \<Rightarrow> u32"
  s_zmap :: "nat \<Rightarrow> u32"
  s_dev :: u16
  s_isup :: u32
  s_imount :: u32
  s_time :: u32
  s_lock :: u8
  s_rd_only :: u8
  s_dirt :: u8

record fs = blk +
  NR_BUFFERS :: u32
  BUFFER_FREE_LIST :: u32
  BUFFER_HASH_TABLE :: "nat \<Rightarrow> u32"
  SUPER_BLK :: "nat \<Rightarrow> super_block"

definition HASHFN :: "u32 \<Rightarrow> u32 \<Rightarrow> nat" where
  "HASHFN dev block = unat (ucast (dev XOR block) :: u16) mod NR_HASH"

definition BADNESS :: "buffer_head \<Rightarrow> nat" where
  "BADNESS bh = 2 * unat (b_dirt bh) + unat (b_lock bh)"

text \<open>The hash value of the block a buffer holds.\<close>

definition hash_of :: "buffer_head \<Rightarrow> nat" where
  "hash_of bh = HASHFN (ucast (b_dev bh)) (b_block_nr bh)"

subsection \<open>Initialisation\<close>

text \<open>
  The heads grow upwards from 1 MB and the blocks downwards from \<open>b\<close>, until they would meet. At most
  15360 blocks fit below the limit of 15 MB.
\<close>

definition init_head :: "u32 \<Rightarrow> u32 \<Rightarrow> 'a fs_scheme \<Rightarrow> 'a fs_scheme" where
  "init_head b h s =
     (let s = upd_buf h (\<lambda>bh. bh\<lparr>b_dev := 0, b_dirt := 0, b_count := 0, b_lock := 0, b_uptodate := 0,
                b_next := 0, b_prev := 0, b_data := b, b_prev_free := h - 36, b_next_free := h + 36\<rparr>) s
      in set_waitq (BufferWait h) 0 s)"

primrec buffer_loop :: "nat \<Rightarrow> u32 \<Rightarrow> u32 \<Rightarrow> 'a fs_scheme \<Rightarrow> (u32 \<times> 'a fs_scheme) outcome" where
  "buffer_loop 0 b h s = Inl NoFuel"
| "buffer_loop (Suc n) b h s =
     (let b = b - BLOCK_SIZE
      in if b \<ge> h + 36
         then let s = init_head b h s in buffer_loop n b (h + 36) (s\<lparr>NR_BUFFERS := NR_BUFFERS s + 1\<rparr>)
         else Inr (h, s))"

text \<open>After the loop, with \<open>h\<close> behind the last head: the ring is closed and the hash table cleared.\<close>

definition close_ring :: "u32 \<Rightarrow> 'a fs_scheme \<Rightarrow> 'a fs_scheme" where
  "close_ring h s =
     (let s = set_waitq BUFFER_WAIT 0 s;
          h = h - 36;
          s = s\<lparr>BUFFER_FREE_LIST := START_BUFFER_ADDR\<rparr>;
          s = upd_buf (BUFFER_FREE_LIST s) (\<lambda>bh. bh\<lparr>b_prev_free := h\<rparr>) s;
          s = upd_buf h (\<lambda>bh. bh\<lparr>b_next_free := BUFFER_FREE_LIST s\<rparr>) s
      in s\<lparr>BUFFER_HASH_TABLE := (\<lambda>i. if i < NR_HASH then 0 else BUFFER_HASH_TABLE s i)\<rparr>)"

definition initBuffer :: "t32 \<Rightarrow> 'a fs_scheme \<Rightarrow> 'a fs_scheme outcome" where
  "initBuffer mem_size s =
     (let mem_size = (if sint mem_size > 0x3C00000 then 0x3C00000 else mem_size);
          mem_size = mem_size AND 0xFFFFF000
      in if sint mem_size < 0x400000 then Inl (Hang ''initBuffer'')
         else
           let buf_mem_end = mem_size div 4
           in andThen (buffer_loop 15361 buf_mem_end START_BUFFER_ADDR s) (\<lambda>(h, s). Inr (close_ring h s)))"

subsection \<open>Looking up a block\<close>

text \<open>The walk along a chain.\<close>

primrec find_chain :: "nat \<Rightarrow> (u32 \<Rightarrow> buffer_head) \<Rightarrow> u32 \<Rightarrow> u32 \<Rightarrow> u32 \<Rightarrow> u32 outcome" where
  "find_chain 0 B dev block tmp = Inl NoFuel"
| "find_chain (Suc n) B dev block tmp =
     (if tmp = 0 then Inr 0
      else if ucast (b_dev (B tmp)) = dev \<and> b_block_nr (B tmp) = block then Inr tmp
      else find_chain n B dev block (b_next (B tmp)))"

definition findBuffer :: "nat \<Rightarrow> u32 \<Rightarrow> u32 \<Rightarrow> 'a fs_scheme \<Rightarrow> u32 outcome" where
  "findBuffer n dev block s = find_chain n (BUF s) dev block (BUFFER_HASH_TABLE s (HASHFN dev block))"

definition waitOnBuffer :: "'a blk_scheme platform \<Rightarrow> u32 \<Rightarrow> 'a blk_scheme \<Rightarrow> 'a blk_scheme outcome" where
  "waitOnBuffer pf bh s =
     andThen (wait_loop (pf_fuel pf) pf (\<lambda>s. b_lock (BUF s bh) \<noteq> 0) (BufferWait bh) (disableInt s))
       (\<lambda>s. Inr (enableInt s))"

primrec get_hash_loop ::
  "nat \<Rightarrow> 'a fs_scheme platform \<Rightarrow> u32 \<Rightarrow> u32 \<Rightarrow> 'a fs_scheme \<Rightarrow> (u32 \<times> 'a fs_scheme) outcome" where
  "get_hash_loop 0 pf dev block s = Inl NoFuel"
| "get_hash_loop (Suc n) pf dev block s =
     andThen (findBuffer (pf_fuel pf) dev block s) (\<lambda>bh.
       if bh = 0 then Inr (0, s)
       else
         let s = upd_buf bh (\<lambda>b. b\<lparr>b_count := b_count b + 1\<rparr>) s
         in andThen (waitOnBuffer pf bh s) (\<lambda>s.
            if ucast (b_dev (BUF s bh)) = dev \<and> b_block_nr (BUF s bh) = block then Inr (bh, s)
            else get_hash_loop n pf dev block (upd_buf bh (\<lambda>b. b\<lparr>b_count := b_count b - 1\<rparr>) s)))"

definition getHashTable ::
  "'a fs_scheme platform \<Rightarrow> u32 \<Rightarrow> u32 \<Rightarrow> 'a fs_scheme \<Rightarrow> (u32 \<times> 'a fs_scheme) outcome" where
  "getHashTable pf dev block s = get_hash_loop (pf_fuel pf) pf dev block s"

subsection \<open>The queues\<close>

definition removeFromQueues :: "'a fs_scheme platform \<Rightarrow> u32 \<Rightarrow> 'a fs_scheme \<Rightarrow> 'a fs_scheme outcome" where
  "removeFromQueues pf bh s =
     (let s = (if b_next (BUF s bh) \<noteq> 0
               then upd_buf (b_next (BUF s bh)) (\<lambda>b. b\<lparr>b_prev := b_prev (BUF s bh)\<rparr>) s else s);
          s = (if b_prev (BUF s bh) \<noteq> 0
               then upd_buf (b_prev (BUF s bh)) (\<lambda>b. b\<lparr>b_next := b_next (BUF s bh)\<rparr>) s else s);
          k = hash_of (BUF s bh);
          s = (if BUFFER_HASH_TABLE s k = bh
               then s\<lparr>BUFFER_HASH_TABLE := (BUFFER_HASH_TABLE s)(k := b_next (BUF s bh))\<rparr> else s)
      in if b_prev_free (BUF s bh) = 0 \<or> b_next_free (BUF s bh) = 0
         then andThen (kmsg pf ''Free block list corrupted'' (\<lambda>_. 0) s) (\<lambda>_. Inl (Hang ''removeFromQueues''))
         else
           let s = upd_buf (b_prev_free (BUF s bh)) (\<lambda>b. b\<lparr>b_next_free := b_next_free (BUF s bh)\<rparr>) s;
               s = upd_buf (b_next_free (BUF s bh)) (\<lambda>b. b\<lparr>b_prev_free := b_prev_free (BUF s bh)\<rparr>) s
           in Inr (if BUFFER_FREE_LIST s = bh then s\<lparr>BUFFER_FREE_LIST := b_next_free (BUF s bh)\<rparr> else s))"

text \<open>
  The last statement, \<^verbatim>\<open>bh->b_next->b_prev = bh\<close>, has no test for an empty chain: the field \<^verbatim>\<open>b_prev\<close>
  of the null pointer is the word at address 20, an entry of the page directory.
\<close>

definition insertIntoQueues :: "u32 \<Rightarrow> 'a fs_scheme \<Rightarrow> 'a fs_scheme" where
  "insertIntoQueues bh s =
     (let s = upd_buf bh (\<lambda>b. b\<lparr>b_next_free := BUFFER_FREE_LIST s\<rparr>) s;
          s = upd_buf bh (\<lambda>b. b\<lparr>b_prev_free := b_prev_free (BUF s (BUFFER_FREE_LIST s))\<rparr>) s;
          s = upd_buf (b_prev_free (BUF s (BUFFER_FREE_LIST s))) (\<lambda>b. b\<lparr>b_next_free := bh\<rparr>) s;
          s = upd_buf (BUFFER_FREE_LIST s) (\<lambda>b. b\<lparr>b_prev_free := bh\<rparr>) s;
          s = upd_buf bh (\<lambda>b. b\<lparr>b_prev := 0, b_next := 0\<rparr>) s
      in if b_dev (BUF s bh) = 0 then s
         else
           let k = hash_of (BUF s bh);
               s = upd_buf bh (\<lambda>b. b\<lparr>b_next := BUFFER_HASH_TABLE s k\<rparr>) s;
               s = s\<lparr>BUFFER_HASH_TABLE := (BUFFER_HASH_TABLE s)(k := bh)\<rparr>
           in if b_next (BUF s bh) = 0 then poke 20 bh s
              else upd_buf (b_next (BUF s bh)) (\<lambda>b. b\<lparr>b_prev := bh\<rparr>) s)"

subsection \<open>Releasing a buffer\<close>

definition brelse :: "'a fs_scheme platform \<Rightarrow> u32 \<Rightarrow> 'a fs_scheme \<Rightarrow> 'a fs_scheme outcome" where
  "brelse pf buf s =
     (if buf = 0 then Inr s
      else andThen (waitOnBuffer pf buf s) (\<lambda>s.
        let count = b_count (BUF s buf);
            s = upd_buf buf (\<lambda>b. b\<lparr>b_count := b_count b - 1\<rparr>) s
        in if count = 0
           then andThen (kmsg pf ''Trying to free free buffer'' (\<lambda>_. 0) s) (\<lambda>_. Inl (Hang ''brelse''))
           else Inr (wakeUp BUFFER_WAIT s)))"

subsection \<open>Taking a buffer\<close>

text \<open>The walk around the ring for the best unused buffer; the result 0 says that all are in use.\<close>

primrec free_scan :: "nat \<Rightarrow> (u32 \<Rightarrow> buffer_head) \<Rightarrow> u32 \<Rightarrow> u32 \<Rightarrow> u32 \<Rightarrow> u32 outcome" where
  "free_scan 0 B free_list tmp bh = Inl NoFuel"
| "free_scan (Suc n) B free_list tmp bh =
     (let better = b_count (B tmp) = 0 \<and> (bh = 0 \<or> BADNESS (B tmp) < BADNESS (B bh));
          bh = (if better then tmp else bh)
      in if better \<and> BADNESS (B tmp) = 0 then Inr bh
         else if b_next_free (B tmp) = free_list then Inr bh
         else free_scan n B free_list (b_next_free (B tmp)) bh)"

text \<open>Writing a dirty buffer back; the result says that somebody has taken it meanwhile.\<close>

primrec flush_loop ::
  "nat \<Rightarrow> 'a fs_scheme platform \<Rightarrow> (u32 \<Rightarrow> 'a fs_scheme \<Rightarrow> 'a fs_scheme outcome) \<Rightarrow> u32 \<Rightarrow>
   'a fs_scheme \<Rightarrow> (bool \<times> 'a fs_scheme) outcome" where
  "flush_loop 0 pf sync bh s = Inl NoFuel"
| "flush_loop (Suc n) pf sync bh s =
     (if b_dirt (BUF s bh) = 0 then Inr (False, s)
      else andThen (sync (ucast (b_dev (BUF s bh))) s) (\<lambda>s.
           andThen (waitOnBuffer pf bh s) (\<lambda>s.
           if b_count (BUF s bh) \<noteq> 0 then Inr (True, s) else flush_loop n pf sync bh s)))"

text \<open>The buffer \<open>bh\<close> becomes the buffer of the block: in use, clean, without valid contents.\<close>

definition assign_buffer ::
  "'a fs_scheme platform \<Rightarrow> u32 \<Rightarrow> u32 \<Rightarrow> u32 \<Rightarrow> 'a fs_scheme \<Rightarrow> 'a fs_scheme outcome" where
  "assign_buffer pf bh dev block s =
     andThen (removeFromQueues pf bh
         (upd_buf bh (\<lambda>b. b\<lparr>b_count := 1, b_dirt := 0, b_uptodate := 0\<rparr>) s)) (\<lambda>s.
       Inr (insertIntoQueues bh (upd_buf bh (\<lambda>b. b\<lparr>b_dev := ucast dev, b_block_nr := block\<rparr>) s)))"

primrec getblk_loop ::
  "nat \<Rightarrow> 'a fs_scheme platform \<Rightarrow> (u32 \<Rightarrow> 'a fs_scheme \<Rightarrow> 'a fs_scheme outcome) \<Rightarrow> u32 \<Rightarrow> u32 \<Rightarrow>
   'a fs_scheme \<Rightarrow> (u32 \<times> 'a fs_scheme) outcome" where
  "getblk_loop 0 pf sync dev block s = Inl NoFuel"
| "getblk_loop (Suc n) pf sync dev block s =
     andThen (getHashTable pf dev block s) (\<lambda>(bh, s).
       if bh \<noteq> 0 then Inr (bh, s)
       else andThen (free_scan (pf_fuel pf) (BUF s) (BUFFER_FREE_LIST s) (BUFFER_FREE_LIST s) 0) (\<lambda>bh.
         if bh = 0 then andThen (sleepOn pf BUFFER_WAIT s) (getblk_loop n pf sync dev block)
         else andThen (waitOnBuffer pf bh s) (\<lambda>s.
           if b_count (BUF s bh) \<noteq> 0 then getblk_loop n pf sync dev block s
           else andThen (flush_loop (pf_fuel pf) pf sync bh s) (\<lambda>(busy, s).
             if busy then getblk_loop n pf sync dev block s
             else andThen (findBuffer (pf_fuel pf) dev block s) (\<lambda>other.
               if other \<noteq> 0 then getblk_loop n pf sync dev block s
               else andThen (assign_buffer pf bh dev block s) (\<lambda>s. Inr (bh, s)))))))"

definition getblk_with ::
  "(u32 \<Rightarrow> 'a fs_scheme \<Rightarrow> 'a fs_scheme outcome) \<Rightarrow> 'a fs_scheme platform \<Rightarrow> u32 \<Rightarrow> u32 \<Rightarrow>
   'a fs_scheme \<Rightarrow> (u32 \<times> 'a fs_scheme) outcome" where
  "getblk_with sync pf dev block s = getblk_loop (pf_fuel pf) pf sync dev block s"

definition bread_with ::
  "(u32 \<Rightarrow> u32 \<Rightarrow> 'a fs_scheme \<Rightarrow> (u32 \<times> 'a fs_scheme) outcome) \<Rightarrow> 'a fs_scheme platform \<Rightarrow> u32 \<Rightarrow> u32 \<Rightarrow>
   'a fs_scheme \<Rightarrow> (u32 \<times> 'a fs_scheme) outcome" where
  "bread_with get pf dev block s =
     andThen (get dev block s) (\<lambda>(bh, s).
       if bh = 0 then
         andThen (kmsg pf (''bread: getblk returned NULL'' @ [CHR 0x0A]) (\<lambda>_. 0) s) (\<lambda>_. Inl (Hang ''bread''))
       else if b_uptodate (BUF s bh) \<noteq> 0 then Inr (bh, s)
       else andThen (ll_rw_block pf READ bh s) (\<lambda>s.
            andThen (waitOnBuffer pf bh s) (\<lambda>s.
            if b_uptodate (BUF s bh) \<noteq> 0 then Inr (bh, s)
            else andThen (brelse pf bh s) (\<lambda>s. Inr (0, s)))))"

end
