(* ===== verification/Inode.thy ===== *)
theory Inode
  imports Buffer
begin

section \<open>Inodes and super blocks\<close>

text \<open>
  \<^verbatim>\<open>fs/inode.c\<close> and \<^verbatim>\<open>fs/super.c\<close>, and the four routines that call each other: \<open>getblk\<close> writes a dirty
  buffer back with \<open>syncDev\<close>, which writes the inodes back with \<open>syncInodes\<close>, which reads their blocks
  with \<open>bread\<close>, which takes a buffer with \<open>getblk\<close>. The depth of this recursion is bounded by the fuel of
  the platform. The table of inodes is an array of 56-byte records at the address \<open>inode_table\<close>.
\<close>

subsection \<open>Super blocks\<close>

definition waitOnSuper :: "'a fs_scheme platform \<Rightarrow> nat \<Rightarrow> 'a fs_scheme \<Rightarrow> 'a fs_scheme outcome" where
  "waitOnSuper pf k s =
     andThen (wait_loop (pf_fuel pf) pf (\<lambda>s. s_lock (SUPER_BLK s k) \<noteq> 0) (SuperWait k) (disableInt s))
       (\<lambda>s. Inr (enableInt s))"

primrec super_loop ::
  "nat \<Rightarrow> 'a fs_scheme platform \<Rightarrow> u32 \<Rightarrow> nat \<Rightarrow> 'a fs_scheme \<Rightarrow> (nat option \<times> 'a fs_scheme) outcome" where
  "super_loop 0 pf dev k s = Inl NoFuel"
| "super_loop (Suc n) pf dev k s =
     (if k \<ge> NR_SUPER then Inr (None, s)
      else if ucast (s_dev (SUPER_BLK s k)) = dev then
        andThen (waitOnSuper pf k s) (\<lambda>s.
          if ucast (s_dev (SUPER_BLK s k)) = dev then Inr (Some k, s) else super_loop n pf dev 0 s)
      else super_loop n pf dev (k + 1) s)"

definition getSuper ::
  "'a fs_scheme platform \<Rightarrow> u32 \<Rightarrow> 'a fs_scheme \<Rightarrow> (nat option \<times> 'a fs_scheme) outcome" where
  "getSuper pf dev s = (if dev = 0 then Inr (None, s) else super_loop (pf_fuel pf) pf dev 0 s)"

subsection \<open>The lock of an inode\<close>

definition waitOnInode :: "'a kernel_scheme platform \<Rightarrow> u32 \<Rightarrow> 'a kernel_scheme \<Rightarrow> 'a kernel_scheme outcome" where
  "waitOnInode pf inode s =
     andThen (wait_loop (pf_fuel pf) pf (\<lambda>s. i_lock (INODES s inode) \<noteq> 0) (InodeWait inode) (disableInt s))
       (\<lambda>s. Inr (enableInt s))"

definition lockInode :: "'a kernel_scheme platform \<Rightarrow> u32 \<Rightarrow> 'a kernel_scheme \<Rightarrow> 'a kernel_scheme outcome" where
  "lockInode pf inode s =
     andThen (wait_loop (pf_fuel pf) pf (\<lambda>s. i_lock (INODES s inode) \<noteq> 0) (InodeWait inode) (disableInt s))
       (\<lambda>s. Inr (enableInt (upd_inode inode (\<lambda>i. i\<lparr>i_lock := 1\<rparr>) s)))"

definition unlockInode :: "u32 \<Rightarrow> 'a kernel_scheme \<Rightarrow> 'a kernel_scheme" where
  "unlockInode inode s = wakeUp (InodeWait inode) (upd_inode inode (\<lambda>i. i\<lparr>i_lock := 0\<rparr>) s)"

subsection \<open>Writing inodes back\<close>

text \<open>
  The first 32 bytes of an inode in memory are the inode on the disk (\<^verbatim>\<open>DINODE\<close>), with the low byte of
  each field first.
\<close>

definition bytes2 :: "u16 \<Rightarrow> u8 list" where
  "bytes2 w = [ucast w, ucast (drop_bit 8 w)]"

definition bytes4 :: "u32 \<Rightarrow> u8 list" where
  "bytes4 w = [ucast w, ucast (drop_bit 8 w), ucast (drop_bit 16 w), ucast (drop_bit 24 w)]"

definition dinode_bytes :: "minode \<Rightarrow> u8 list" where
  "dinode_bytes i =
     bytes2 (i_mode i) @ bytes2 (i_uid i) @ bytes4 (i_size i) @ bytes4 (i_mtime i) @ [i_gid i, i_nlinks i] @
     concat (map (\<lambda>k. bytes2 (i_zone i k)) [0..<9])"

text \<open>The block of an inode of a device: after two blocks and the two bit maps, 32 inodes to a block.\<close>

definition inode_block :: "super_block \<Rightarrow> minode \<Rightarrow> u32" where
  "inode_block sb i =
     2 + ucast (s_imap_blocks sb) + ucast (s_zmap_blocks sb) + (ucast (i_num i) - 1) div 32"

definition writeInode_with ::
  "(u32 \<Rightarrow> u32 \<Rightarrow> 'a fs_scheme \<Rightarrow> (u32 \<times> 'a fs_scheme) outcome) \<Rightarrow> 'a fs_scheme platform \<Rightarrow> u32 \<Rightarrow>
   'a fs_scheme \<Rightarrow> 'a fs_scheme outcome" where
  "writeInode_with read pf inode s =
     andThen (lockInode pf inode s) (\<lambda>s.
       if i_dirt (INODES s inode) = 0 \<or> i_dev (INODES s inode) = 0 then Inr (unlockInode inode s)
       else andThen (getSuper pf (ucast (i_dev (INODES s inode))) s) (\<lambda>(r, s).
         case r of
           None \<Rightarrow> andThen (kmsg pf ''trying to write inode without device'' (\<lambda>_. 0) s) (\<lambda>_. Inl (Hang ''writeInode''))
         | Some k \<Rightarrow>
             andThen (read (ucast (i_dev (INODES s inode))) (inode_block (SUPER_BLK s k) (INODES s inode)) s) (\<lambda>(bh, s).
               if bh = 0
               then andThen (kmsg pf ''unable to read i-node block'' (\<lambda>_. 0) s) (\<lambda>_. Inl (Hang ''writeInode''))
               else
                 let at = (ucast (i_num (INODES s inode)) - 1) mod 32;
                     s = store_bytes (b_data (BUF s bh) + 32 * at) (dinode_bytes (INODES s inode)) s;
                     s = upd_buf bh (\<lambda>b. b\<lparr>b_dirt := 1\<rparr>) s;
                     s = upd_inode inode (\<lambda>i. i\<lparr>i_dirt := 0\<rparr>) s
                 in andThen (brelse pf bh s) (\<lambda>s. Inr (unlockInode inode s)))))"

definition sync_inode ::
  "(u32 \<Rightarrow> u32 \<Rightarrow> 'a fs_scheme \<Rightarrow> (u32 \<times> 'a fs_scheme) outcome) \<Rightarrow> 'a fs_scheme platform \<Rightarrow> nat \<Rightarrow>
   'a fs_scheme \<Rightarrow> 'a fs_scheme outcome" where
  "sync_inode read pf k s =
     (let inode = inode_table pf + 56 * of_nat k
      in andThen (waitOnInode pf inode s) (\<lambda>s.
         if i_dirt (INODES s inode) \<noteq> 0 \<and> i_pipe (INODES s inode) = 0 then writeInode_with read pf inode s
         else Inr s))"

definition syncInodes_with ::
  "(u32 \<Rightarrow> u32 \<Rightarrow> 'a fs_scheme \<Rightarrow> (u32 \<times> 'a fs_scheme) outcome) \<Rightarrow> 'a fs_scheme platform \<Rightarrow>
   'a fs_scheme \<Rightarrow> 'a fs_scheme outcome" where
  "syncInodes_with read pf s = each (sync_inode read pf) [0..<NR_INODE] s"

subsection \<open>Writing a device back\<close>

definition sync_buffer ::
  "'a fs_scheme platform \<Rightarrow> u32 \<Rightarrow> nat \<Rightarrow> 'a fs_scheme \<Rightarrow> 'a fs_scheme outcome" where
  "sync_buffer pf dev k s =
     (let bh = START_BUFFER_ADDR + 36 * of_nat k
      in if ucast (b_dev (BUF s bh)) \<noteq> dev then Inr s
         else andThen (waitOnBuffer pf bh s) (\<lambda>s.
           if ucast (b_dev (BUF s bh)) = dev \<and> b_dirt (BUF s bh) \<noteq> 0 then ll_rw_block pf WRITE bh s
           else Inr s))"

text \<open>The loop over all the buffers, which \<open>syncDev\<close> runs before and after the inodes.\<close>

definition sync_buffers :: "'a fs_scheme platform \<Rightarrow> u32 \<Rightarrow> 'a fs_scheme \<Rightarrow> 'a fs_scheme outcome" where
  "sync_buffers pf dev s = each (sync_buffer pf dev) [0..<unat (NR_BUFFERS s)] s"

definition syncDev_with ::
  "(u32 \<Rightarrow> u32 \<Rightarrow> 'a fs_scheme \<Rightarrow> (u32 \<times> 'a fs_scheme) outcome) \<Rightarrow> 'a fs_scheme platform \<Rightarrow> u32 \<Rightarrow>
   'a fs_scheme \<Rightarrow> 'a fs_scheme outcome" where
  "syncDev_with read pf dev s =
     andThen (sync_buffers pf dev s) (\<lambda>s.
     andThen (syncInodes_with read pf s) (\<lambda>s. sync_buffers pf dev s))"

subsection \<open>Closing the circle\<close>

primrec getblk_depth ::
  "nat \<Rightarrow> 'a fs_scheme platform \<Rightarrow> u32 \<Rightarrow> u32 \<Rightarrow> 'a fs_scheme \<Rightarrow> (u32 \<times> 'a fs_scheme) outcome" where
  "getblk_depth 0 pf dev block s = Inl NoFuel"
| "getblk_depth (Suc d) pf dev block s =
     getblk_with (syncDev_with (bread_with (getblk_depth d pf) pf) pf) pf dev block s"

definition getblk :: "'a fs_scheme platform \<Rightarrow> u32 \<Rightarrow> u32 \<Rightarrow> 'a fs_scheme \<Rightarrow> (u32 \<times> 'a fs_scheme) outcome" where
  "getblk pf = getblk_depth (pf_fuel pf) pf"

definition bread :: "'a fs_scheme platform \<Rightarrow> u32 \<Rightarrow> u32 \<Rightarrow> 'a fs_scheme \<Rightarrow> (u32 \<times> 'a fs_scheme) outcome" where
  "bread pf = bread_with (getblk pf) pf"

definition writeInode :: "'a fs_scheme platform \<Rightarrow> u32 \<Rightarrow> 'a fs_scheme \<Rightarrow> 'a fs_scheme outcome" where
  "writeInode pf = writeInode_with (bread pf) pf"

definition syncInodes :: "'a fs_scheme platform \<Rightarrow> 'a fs_scheme \<Rightarrow> 'a fs_scheme outcome" where
  "syncInodes pf = syncInodes_with (bread pf) pf"

text \<open>\<open>syncDev\<close> returns 0 whenever it returns.\<close>

definition syncDev :: "'a fs_scheme platform \<Rightarrow> u32 \<Rightarrow> 'a fs_scheme \<Rightarrow> (t32 \<times> 'a fs_scheme) outcome" where
  "syncDev pf dev s = andThen (syncDev_with (bread pf) pf dev s) (\<lambda>s. Inr (0, s))"

end
