(* ===== verification/Locks.thy ===== *)
theory Locks
  imports Inode Disk
begin

section \<open>Locks that a process sleeps on\<close>

text \<open>
  Buffers, inodes and super blocks have a lock byte and a queue of sleepers. The interface names what a
  routine that uses such a lock relies on; buffers and inodes provide all of it, super blocks only the
  waiting. The other processes and the interrupt handlers are \<open>others\<close>; \<open>enough\<close> says that the model has
  fuel.
\<close>

subsection \<open>The interface\<close>

text \<open>A step keeps what holds of the state, whenever it comes to an end.\<close>

definition keeps :: "('s \<Rightarrow> 's outcome) \<Rightarrow> ('s \<Rightarrow> bool) \<Rightarrow> bool" where
  "keeps f P \<longleftrightarrow> (\<forall>s s'. P s \<longrightarrow> f s = Inr s' \<longrightarrow> P s')"

lemma keepsD: "keeps f P \<Longrightarrow> P s \<Longrightarrow> f s = Inr s' \<Longrightarrow> P s'"
  unfolding keeps_def by blast

locale waiting =
  fixes locked :: "'s \<Rightarrow> bool"
    and wait :: "'s \<Rightarrow> 's outcome"
    and others :: "'s \<Rightarrow> 's outcome"
    and enough :: bool
  assumes wait_free: "wait s = Inr s' \<Longrightarrow> \<not> locked s'"
    and wait_now: "enough \<Longrightarrow> \<not> locked s \<Longrightarrow> \<exists>s'. wait s = Inr s'"
    and wait_held: "locked s \<Longrightarrow> keeps others locked \<Longrightarrow> wait s \<noteq> Inr s'"
begin

text \<open>Whoever comes out of a wait has either found the lock open or somebody has opened it.\<close>

lemma wait_opened:
  assumes "wait s = Inr s'"
  shows "\<not> locked s \<or> (\<exists>t t'. locked t \<and> others t = Inr t' \<and> \<not> locked t')"
  using assms wait_held [of s s'] unfolding keeps_def by blast

lemma wait_again: "enough \<Longrightarrow> wait s = Inr t \<Longrightarrow> \<exists>u. wait t = Inr u"
  using wait_free wait_now by blast

end

locale sleep_lock = waiting locked wait others enough
  for locked :: "'s \<Rightarrow> bool" and wait others :: "'s \<Rightarrow> 's outcome" and enough :: bool +
  fixes acquire release :: "'s \<Rightarrow> 's outcome"
  assumes acquire_locks: "acquire s = Inr s' \<Longrightarrow> locked s'"
    and acquire_waits: "acquire s = Inr s' \<Longrightarrow> \<exists>t. wait s = Inr t"
    and acquire_after_wait: "wait s = Inr t \<Longrightarrow> \<exists>s'. acquire s = Inr s'"
    and release_opens: "release s = Inr s' \<Longrightarrow> \<not> locked s'"
begin

text \<open>Nobody gets a lock that is held, unless somebody releases it meanwhile.\<close>

lemma acquire_excludes:
  assumes "locked s" and "keeps others locked"
  shows "acquire s \<noteq> Inr s'"
  using acquire_waits [of s s'] wait_held [OF assms] by auto

lemma acquire_twice:
  assumes "acquire s = Inr t" and "keeps others locked"
  shows "acquire t \<noteq> Inr u"
  using acquire_excludes [OF acquire_locks [OF assms(1)] assms(2)] by blast

lemma acquire_open: "enough \<Longrightarrow> \<not> locked s \<Longrightarrow> \<exists>t. acquire s = Inr t \<and> locked t"
  using wait_now acquire_after_wait acquire_locks by blast

text \<open>After a release the next one gets the lock at once.\<close>

lemma acquire_after_release:
  "enough \<Longrightarrow> release s = Inr t \<Longrightarrow> \<exists>u. acquire t = Inr u \<and> locked u"
  by (rule acquire_open [OF _ release_opens])

end

subsection \<open>What a sleeping process leaves alone\<close>

lemma signals_frame: "kernel.more (fold signal_step xs s) = kernel.more s \<and> INODES (fold signal_step xs s) = INODES s"
  by (induction xs arbitrary: s) (auto simp: signal_step_def poke_def)

lemma refill_frame: "kernel.more (refill s) = kernel.more s \<and> INODES (refill s) = INODES s"
  by (simp add: refill_def refill_fold)

lemma schedule_keeps:
  assumes "schedule n s = Inr s'"
  shows "kernel.more s' = kernel.more s \<and> INODES s' = INODES s"
proof -
  have l: "schedule_loop n t = Inr (k, u) \<Longrightarrow> kernel.more u = kernel.more t \<and> INODES u = INODES t" for t u k
  proof (induction n arbitrary: t)
    case (Suc n)
    obtain c j where p: "pick t = (c, j)" by fastforce
    then show ?case using Suc refill_frame [of t] by (auto split: if_splits)
  qed simp
  define a where "a = fold signal_step [1..<64] s"
  obtain k u where u: "schedule_loop n a = Inr (k, u)" "s' = SWITCH_TO k u"
    using assms by (auto simp: schedule_def a_def simp del: upt_Suc)
  show ?thesis using l [OF u(1)] signals_frame [of "[1..<64]" s] by (simp add: u(2) SWITCH_TO_def a_def)
qed

text \<open>
  A property of the state that depends only on the inodes and on the state of the block devices and the
  file system, and that the others keep, survives a sleep.
\<close>

definition undisturbed :: "('a kernel_scheme \<Rightarrow> bool) \<Rightarrow> bool" where
  "undisturbed L \<longleftrightarrow> (\<forall>t t'. kernel.more t' = kernel.more t \<longrightarrow> INODES t' = INODES t \<longrightarrow> L t \<longrightarrow> L t')"

lemma undisturbedD: "undisturbed L \<Longrightarrow> L t \<Longrightarrow> kernel.more t' = kernel.more t \<Longrightarrow> INODES t' = INODES t \<Longrightarrow> L t'"
  unfolding undisturbed_def by blast

lemma reschedule_keeps:
  assumes "reschedule pf s = Inr s'" and "L s" and own: "undisturbed L" and others: "keeps (pf_others pf) L"
  shows "L s'"
proof -
  obtain c where c: "schedule (pf_fuel pf) s = Inr c" "s' = c \<or> (\<exists>d. pf_others pf c = Inr d \<and> s' = d\<lparr>CURRENT := CURRENT s\<rparr>)"
    using assms(1) by (auto simp: reschedule_def Let_def split: if_splits)
  have lc: "L c" by (rule undisturbedD [OF own \<open>L s\<close>]) (use schedule_keeps [OF c(1)] in simp_all)
  from c(2) show ?thesis
  proof (elim disjE exE conjE)
    fix d assume d: "pf_others pf c = Inr d" "s' = d\<lparr>CURRENT := CURRENT s\<rparr>"
    show ?thesis by (rule undisturbedD [OF own keepsD [OF others lc d(1)]]) (simp_all add: d(2))
  qed (use lc in simp)
qed

lemma sleepOn_keeps:
  assumes "sleepOn pf q s = Inr s'" and "L s" and own: "undisturbed L" and others: "keeps (pf_others pf) L"
  shows "L s'"
proof -
  have nt: "CURRENT s \<noteq> tasks_array pf" using assms(1) by (auto simp: sleepOn_def)
  define a where "a = upd_proc (CURRENT s) (\<lambda>p. p\<lparr>p_state := TASK_UNINTERRUPTIBLE\<rparr>) (set_waitq q (CURRENT s) s)"
  have ca: "CURRENT (set_waitq q (CURRENT s) s) = CURRENT s" by (simp add: set_waitq_def)
  obtain b where b: "reschedule pf a = Inr b"
    and s'_def: "s' = (let t = set_waitq q (WAITQ s q) b
      in if WAITQ s q \<noteq> 0 then upd_proc (WAITQ s q) (\<lambda>p. p\<lparr>p_state := TASK_RUNNING\<rparr>) t else t)"
    using assms(1) nt unfolding sleepOn_def Let_def ca a_def [symmetric] by auto
  have s': "kernel.more s' = kernel.more b" "INODES s' = INODES b"
    unfolding s'_def Let_def set_waitq_def upd_proc_def by simp_all
  have "L a" by (rule undisturbedD [OF own assms(2)]) (simp_all add: a_def upd_proc_def set_waitq_def)
  from reschedule_keeps [OF b this own others] show ?thesis by (rule undisturbedD [OF own _ s'])
qed

lemma wait_loop_keeps:
  assumes "locked s" and "undisturbed locked" and "keeps (pf_others pf) locked"
  shows "wait_loop n pf locked q s \<noteq> Inr s'"
  using assms(1)
proof (induction n arbitrary: s)
  case (Suc n)
  show ?case
  proof
    assume w: "wait_loop (Suc n) pf locked q s = Inr s'"
    with Suc.prems obtain t where t: "sleepOn pf q s = Inr t" "wait_loop n pf locked q t = Inr s'"
      by auto
    show False using Suc.IH [OF sleepOn_keeps [OF t(1) Suc.prems assms(2,3)]] t(2) by simp
  qed
qed simp

subsection \<open>The three kinds of locks\<close>

lemma BUF_more: "kernel.more t' = kernel.more t \<Longrightarrow> BUF t' = BUF t"
  by (cases t; cases t') simp

lemma SUPER_BLK_more: "kernel.more t' = kernel.more t \<Longrightarrow> SUPER_BLK t' = SUPER_BLK t"
  by (cases t; cases t') simp

lemma undisturbed_buffer: "undisturbed (\<lambda>s. b_lock (BUF s bh) \<noteq> 0)"
  unfolding undisturbed_def by (metis BUF_more)

lemma undisturbed_inode: "undisturbed (\<lambda>s. i_lock (INODES s ino) \<noteq> 0)"
  unfolding undisturbed_def by metis

lemma undisturbed_super: "undisturbed (\<lambda>s. s_lock (SUPER_BLK s k) \<noteq> 0)"
  unfolding undisturbed_def by (metis SUPER_BLK_more)

lemma enableInt_frame: "kernel.more (enableInt s) = kernel.more s" "INODES (enableInt s) = INODES s"
  "BUF (enableInt t) = BUF t" "SUPER_BLK (enableInt u) = SUPER_BLK u"
  by (simp_all add: enableInt_def)

lemma disableInt_frame: "kernel.more (disableInt s) = kernel.more s" "INODES (disableInt s) = INODES s"
  "BUF (disableInt t) = BUF t" "SUPER_BLK (disableInt u) = SUPER_BLK u"
  by (simp_all add: disableInt_def)

lemma wait_loop_stays:
  "locked s \<Longrightarrow> undisturbed locked \<Longrightarrow> keeps (pf_others pf) locked \<Longrightarrow> wait_loop n pf locked q (disableInt s) \<noteq> Inr s'"
  by (rule wait_loop_keeps) (auto elim!: undisturbedD simp: disableInt_frame)

interpretation buffer_lock: sleep_lock "\<lambda>s. b_lock (BUF s bh) \<noteq> 0" "waitOnBuffer pf bh" "pf_others pf" "0 < pf_fuel pf"
    "lockBuffer pf bh" "unlockBuffer pf bh" for pf :: "'a blk_scheme platform" and bh :: u32
proof
  fix s s' :: "'a blk_scheme"
  let ?l = "\<lambda>s :: 'a blk_scheme. b_lock (BUF s bh) \<noteq> 0"
  show "\<not> ?l s'" if "waitOnBuffer pf bh s = Inr s'"
    using that wait_loop_free [of "pf_fuel pf" pf ?l "BufferWait bh" "disableInt s"]
    by (auto simp: waitOnBuffer_def enableInt_frame)
  show "\<exists>s'. waitOnBuffer pf bh s = Inr s'" if "0 < pf_fuel pf" "\<not> ?l s"
    using wait_loop_now [of ?l "disableInt s" "pf_fuel pf" pf] that by (simp add: waitOnBuffer_def disableInt_frame)
  show "waitOnBuffer pf bh s \<noteq> Inr s'" if "?l s" "keeps (pf_others pf) ?l"
    using wait_loop_stays [OF that(1) undisturbed_buffer that(2)] by (simp add: waitOnBuffer_def)
  show "?l s'" if "lockBuffer pf bh s = Inr s'"
    using that by (auto simp: lockBuffer_def upd_buf_def enableInt_frame)
  show "\<exists>t. waitOnBuffer pf bh s = Inr t" if "lockBuffer pf bh s = Inr s'"
    using that by (auto simp: lockBuffer_def waitOnBuffer_def)
  show "\<exists>u. lockBuffer pf bh s = Inr u" if "waitOnBuffer pf bh s = Inr t" for t
    using that by (auto simp: lockBuffer_def waitOnBuffer_def)
  show "\<not> ?l s'" if "unlockBuffer pf bh s = Inr s'"
    using unlockBuffer_frame(4) [OF that] by simp
qed

interpretation inode_lock: sleep_lock "\<lambda>s. i_lock (INODES s ino) \<noteq> 0" "waitOnInode pf ino" "pf_others pf" "0 < pf_fuel pf"
    "lockInode pf ino" "\<lambda>s. Inr (unlockInode ino s)" for pf :: "'a kernel_scheme platform" and ino :: u32
proof
  fix s s' :: "'a kernel_scheme"
  let ?l = "\<lambda>s :: 'a kernel_scheme. i_lock (INODES s ino) \<noteq> 0"
  show "\<not> ?l s'" if "waitOnInode pf ino s = Inr s'"
    using that wait_loop_free [of "pf_fuel pf" pf ?l "InodeWait ino" "disableInt s"]
    by (auto simp: waitOnInode_def enableInt_frame)
  show "\<exists>s'. waitOnInode pf ino s = Inr s'" if "0 < pf_fuel pf" "\<not> ?l s"
    using wait_loop_now [of ?l "disableInt s" "pf_fuel pf" pf] that by (simp add: waitOnInode_def disableInt_frame)
  show "waitOnInode pf ino s \<noteq> Inr s'" if "?l s" "keeps (pf_others pf) ?l"
    using wait_loop_stays [OF that(1) undisturbed_inode that(2)] by (simp add: waitOnInode_def)
  show "?l s'" if "lockInode pf ino s = Inr s'"
    using that by (auto simp: lockInode_def upd_inode_def enableInt_frame)
  show "\<exists>t. waitOnInode pf ino s = Inr t" if "lockInode pf ino s = Inr s'"
    using that by (auto simp: lockInode_def waitOnInode_def)
  show "\<exists>u. lockInode pf ino s = Inr u" if "waitOnInode pf ino s = Inr t" for t
    using that by (auto simp: lockInode_def waitOnInode_def)
  show "\<not> ?l s'" if "Inr (unlockInode ino s) = (Inr s' :: 'a kernel_scheme outcome)"
    using that by (auto simp: unlockInode_def wakeUp_def upd_inode_def upd_proc_def set_waitq_def split: if_splits)
qed

interpretation super_lock: waiting "\<lambda>s. s_lock (SUPER_BLK s k) \<noteq> 0" "waitOnSuper pf k" "pf_others pf" "0 < pf_fuel pf"
  for pf :: "'a fs_scheme platform" and k :: nat
proof
  fix s s' :: "'a fs_scheme"
  let ?l = "\<lambda>s :: 'a fs_scheme. s_lock (SUPER_BLK s k) \<noteq> 0"
  show "\<not> ?l s'" if "waitOnSuper pf k s = Inr s'"
    using that wait_loop_free [of "pf_fuel pf" pf ?l "SuperWait k" "disableInt s"]
    by (auto simp: waitOnSuper_def enableInt_frame)
  show "\<exists>s'. waitOnSuper pf k s = Inr s'" if "0 < pf_fuel pf" "\<not> ?l s"
    using wait_loop_now [of ?l "disableInt s" "pf_fuel pf" pf] that by (simp add: waitOnSuper_def disableInt_frame)
  show "waitOnSuper pf k s \<noteq> Inr s'" if "?l s" "keeps (pf_others pf) ?l"
    using wait_loop_stays [OF that(1) undisturbed_super that(2)] by (simp add: waitOnSuper_def)
qed


subsection \<open>The lock of a buffer\<close>

lemma unlockBuffer_locked: "b_lock (BUF s bh) \<noteq> 0 \<Longrightarrow> \<exists>s'. unlockBuffer pf bh s = Inr s'"
  by (simp add: unlockBuffer_def)

text \<open>C18. The lock of a buffer excludes: when \<open>lockBuffer\<close> has returned, the buffer is locked, and as long
  as no other process and no interrupt handler unlocks it, a second \<open>lockBuffer\<close> does not return; after
  \<open>unlockBuffer\<close>, which returns, the next one gets the lock at once, and \<open>waitOnBuffer\<close> passes.\<close>

theorem lockBuffer_excludes:
  assumes "lockBuffer pf bh s = Inr t" and "keeps (pf_others pf) (\<lambda>s. b_lock (BUF s bh) \<noteq> 0)" and "0 < pf_fuel pf"
  shows "b_lock (BUF t bh) \<noteq> 0 \<and> lockBuffer pf bh t \<noteq> Inr u \<and> waitOnBuffer pf bh t \<noteq> Inr u \<and>
    (\<exists>o'. unlockBuffer pf bh t = Inr o' \<and>
      (\<exists>v. lockBuffer pf bh o' = Inr v \<and> b_lock (BUF v bh) \<noteq> 0) \<and> (\<exists>w. waitOnBuffer pf bh o' = Inr w))"
proof (intro conjI)
  show l: "b_lock (BUF t bh) \<noteq> 0" by (rule buffer_lock.acquire_locks [OF assms(1)])
  show "lockBuffer pf bh t \<noteq> Inr u" by (rule buffer_lock.acquire_twice [OF assms(1,2)])
  show "waitOnBuffer pf bh t \<noteq> Inr u" by (rule buffer_lock.wait_held [OF l assms(2)])
  obtain x where x: "unlockBuffer pf bh t = Inr x" using unlockBuffer_locked [OF l] by blast
  have "\<exists>v. lockBuffer pf bh x = Inr v \<and> b_lock (BUF v bh) \<noteq> 0" by (rule buffer_lock.acquire_after_release [OF assms(3) x])
  moreover have "\<exists>w. waitOnBuffer pf bh x = Inr w"
    by (rule buffer_lock.wait_now [OF assms(3)]) (rule buffer_lock.release_opens [OF x])
  ultimately show "\<exists>o'. unlockBuffer pf bh t = Inr o' \<and>
      (\<exists>v. lockBuffer pf bh o' = Inr v \<and> b_lock (BUF v bh) \<noteq> 0) \<and> (\<exists>w. waitOnBuffer pf bh o' = Inr w)" using x by blast
qed

theorem lockBuffer_excludes_witness:
  "\<exists>(s :: blk) t. lockBuffer (some_platform Inr) 0x100000 s = Inr t \<and> b_lock (BUF t 0x100000) \<noteq> 0"
proof -
  define s :: blk where "s = upd_buf 0x100000 (\<lambda>b. b\<lparr>b_lock := 0\<rparr>) blk_boot"
  have f: "0 < pf_fuel (some_platform Inr :: blk platform)" by (simp add: some_platform_def)
  have "\<not> b_lock (BUF s 0x100000) \<noteq> 0" by (simp add: s_def upd_buf_def)
  then obtain t where t: "lockBuffer (some_platform Inr) 0x100000 s = Inr t" using buffer_lock.acquire_open [OF f] by blast
  have "keeps (pf_others (some_platform Inr)) (\<lambda>s :: blk. b_lock (BUF s 0x100000) \<noteq> 0)"
    by (simp add: keeps_def some_platform_def)
  from lockBuffer_excludes [OF t this f] t show ?thesis by blast
qed

end
