(* ===== verification/Cache.thy ===== *)
theory Cache
  imports Inode Disk
begin

section \<open>What the buffer cache guarantees\<close>

text \<open>
  The ring of all the buffers and the chains of the hash table, as lists of addresses, and what each
  routine of \<^verbatim>\<open>fs/buffer.c\<close> does to them.
\<close>

subsection \<open>Rings\<close>

text \<open>The nodes \<open>xs\<close> lie between \<open>a\<close> and \<open>b\<close>, in both directions.\<close>

fun links :: "('a \<Rightarrow> 'a) \<Rightarrow> ('a \<Rightarrow> 'a) \<Rightarrow> 'a \<Rightarrow> 'a list \<Rightarrow> 'a \<Rightarrow> bool" where
  "links nxt prv a [] b \<longleftrightarrow> nxt a = b \<and> prv b = a"
| "links nxt prv a (x # xs) b \<longleftrightarrow> nxt a = x \<and> prv x = a \<and> links nxt prv x xs b"

fun ring :: "('a \<Rightarrow> 'a) \<Rightarrow> ('a \<Rightarrow> 'a) \<Rightarrow> 'a list \<Rightarrow> bool" where
  "ring nxt prv [] \<longleftrightarrow> False"
| "ring nxt prv (x # xs) \<longleftrightarrow> links nxt prv x xs x"

lemma links_append: "links nxt prv a (xs @ y # ys) b \<longleftrightarrow> links nxt prv a xs y \<and> links nxt prv y ys b"
  by (induction xs arbitrary: a) auto

lemma ring_rotate: "ys \<noteq> [] \<Longrightarrow> ring nxt prv (xs @ ys) \<longleftrightarrow> ring nxt prv (ys @ xs)"
  by (cases xs; cases ys) (auto simp: links_append)

lemma links_cong:
  "\<forall>x \<in> insert a (set xs). nxt x = nxt' x \<Longrightarrow> \<forall>x \<in> insert b (set xs). prv x = prv' x \<Longrightarrow>
   links nxt prv a xs b = links nxt' prv' a xs b"
  by (induction xs arbitrary: a) auto

lemma links_ends: "links nxt prv a xs b \<Longrightarrow> prv b \<in> insert a (set xs) \<and> nxt a \<in> insert b (set xs)"
  by (induction xs arbitrary: a) auto

lemma links_unlink:
  assumes "\<And>x. nxt' x = (if x = prv y then nxt y else nxt x)" and "\<And>x. prv' x = (if x = nxt y then prv y else prv x)"
  shows "links nxt prv a (xs @ y # ys) b \<Longrightarrow> distinct (a # xs @ y # ys) \<Longrightarrow> b \<notin> set (xs @ y # ys) \<Longrightarrow>
    links nxt' prv' a (xs @ ys) b"
proof (induction xs arbitrary: a)
  case Nil
  show ?case
  proof (cases ys)
    case (Cons z zs)
    have "links nxt' prv' z zs b = links nxt prv z zs b" using Nil.prems Cons assms(1) assms(2) by (intro links_cong ballI; metis insert_iff list.set_intros distinct.simps(2) append_Nil links.simps list.simps(15))
    moreover have "nxt' a = z" "prv' z = a" using Nil.prems Cons assms(1) [of a] assms(2) [of z] by auto
    ultimately show ?thesis using Nil.prems Cons by simp
  next
    case Nil
    then have "nxt' a = b" "prv' b = a" using Nil.prems assms(1) [of a] assms(2) [of b] by auto
    then show ?thesis using Nil by simp
  qed
next
  case (Cons x xs)
  have l: "links nxt prv x (xs @ y # ys) b" using Cons.prems by simp
  then have "links nxt prv x xs y" "links nxt prv y ys b" by (simp_all add: links_append)
  then have p: "prv y \<in> insert x (set xs)" "nxt y \<in> insert b (set ys)"
    using links_ends [of nxt prv x xs y] links_ends [of nxt prv y ys b] by simp_all
  have "links nxt' prv' x (xs @ ys) b" using Cons.prems by (intro Cons.IH [OF l]) auto
  moreover have "nxt' a = x" "prv' x = a" using Cons.prems p assms by auto
  ultimately show ?case by simp
qed

lemma ring_unlink:
  assumes "ring nxt prv (xs @ y # ys)" and "distinct (xs @ y # ys)" and "xs @ ys \<noteq> []"
    and u: "\<And>x. nxt' x = (if x = prv y then nxt y else nxt x)" "\<And>x. prv' x = (if x = nxt y then prv y else prv x)"
  shows "ring nxt' prv' (xs @ ys)"
proof (cases xs)
  case (Cons x xs')
  then show ?thesis using assms(1,2) links_unlink [OF u, of x xs' ys x] by simp
next
  case Nil
  then obtain z zs where z: "ys = z # zs" using assms(3) by (cases ys) auto
  have "ring nxt prv (ys @ [y])" using assms(1) ring_rotate [of ys nxt prv "[y]"] Nil z by simp
  then show ?thesis using links_unlink [OF u, of z zs "[]" z] assms(2) Nil z by auto
qed

text \<open>A new node before the first one of a ring.\<close>

lemma links_last:
  assumes "\<And>x. nxt' x = (if x = prv b then y else if x = y then b else nxt x)"
    and "\<And>x. prv' x = (if x = b then y else if x = y then prv b else prv x)"
  shows "links nxt prv a xs b \<Longrightarrow> y \<notin> insert a (insert b (set xs)) \<Longrightarrow> distinct (a # xs) \<Longrightarrow> b \<notin> set xs \<Longrightarrow>
    links nxt' prv' a (xs @ [y]) b"
proof (induction xs arbitrary: a)
  case (Cons x xs)
  then have l: "links nxt' prv' x (xs @ [y]) b" by simp
  have "prv b \<in> insert x (set xs)" using links_ends [of nxt prv x xs b] Cons.prems(1) by simp
  then have "nxt' a = x" "prv' x = a" using Cons.prems assms(1) [of a] assms(2) [of x] by auto
  with l show ?case by simp
next
  case Nil
  then show ?case using assms(1) [of a] assms(1) [of y] assms(2) [of y] assms(2) [of b] by auto
qed

lemma ring_insert:
  assumes "ring nxt prv (x # xs)" and "y \<notin> set (x # xs)" and "distinct (x # xs)"
    and u: "\<And>z. nxt' z = (if z = prv x then y else if z = y then x else nxt z)"
      "\<And>z. prv' z = (if z = x then y else if z = y then prv x else prv z)"
  shows "ring nxt' prv' (x # xs @ [y])"
  using assms(1-3) links_last [OF u, of x xs] by simp

subsection \<open>Chains\<close>

fun chain :: "(u32 \<Rightarrow> u32) \<Rightarrow> (u32 \<Rightarrow> u32) \<Rightarrow> u32 \<Rightarrow> u32 \<Rightarrow> u32 list \<Rightarrow> bool" where
  "chain nxt prv before p [] \<longleftrightarrow> p = 0"
| "chain nxt prv before p (x # xs) \<longleftrightarrow> p = x \<and> x \<noteq> 0 \<and> prv x = before \<and> chain nxt prv x (nxt x) xs"

lemma chain_cong:
  "\<forall>x \<in> set xs. nxt x = nxt' x \<and> prv x = prv' x \<Longrightarrow> chain nxt prv a p xs = chain nxt' prv' a p xs"
  by (induction xs arbitrary: a p) auto

lemma chain_not_null: "chain nxt prv a p xs \<Longrightarrow> 0 \<notin> set xs"
  by (induction xs arbitrary: a p) auto

lemma chain_first: "chain nxt prv a p xs \<Longrightarrow> p = (case xs of [] \<Rightarrow> 0 | x # _ \<Rightarrow> x)"
  by (cases xs) auto

lemma chain_new_prev:
  assumes "chain nxt prv a p xs" and "distinct xs" and "\<And>x. x \<noteq> 0 \<Longrightarrow> prv' x = (if x = p then b else prv x)"
    and "\<forall>x \<in> set xs. nxt' x = nxt x"
  shows "chain nxt' prv' b p xs"
proof (cases xs)
  case (Cons x ys)
  have px: "p = x" "x \<noteq> 0" "x \<notin> set ys" using assms(1,2) Cons by auto
  have "nxt' z = nxt z \<and> prv' z = prv z" if "z \<in> set ys" for z
    using assms(3) [of z] assms(4) that Cons px chain_not_null [OF assms(1)] by (cases "z = 0") auto
  then have "chain nxt' prv' x (nxt x) ys = chain nxt prv x (nxt x) ys" by (intro chain_cong) auto
  moreover have "nxt' x = nxt x" "prv' x = b" using assms(3) [of x] assms(4) Cons px by auto
  ultimately show ?thesis using assms(1) Cons by simp
qed (use assms in simp)

text \<open>Taking a node out of a chain: the first one, and one with a predecessor.\<close>

lemma chain_unlink:
  assumes "\<And>x. x \<noteq> 0 \<Longrightarrow> nxt' x = (if x = prv y then nxt y else nxt x)" and "\<And>x. x \<noteq> 0 \<Longrightarrow> prv' x = (if x = nxt y then prv y else prv x)"
  shows "chain nxt prv a p (xs @ w # y # ys) \<Longrightarrow> distinct (xs @ w # y # ys) \<Longrightarrow> chain nxt' prv' a p (xs @ w # ys)"
proof (induction xs arbitrary: a p)
  case Nil
  then have c: "chain nxt prv y (nxt y) ys" "prv y = w" "w \<noteq> 0" "p = w" "prv w = a" "nxt w = y" "0 \<notin> set ys"
    using chain_not_null [of nxt prv a p "w # y # ys"] by auto
  have "nxt' z = nxt z" if "z \<in> set ys" for z using assms(1) [of z] that c(2,7) Nil.prems(2) by (cases "z = 0") auto
  then have "chain nxt' prv' w (nxt y) ys"
    using assms(2) c(2) Nil.prems(2) by (intro chain_new_prev [OF c(1)]) auto
  moreover have "nxt' w = nxt y" "prv' w = a"
    using assms(1) [of w] assms(2) [of w] c Nil.prems(2) chain_first [OF c(1)] by (auto split: list.splits)
  ultimately show ?case using c by simp
next
  case (Cons x xs)
  then have c: "chain nxt prv x (nxt x) (xs @ w # y # ys)" "p = x" "x \<noteq> 0" "prv x = a" by auto
  have l: "prv y = w \<and> (nxt y = 0 \<or> nxt y \<in> set ys)" using c(1)
  proof (induction xs arbitrary: x)
    case Nil
    then show ?case by (cases ys) auto
  qed auto
  have "chain nxt' prv' x (nxt x) (xs @ w # ys)" using Cons.IH [OF c(1)] Cons.prems(2) by simp
  moreover have "nxt' x = nxt x" "prv' x = prv x" using assms(1) [of x] assms(2) [of x] c(3) l Cons.prems(2) by auto
  ultimately show ?case using c by simp
qed

lemma chain_remove:
  assumes "chain nxt prv 0 p xs" and "distinct xs" and "y \<in> set xs"
    and "\<And>x. x \<noteq> 0 \<Longrightarrow> nxt' x = (if x = prv y then nxt y else nxt x)" and "\<And>x. x \<noteq> 0 \<Longrightarrow> prv' x = (if x = nxt y then prv y else prv x)"
  shows "chain nxt' prv' 0 (if p = y then nxt y else p) (remove1 y xs)"
proof -
  obtain us vs where s: "xs = us @ y # vs" "y \<notin> set us" using assms(3) by (meson split_list_first)
  show ?thesis
  proof (cases us rule: rev_cases)
    case Nil
    with s assms have "chain nxt prv y (nxt y) vs" "p = y" "prv y = 0" "0 \<notin> set vs" "y \<noteq> 0"
      using chain_not_null [OF assms(1)] by auto
    note c = this
    have "nxt' z = nxt z" if "z \<in> set vs" for z using assms(4) [of z] that c(3,4) by (cases "z = 0") auto
    then have "chain nxt' prv' 0 (nxt y) vs"
      using assms(2,5) c(3) s Nil by (intro chain_new_prev [OF c(1)]) auto
    then show ?thesis using s Nil c(2) by simp
  next
    case (snoc ws w)
    then have "p \<noteq> y" using s assms(1) chain_first [OF assms(1)] by (cases ws) auto
    moreover have "chain nxt' prv' 0 p (ws @ w # vs)" using chain_unlink [OF assms(4,5), of 0 p ws w vs] assms(1,2) s snoc by simp
    ultimately show ?thesis using s snoc by (simp add: remove1_append)
  qed
qed

lemma chain_insert:
  assumes "chain nxt prv 0 p xs" and "distinct xs" and "y \<notin> set xs" and "y \<noteq> 0"
    and "\<And>x. x \<noteq> 0 \<Longrightarrow> nxt' x = (if x = y then p else nxt x)" and "\<And>x. x \<noteq> 0 \<Longrightarrow> prv' x = (if x = p then y else if x = y then 0 else prv x)"
  shows "chain nxt' prv' 0 y (y # xs)"
proof -
  have "p \<noteq> y" using chain_first [OF assms(1)] assms(3,4) by (auto split: list.splits)
  have "chain nxt' prv' y p xs"
  proof (rule chain_new_prev [of nxt "\<lambda>x. if x = y then 0 else prv x" 0])
    show "chain nxt (\<lambda>x. if x = y then 0 else prv x) 0 p xs"
      using assms(1,3) chain_cong [of xs nxt nxt prv "\<lambda>x. if x = y then 0 else prv x" 0 p] by auto
    show "\<forall>x \<in> set xs. nxt' x = nxt x" using assms(3,5) chain_not_null [OF assms(1)] by metis
    show "prv' x = (if x = p then y else if x = y then 0 else prv x)" if "x \<noteq> 0" for x using assms(6) that by simp
  qed (use assms(2) in simp)
  then show ?thesis using assms(4) assms(5) [of y] assms(6) [of y] \<open>p \<noteq> y\<close> by auto
qed

subsection \<open>The queue operations\<close>

text \<open>What a buffer head says about its block, without the links.\<close>

definition unlinked :: "buffer_head \<Rightarrow> buffer_head" where
  "unlinked b = b\<lparr>b_prev := 0, b_next := 0, b_prev_free := 0, b_next_free := 0\<rparr>"

lemma unlinked_eqD:
  assumes "unlinked b = unlinked c"
  shows "b_data b = b_data c" "b_block_nr b = b_block_nr c" "b_dev b = b_dev c" "b_uptodate b = b_uptodate c"
    "b_dirt b = b_dirt c" "b_count b = b_count c" "b_lock b = b_lock c" "hash_of b = hash_of c"
proof -
  show *: "b_data b = b_data c" "b_block_nr b = b_block_nr c" "b_dev b = b_dev c" "b_uptodate b = b_uptodate c"
    "b_dirt b = b_dirt c" "b_count b = b_count c" "b_lock b = b_lock c"
    using assms by (cases b; cases c; simp add: unlinked_def)+
  show "hash_of b = hash_of c" by (simp add: hash_of_def *)
qed

lemma unlinked_links:
  "unlinked (b\<lparr>b_prev := p\<rparr>) = unlinked b" "unlinked (b\<lparr>b_next := p\<rparr>) = unlinked b"
  "unlinked (b\<lparr>b_prev_free := p\<rparr>) = unlinked b" "unlinked (b\<lparr>b_next_free := p\<rparr>) = unlinked b"
  "unlinked (b\<lparr>b_next_free := q, b_prev_free := p\<rparr>) = unlinked b" "unlinked (b\<lparr>b_prev := p, b_next := q\<rparr>) = unlinked b"
  by (simp_all add: unlinked_def)

text \<open>The heads after a buffer has left its chain and the ring.\<close>

lemma removeFromQueues_result:
  assumes "b_next (BUF s x) \<noteq> x" and "b_prev (BUF s x) \<noteq> x" and "b_prev_free (BUF s x) \<noteq> 0" and "b_next_free (BUF s x) \<noteq> 0"
  shows "\<exists>B'. removeFromQueues pf x s = Inr (s\<lparr>BUF := B',
      BUFFER_HASH_TABLE := (if BUFFER_HASH_TABLE s (hash_of (BUF s x)) = x
        then (BUFFER_HASH_TABLE s)(hash_of (BUF s x) := b_next (BUF s x)) else BUFFER_HASH_TABLE s),
      BUFFER_FREE_LIST := (if BUFFER_FREE_LIST s = x then b_next_free (BUF s x) else BUFFER_FREE_LIST s)\<rparr>) \<and>
    (\<forall>b. unlinked (B' b) = unlinked (BUF s b)) \<and>
    (\<forall>b. b \<noteq> 0 \<longrightarrow> b_next (B' b) = (if b = b_prev (BUF s x) then b_next (BUF s x) else b_next (BUF s b))) \<and>
    (\<forall>b. b \<noteq> 0 \<longrightarrow> b_prev (B' b) = (if b = b_next (BUF s x) then b_prev (BUF s x) else b_prev (BUF s b))) \<and>
    (\<forall>b. b_next_free (B' b) = (if b = b_prev_free (BUF s x) then b_next_free (BUF s x) else b_next_free (BUF s b))) \<and>
    (\<forall>b. b_prev_free (B' b) = (if b = b_next_free (BUF s x) then b_prev_free (BUF s x) else b_prev_free (BUF s b)))"
proof -
  define B1 where "B1 = (if b_next (BUF s x) \<noteq> 0 then (BUF s)(b_next (BUF s x) := (BUF s (b_next (BUF s x)))\<lparr>b_prev := b_prev (BUF s x)\<rparr>) else BUF s)"
  define B2 where "B2 = (if b_prev (BUF s x) \<noteq> 0 then B1(b_prev (BUF s x) := (B1 (b_prev (BUF s x)))\<lparr>b_next := b_next (BUF s x)\<rparr>) else B1)"
  have x2: "B2 x = BUF s x" using assms(1,2) by (simp add: B1_def B2_def)
  define B3 where "B3 = B2(b_prev_free (BUF s x) := (B2 (b_prev_free (BUF s x)))\<lparr>b_next_free := b_next_free (BUF s x)\<rparr>)"
  have x3: "b_next_free (B3 x) = b_next_free (BUF s x)" "b_prev_free (B3 x) = b_prev_free (BUF s x)"
    using x2 by (simp_all add: B3_def)
  define B4 where "B4 = B3(b_next_free (BUF s x) := (B3 (b_next_free (BUF s x)))\<lparr>b_prev_free := b_prev_free (BUF s x)\<rparr>)"
  have x4: "b_next_free (B4 x) = b_next_free (BUF s x)" using x3 by (simp add: B4_def)
  define s1 where "s1 = s\<lparr>BUF := B2\<rparr>"
  have s1: "(let s = (if b_next (BUF s x) \<noteq> 0 then upd_buf (b_next (BUF s x)) (\<lambda>b. b\<lparr>b_prev := b_prev (BUF s x)\<rparr>) s else s)
    in if b_prev (BUF s x) \<noteq> 0 then upd_buf (b_prev (BUF s x)) (\<lambda>b. b\<lparr>b_next := b_next (BUF s x)\<rparr>) s else s) = s1"
    using assms(1,2) by (simp add: s1_def B1_def B2_def upd_buf_def Let_def)
  have "removeFromQueues pf x s = Inr (s\<lparr>BUF := B4,
      BUFFER_HASH_TABLE := (if BUFFER_HASH_TABLE s (hash_of (BUF s x)) = x
        then (BUFFER_HASH_TABLE s)(hash_of (BUF s x) := b_next (BUF s x)) else BUFFER_HASH_TABLE s),
      BUFFER_FREE_LIST := (if BUFFER_FREE_LIST s = x then b_next_free (BUF s x) else BUFFER_FREE_LIST s)\<rparr>)"
    unfolding removeFromQueues_def s1 [unfolded Let_def] Let_def
    using assms x2 x3 x4 by (simp add: s1_def upd_buf_def B3_def B4_def)
  moreover
  have p1: "unlinked (B1 b) = unlinked (BUF s b)" "b_next (B1 b) = b_next (BUF s b)"
    "b \<noteq> 0 \<Longrightarrow> b_prev (B1 b) = (if b = b_next (BUF s x) then b_prev (BUF s x) else b_prev (BUF s b))"
    "b_next_free (B1 b) = b_next_free (BUF s b)" "b_prev_free (B1 b) = b_prev_free (BUF s b)" for b
    by (simp_all add: B1_def unlinked_links)
  have p2: "unlinked (B2 b) = unlinked (B1 b)"
    "b \<noteq> 0 \<Longrightarrow> b_next (B2 b) = (if b = b_prev (BUF s x) then b_next (BUF s x) else b_next (B1 b))" "b_prev (B2 b) = b_prev (B1 b)"
    "b_next_free (B2 b) = b_next_free (B1 b)" "b_prev_free (B2 b) = b_prev_free (B1 b)" for b
    by (simp_all add: B2_def unlinked_links)
  have p3: "unlinked (B3 b) = unlinked (B2 b)" "b_next (B3 b) = b_next (B2 b)" "b_prev (B3 b) = b_prev (B2 b)"
    "b_next_free (B3 b) = (if b = b_prev_free (BUF s x) then b_next_free (BUF s x) else b_next_free (B2 b))"
    "b_prev_free (B3 b) = b_prev_free (B2 b)" for b
    by (simp_all add: B3_def unlinked_links)
  have p4: "unlinked (B4 b) = unlinked (B3 b)" "b_next (B4 b) = b_next (B3 b)" "b_prev (B4 b) = b_prev (B3 b)"
    "b_next_free (B4 b) = b_next_free (B3 b)"
    "b_prev_free (B4 b) = (if b = b_next_free (BUF s x) then b_prev_free (BUF s x) else b_prev_free (B3 b))" for b
    by (simp_all add: B4_def unlinked_links)
  have "\<forall>b. unlinked (B4 b) = unlinked (BUF s b)"
    "\<forall>b. b \<noteq> 0 \<longrightarrow> b_next (B4 b) = (if b = b_prev (BUF s x) then b_next (BUF s x) else b_next (BUF s b))"
    "\<forall>b. b \<noteq> 0 \<longrightarrow> b_prev (B4 b) = (if b = b_next (BUF s x) then b_prev (BUF s x) else b_prev (BUF s b))"
    "\<forall>b. b_next_free (B4 b) = (if b = b_prev_free (BUF s x) then b_next_free (BUF s x) else b_next_free (BUF s b))"
    "\<forall>b. b_prev_free (B4 b) = (if b = b_next_free (BUF s x) then b_prev_free (BUF s x) else b_prev_free (BUF s b))"
    by (simp_all add: p1 p2 p3 p4)
  ultimately show ?thesis by (intro exI [of _ B4] conjI) assumption+
qed

lemma ram_chain_update: "ram (s\<lparr>BUF := B, BUFFER_HASH_TABLE := H\<rparr>) = ram s"
  by simp

text \<open>The heads after a buffer that is not in the ring, and belongs to a device, has been put at its end.\<close>

lemma insertIntoQueues_result:
  assumes "b_dev (BUF s x) \<noteq> 0" and "BUFFER_FREE_LIST s \<noteq> x" and "b_prev_free (BUF s (BUFFER_FREE_LIST s)) \<noteq> x"
    and "BUFFER_HASH_TABLE s (hash_of (BUF s x)) \<noteq> x"
  shows "\<exists>B'. insertIntoQueues x s = s\<lparr>BUF := B',
      BUFFER_HASH_TABLE := (BUFFER_HASH_TABLE s)(hash_of (BUF s x) := x),
      ram := (if BUFFER_HASH_TABLE s (hash_of (BUF s x)) = 0 then (ram s)(20 := x) else ram s)\<rparr> \<and>
    (\<forall>b. unlinked (B' b) = unlinked (BUF s b)) \<and>
    (\<forall>b. b_next (B' b) = (if b = x then BUFFER_HASH_TABLE s (hash_of (BUF s x)) else b_next (BUF s b))) \<and>
    (\<forall>b. b \<noteq> 0 \<longrightarrow> b_prev (B' b) = (if b = BUFFER_HASH_TABLE s (hash_of (BUF s x)) then x else if b = x then 0 else b_prev (BUF s b))) \<and>
    (\<forall>b. b_next_free (B' b) = (if b = b_prev_free (BUF s (BUFFER_FREE_LIST s)) then x else if b = x then BUFFER_FREE_LIST s else b_next_free (BUF s b))) \<and>
    (\<forall>b. b_prev_free (B' b) = (if b = BUFFER_FREE_LIST s then x else if b = x then b_prev_free (BUF s (BUFFER_FREE_LIST s)) else b_prev_free (BUF s b)))"
proof -
  let ?f = "BUFFER_FREE_LIST s" and ?h = "BUFFER_HASH_TABLE s (hash_of (BUF s x))"
  define B1 where "B1 = (BUF s)(x := (BUF s x)\<lparr>b_next_free := ?f, b_prev_free := b_prev_free (BUF s ?f)\<rparr>)"
  define B2 where "B2 = B1(b_prev_free (BUF s ?f) := (B1 (b_prev_free (BUF s ?f)))\<lparr>b_next_free := x\<rparr>)"
  define B3 where "B3 = B2(?f := (B2 ?f)\<lparr>b_prev_free := x\<rparr>)"
  define B4 where "B4 = B3(x := (B3 x)\<lparr>b_prev := 0, b_next := ?h\<rparr>)"
  define B5 where "B5 = (if ?h = 0 then B4 else B4(?h := (B4 ?h)\<lparr>b_prev := x\<rparr>))"
  have h: "hash_of (B3 x\<lparr>b_prev := 0, b_next := 0\<rparr>) = hash_of (BUF s x)" "b_dev (B3 x) = b_dev (BUF s x)"
    using assms by (simp_all add: B1_def B2_def B3_def hash_of_def)
  have "insertIntoQueues x s = s\<lparr>BUF := B5, BUFFER_HASH_TABLE := (BUFFER_HASH_TABLE s)(hash_of (BUF s x) := x),
      ram := (if ?h = 0 then (ram s)(20 := x) else ram s)\<rparr>"
  proof -
    define s4 where "s4 = s\<lparr>BUF := B3(x := (B3 x)\<lparr>b_prev := 0, b_next := 0\<rparr>)\<rparr>"
    have s4: "(let s = upd_buf x (\<lambda>b. b\<lparr>b_next_free := BUFFER_FREE_LIST s\<rparr>) s;
          s = upd_buf x (\<lambda>b. b\<lparr>b_prev_free := b_prev_free (BUF s (BUFFER_FREE_LIST s))\<rparr>) s;
          s = upd_buf (b_prev_free (BUF s (BUFFER_FREE_LIST s))) (\<lambda>b. b\<lparr>b_next_free := x\<rparr>) s;
          s = upd_buf (BUFFER_FREE_LIST s) (\<lambda>b. b\<lparr>b_prev_free := x\<rparr>) s
        in upd_buf x (\<lambda>b. b\<lparr>b_prev := 0, b_next := 0\<rparr>) s) = s4"
      using assms(2,3) by (simp add: s4_def upd_buf_def Let_def B1_def B2_def B3_def)
    define u where "u = upd_buf x (\<lambda>b. b\<lparr>b_next := BUFFER_HASH_TABLE s4 (hash_of (BUF s4 x))\<rparr>) s4"
    define t where "t = u\<lparr>BUFFER_HASH_TABLE := (BUFFER_HASH_TABLE u)(hash_of (BUF s4 x) := x)\<rparr>"
    have f: "b_dev (BUF s4 x) \<noteq> 0" "hash_of (BUF s4 x) = hash_of (BUF s x)" using assms(1) h by (simp_all add: s4_def)
    have t: "t = s\<lparr>BUF := B4, BUFFER_HASH_TABLE := (BUFFER_HASH_TABLE s)(hash_of (BUF s x) := x)\<rparr>"
      unfolding t_def u_def f(2) by (simp add: s4_def upd_buf_def B4_def)
    have "insertIntoQueues x s = (if b_next (BUF t x) = 0 then poke 20 x t else upd_buf (b_next (BUF t x)) (\<lambda>b. b\<lparr>b_prev := x\<rparr>) t)"
      unfolding insertIntoQueues_def Let_def s4 [unfolded Let_def] if_not_P [OF f(1)] t_def u_def ..
    moreover have "b_next (BUF t x) = ?h" by (simp add: t B4_def)
    ultimately have i: "insertIntoQueues x s = (if ?h = 0 then poke 20 x t else upd_buf ?h (\<lambda>b. b\<lparr>b_prev := x\<rparr>) t)" by simp
    show ?thesis
    proof (cases "?h = 0")
      case True
      have r: "ram t = ram s" unfolding t by (rule ram_chain_update)
      show ?thesis unfolding i B5_def if_P [OF True] poke_def r unfolding t ..
    next
      case False
      then show ?thesis unfolding i B5_def if_not_P [OF False] by (simp add: t upd_buf_def)
    qed
  qed
  moreover
  have p1: "unlinked (B1 b) = unlinked (BUF s b)" "b_next (B1 b) = b_next (BUF s b)" "b_prev (B1 b) = b_prev (BUF s b)"
    "b_next_free (B1 b) = (if b = x then ?f else b_next_free (BUF s b))"
    "b_prev_free (B1 b) = (if b = x then b_prev_free (BUF s ?f) else b_prev_free (BUF s b))" for b
    by (simp_all add: B1_def unlinked_links)
  have p2: "unlinked (B2 b) = unlinked (B1 b)" "b_next (B2 b) = b_next (B1 b)" "b_prev (B2 b) = b_prev (B1 b)"
    "b_next_free (B2 b) = (if b = b_prev_free (BUF s ?f) then x else b_next_free (B1 b))"
    "b_prev_free (B2 b) = b_prev_free (B1 b)" for b
    by (simp_all add: B2_def unlinked_links)
  have p3: "unlinked (B3 b) = unlinked (B2 b)" "b_next (B3 b) = b_next (B2 b)" "b_prev (B3 b) = b_prev (B2 b)"
    "b_next_free (B3 b) = b_next_free (B2 b)" "b_prev_free (B3 b) = (if b = ?f then x else b_prev_free (B2 b))" for b
    by (simp_all add: B3_def unlinked_links)
  have p4: "unlinked (B4 b) = unlinked (B3 b)" "b_next (B4 b) = (if b = x then ?h else b_next (B3 b))"
    "b_prev (B4 b) = (if b = x then 0 else b_prev (B3 b))" "b_next_free (B4 b) = b_next_free (B3 b)"
    "b_prev_free (B4 b) = b_prev_free (B3 b)" for b
    by (simp_all add: B4_def unlinked_links)
  have p5: "unlinked (B5 b) = unlinked (B4 b)" "b_next (B5 b) = b_next (B4 b)"
    "b \<noteq> 0 \<Longrightarrow> b_prev (B5 b) = (if b = ?h then x else b_prev (B4 b))" "b_next_free (B5 b) = b_next_free (B4 b)"
    "b_prev_free (B5 b) = b_prev_free (B4 b)" for b
    by (simp_all add: B5_def unlinked_links)
  have "\<forall>b. unlinked (B5 b) = unlinked (BUF s b)" by (simp only: p1 p2 p3 p4 p5 simp_thms)
  moreover have "\<forall>b. b_next (B5 b) = (if b = x then ?h else b_next (BUF s b))" by (simp only: p1 p2 p3 p4 p5 simp_thms)
  moreover have "\<forall>b. b \<noteq> 0 \<longrightarrow> b_prev (B5 b) = (if b = ?h then x else if b = x then 0 else b_prev (BUF s b))"
    by (simp add: p5(3) p4(3) p3(3) p2(3) p1(3))
  moreover have "\<forall>b. b_next_free (B5 b) = (if b = b_prev_free (BUF s ?f) then x else if b = x then ?f else b_next_free (BUF s b))"
    by (simp only: p1 p2 p3 p4 p5 simp_thms)
  moreover have "\<forall>b. b_prev_free (B5 b) = (if b = ?f then x else if b = x then b_prev_free (BUF s ?f) else b_prev_free (BUF s b))"
    by (simp only: p1 p2 p3 p4 p5 simp_thms)
  ultimately show ?thesis by (intro exI [of _ B5] conjI) assumption+
qed

subsection \<open>The invariant of the cache\<close>

text \<open>
  The ring \<open>rg\<close> holds all the buffers; each chain holds the buffers of the ring that belong to a device and
  have its hash value; no two buffers hold the same block of a device.
\<close>

definition in_chain :: "(u32 \<Rightarrow> buffer_head) \<Rightarrow> u32 list \<Rightarrow> nat \<Rightarrow> u32 set" where
  "in_chain B rg k = {b \<in> set rg. b_dev (B b) \<noteq> 0 \<and> hash_of (B b) = k}"

definition ring_ok :: "'a fs_scheme \<Rightarrow> u32 list \<Rightarrow> bool" where
  "ring_ok s rg \<longleftrightarrow> distinct rg \<and> 0 \<notin> set rg \<and> BUFFER_FREE_LIST s = hd rg \<and>
     ring (\<lambda>b. b_next_free (BUF s b)) (\<lambda>b. b_prev_free (BUF s b)) rg"

definition chain_ok :: "'a fs_scheme \<Rightarrow> u32 list \<Rightarrow> nat \<Rightarrow> u32 list \<Rightarrow> bool" where
  "chain_ok s rg k xs \<longleftrightarrow> distinct xs \<and> set xs = in_chain (BUF s) rg k \<and>
     chain (\<lambda>b. b_next (BUF s b)) (\<lambda>b. b_prev (BUF s b)) 0 (BUFFER_HASH_TABLE s k) xs"

definition one_buffer_each :: "(u32 \<Rightarrow> buffer_head) \<Rightarrow> u32 list \<Rightarrow> bool" where
  "one_buffer_each B rg \<longleftrightarrow> (\<forall>b \<in> set rg. \<forall>c \<in> set rg.
     b_dev (B b) \<noteq> 0 \<and> b_dev (B b) = b_dev (B c) \<and> b_block_nr (B b) = b_block_nr (B c) \<longrightarrow> b = c)"

definition loose_ok :: "(u32 \<Rightarrow> buffer_head) \<Rightarrow> u32 list \<Rightarrow> bool" where
  "loose_ok B rg \<longleftrightarrow> (\<forall>b \<in> set rg. b_dev (B b) = 0 \<longrightarrow> b_prev (B b) = 0 \<and> b_next (B b) = 0)"

definition cache_inv :: "'a fs_scheme \<Rightarrow> u32 list \<Rightarrow> bool" where
  "cache_inv s rg \<longleftrightarrow> ring_ok s rg \<and> (\<forall>k < NR_HASH. \<exists>xs. chain_ok s rg k xs) \<and>
     one_buffer_each (BUF s) rg \<and> loose_ok (BUF s) rg"

lemma hash_of_bound: "hash_of b < NR_HASH" "HASHFN d n < NR_HASH"
  by (simp_all add: hash_of_def HASHFN_def)

lemma ring_nonempty: "ring nxt prv rg \<Longrightarrow> rg \<noteq> []"
  by (cases rg) auto

lemma ring_members:
  assumes "ring nxt prv rg" and "x \<in> set rg"
  shows "nxt x \<in> set rg \<and> prv x \<in> set rg"
proof -
  obtain us vs where s: "rg = us @ x # vs" using assms(2) by (meson split_list)
  then have "ring nxt prv ((x # vs) @ us)" using assms(1) ring_rotate [of "x # vs" nxt prv us] by simp
  then have "links nxt prv x (vs @ us) x" by simp
  then show ?thesis using links_ends [of nxt prv x "vs @ us" x] s by auto
qed

text \<open>Which buffer holds a block.\<close>

definition holder :: "(u32 \<Rightarrow> buffer_head) \<Rightarrow> u32 list \<Rightarrow> u16 \<Rightarrow> u32 \<Rightarrow> u32 option" where
  "holder B rg d n = find (\<lambda>b. b_dev (B b) = d \<and> b_block_nr (B b) = n) rg"

lemma holder_Some:
  assumes "one_buffer_each B rg" and "d \<noteq> 0"
  shows "holder B rg d n = Some b \<longleftrightarrow> b \<in> set rg \<and> b_dev (B b) = d \<and> b_block_nr (B b) = n"
proof
  assume "holder B rg d n = Some b"
  then show "b \<in> set rg \<and> b_dev (B b) = d \<and> b_block_nr (B b) = n" by (auto simp: holder_def find_Some_iff)
next
  assume b: "b \<in> set rg \<and> b_dev (B b) = d \<and> b_block_nr (B b) = n"
  then obtain c where "holder B rg d n = Some c"
    by (cases "holder B rg d n") (auto simp: holder_def find_None_iff)
  moreover from this have "c \<in> set rg \<and> b_dev (B c) = d \<and> b_block_nr (B c) = n" by (auto simp: holder_def find_Some_iff)
  ultimately show "holder B rg d n = Some b" using b assms unfolding one_buffer_each_def by metis
qed

lemma holder_None: "holder B rg d n = None \<longleftrightarrow> (\<forall>b \<in> set rg. \<not> (b_dev (B b) = d \<and> b_block_nr (B b) = n))"
  by (auto simp: holder_def find_None_iff)

text \<open>\<open>findBuffer\<close> finds the holder.\<close>

lemma find_chain_find:
  "chain (\<lambda>b. b_next (B b)) prv a p xs \<Longrightarrow> length xs < n \<Longrightarrow>
   find_chain n B dev block p = Inr (case find (\<lambda>b. ucast (b_dev (B b)) = dev \<and> b_block_nr (B b) = block) xs of
     None \<Rightarrow> 0 | Some b \<Rightarrow> b)"
proof (induction xs arbitrary: a p n)
  case Nil
  then show ?case by (cases n) auto
next
  case (Cons x xs)
  then show ?case by (cases n) auto
qed

lemma ucast_u16_eq [simp]: "(ucast (a :: u16) :: u32) = ucast b \<longleftrightarrow> a = b"
  by (metis unat_ucast_up_u16 word_unat_eq_iff)

lemma findBuffer_holder:
  assumes "cache_inv s rg" and "d \<noteq> 0" and "length rg < n"
  shows "findBuffer n (ucast d) block s = Inr (case holder (BUF s) rg d block of None \<Rightarrow> 0 | Some b \<Rightarrow> b)"
proof -
  let ?k = "HASHFN (ucast d) block" and ?B = "BUF s"
  obtain xs where x: "chain_ok s rg ?k xs" 
    using assms(1) hash_of_bound(2) [of "ucast d" block] unfolding cache_inv_def by blast
  have one: "one_buffer_each ?B rg" using assms(1) by (simp add: cache_inv_def)
  have set: "set xs = in_chain ?B rg ?k" using x by (simp add: chain_ok_def)
  have "length xs = card (set xs)" using x distinct_card [of xs] by (simp add: chain_ok_def)
  also have "\<dots> \<le> card (set rg)" unfolding set by (intro card_mono) (auto simp: in_chain_def)
  also have "\<dots> \<le> length rg" by (rule card_length)
  finally have f: "findBuffer n (ucast d) block s =
      Inr (case find (\<lambda>b. b_dev (?B b) = d \<and> b_block_nr (?B b) = block) xs of None \<Rightarrow> 0 | Some b \<Rightarrow> b)"
    using find_chain_find [of ?B "\<lambda>b. b_prev (?B b)" 0 "BUFFER_HASH_TABLE s ?k" xs n "ucast d" block] x assms(3)
    by (simp add: findBuffer_def chain_ok_def)
  have "find (\<lambda>b. b_dev (?B b) = d \<and> b_block_nr (?B b) = block) xs = holder ?B rg d block"
  proof (cases "holder ?B rg d block")
    case None
    moreover from this have "find (\<lambda>b. b_dev (?B b) = d \<and> b_block_nr (?B b) = block) xs = None"
      using set by (auto simp: holder_None find_None_iff in_chain_def)
    ultimately show ?thesis by simp
  next
    case (Some b)
    then have b: "b \<in> set rg" "b_dev (?B b) = d" "b_block_nr (?B b) = block" by (simp_all add: holder_Some [OF one assms(2)])
    then have "b \<in> set xs" using set assms(2) by (auto simp: in_chain_def hash_of_def)
    then obtain c where c: "find (\<lambda>b. b_dev (?B b) = d \<and> b_block_nr (?B b) = block) xs = Some c"
      using b by (cases "find (\<lambda>b. b_dev (?B b) = d \<and> b_block_nr (?B b) = block) xs") (auto simp: find_None_iff)
    then have "c \<in> set xs \<and> b_dev (?B c) = d \<and> b_block_nr (?B c) = block" by (auto simp: find_Some_iff)
    then have "holder ?B rg d block = Some c" using set by (auto simp: holder_Some [OF one assms(2)] in_chain_def)
    then show ?thesis using c by simp
  qed
  then show ?thesis using f by simp
qed

subsection \<open>The buffer given a new block\<close>

text \<open>The invariant does not depend on what a buffer says beyond its block and its links.\<close>

lemma chain_ok_cong:
  assumes "chain_ok s rg k xs" and "in_chain (BUF t) rg' k = in_chain (BUF s) rg k" and "BUFFER_HASH_TABLE t k = BUFFER_HASH_TABLE s k"
    and "\<forall>b \<in> set xs. b_next (BUF t b) = b_next (BUF s b) \<and> b_prev (BUF t b) = b_prev (BUF s b)"
  shows "chain_ok t rg' k xs"
  using assms chain_cong [of xs "\<lambda>b. b_next (BUF t b)" "\<lambda>b. b_next (BUF s b)" "\<lambda>b. b_prev (BUF t b)" "\<lambda>b. b_prev (BUF s b)"]
  by (simp add: chain_ok_def)

text \<open>A buffer of a chain has its neighbours there.\<close>

lemma chain_neighbours:
  assumes "chain nxt prv a p xs" and "x \<in> set xs" and "distinct xs" and "a \<notin> set xs"
  shows "nxt x \<noteq> x \<and> prv x \<noteq> x \<and> (nxt x = 0 \<or> nxt x \<in> set xs) \<and> (prv x = a \<or> prv x \<in> set xs)"
  using assms
proof (induction xs arbitrary: a p)
  case (Cons y ys)
  have c: "chain nxt prv y (nxt y) ys" using Cons.prems(1) by simp
  show ?case
  proof (cases "x = y")
    case True
    then show ?thesis using Cons.prems chain_first [OF c] by (auto split: list.splits)
  next
    case False
    then show ?thesis using Cons.IH [OF c] Cons.prems by auto
  qed
qed simp

lemma chain_no_first: "chain nxt prv a p xs \<Longrightarrow> y \<notin> set xs \<Longrightarrow> y \<noteq> 0 \<Longrightarrow> p \<noteq> y"
  by (cases xs) auto

lemma in_other_chain: "k \<noteq> j \<Longrightarrow> in_chain B rg k \<inter> in_chain B rg j = {}"
  by (auto simp: in_chain_def)

text \<open>The cache with the buffer \<open>x\<close> taken out of the ring and its chain.\<close>

definition cache_without :: "'a fs_scheme \<Rightarrow> u32 list \<Rightarrow> u32 \<Rightarrow> bool" where
  "cache_without s rg x \<longleftrightarrow> ring_ok s (remove1 x rg) \<and> loose_ok (BUF s) (remove1 x rg) \<and>
     (\<forall>k < NR_HASH. \<exists>xs. chain_ok s (remove1 x rg) k xs)"

lemma ring_ok_links:
  assumes "ring_ok s rg" and "x \<in> set rg"
  shows "b_next_free (BUF s x) \<in> set rg" "b_prev_free (BUF s x) \<in> set rg" "b_next_free (BUF s x) \<noteq> 0" "b_prev_free (BUF s x) \<noteq> 0"
proof -
  have "b_next_free (BUF s x) \<in> set rg \<and> b_prev_free (BUF s x) \<in> set rg" "0 \<notin> set rg"
    using assms ring_members [of "\<lambda>b. b_next_free (BUF s b)" "\<lambda>b. b_prev_free (BUF s b)" rg x] by (simp_all add: ring_ok_def)
  then show "b_next_free (BUF s x) \<in> set rg" "b_prev_free (BUF s x) \<in> set rg" "b_next_free (BUF s x) \<noteq> 0" "b_prev_free (BUF s x) \<noteq> 0"
    by auto
qed

lemma ring_next:
  assumes "ring nxt prv (x # y # xs)"
  shows "nxt x = y"
  using assms by simp

lemma ring_ok_remove:
  assumes "ring_ok s rg" and "x \<in> set rg" and "2 \<le> length rg"
    and nf: "\<And>b. b_next_free (BUF t b) = (if b = b_prev_free (BUF s x) then b_next_free (BUF s x) else b_next_free (BUF s b))"
    and pf: "\<And>b. b_prev_free (BUF t b) = (if b = b_next_free (BUF s x) then b_prev_free (BUF s x) else b_prev_free (BUF s b))"
    and fl: "BUFFER_FREE_LIST t = (if BUFFER_FREE_LIST s = x then b_next_free (BUF s x) else BUFFER_FREE_LIST s)"
  shows "ring_ok t (remove1 x rg)"
proof -
  obtain us vs where s: "rg = us @ x # vs" "x \<notin> set us" using assms(2) by (meson split_list_first)
  have r: "ring (\<lambda>b. b_next_free (BUF s b)) (\<lambda>b. b_prev_free (BUF s b)) rg" and d: "distinct rg" "0 \<notin> set rg"
    and h: "BUFFER_FREE_LIST s = hd rg" using assms(1) by (simp_all add: ring_ok_def)
  have e: "remove1 x rg = us @ vs" using s by (simp add: remove1_append)
  have ne: "us @ vs \<noteq> []" using assms(3) s by auto
  have "ring (\<lambda>b. b_next_free (BUF t b)) (\<lambda>b. b_prev_free (BUF t b)) (us @ vs)"
    by (rule ring_unlink [OF r [unfolded s] _ ne nf pf]) (use d s in simp)
  moreover have "BUFFER_FREE_LIST t = hd (us @ vs)"
  proof (cases us)
    case Nil
    then obtain v ws where v: "vs = v # ws" using ne by (cases vs) auto
    then show ?thesis using Nil fl h s ring_next [of _ _ x v ws] r by simp
  next
    case (Cons u ws)
    then show ?thesis using fl h s by auto
  qed
  ultimately show ?thesis using d s e by (auto simp: ring_ok_def)
qed

lemma in_chain_remove: "distinct rg \<Longrightarrow> in_chain B (remove1 x rg) k = in_chain B rg k - {x}"
  by (auto simp: in_chain_def)

lemma removeFromQueues_cache:
  assumes inv: "cache_inv s rg" and x: "x \<in> set rg" and len: "2 \<le> length rg"
  shows "\<exists>B' H f. removeFromQueues pf x s = Inr (s\<lparr>BUF := B', BUFFER_HASH_TABLE := H, BUFFER_FREE_LIST := f\<rparr>) \<and>
    cache_without (s\<lparr>BUF := B', BUFFER_HASH_TABLE := H, BUFFER_FREE_LIST := f\<rparr>) rg x \<and>
    (\<forall>b. unlinked (B' b) = unlinked (BUF s b))"
proof -
  let ?B = "BUF s" and ?nx = "\<lambda>b. b_next (BUF s b)" and ?pv = "\<lambda>b. b_prev (BUF s b)" and ?kx = "hash_of (BUF s x)"
  have ro: "ring_ok s rg" and lo: "loose_ok ?B rg" and ch: "\<And>k. k < 307 \<Longrightarrow> \<exists>xs. chain_ok s rg k xs"
    and d: "distinct rg" and x0: "x \<noteq> 0" using inv x by (auto simp: cache_inv_def ring_ok_def)
  note lk = ring_ok_links [OF ro x]
  have nb: "?nx x \<noteq> x \<and> ?pv x \<noteq> x \<and> (\<forall>k < 307. k \<noteq> ?kx \<or> b_dev (?B x) = 0 \<longrightarrow> ?nx x \<notin> in_chain ?B rg k \<and> ?pv x \<notin> in_chain ?B rg k) \<and>
      (?nx x = 0 \<or> b_dev (?B (?nx x)) \<noteq> 0) \<and> (?pv x = 0 \<or> b_dev (?B (?pv x)) \<noteq> 0)"
  proof (cases "b_dev (?B x) = 0")
    case True
    then have "?nx x = 0" "?pv x = 0" using lo x by (simp_all add: loose_ok_def)
    moreover have "0 \<notin> in_chain ?B rg k" for k using ro by (auto simp: in_chain_def ring_ok_def)
    ultimately show ?thesis using x0 by simp
  next
    case False
    obtain xs where xs: "chain_ok s rg ?kx xs" using ch [of ?kx] hash_of_bound by blast
    then have m: "x \<in> set xs" and set: "set xs = in_chain ?B rg ?kx" using x False by (auto simp: chain_ok_def in_chain_def)
    have z: "0 \<notin> in_chain ?B rg k" for k using ro by (auto simp: in_chain_def ring_ok_def)
    then have c: "?nx x \<noteq> x" "?pv x \<noteq> x" "?nx x = 0 \<or> ?nx x \<in> in_chain ?B rg ?kx" "?pv x = 0 \<or> ?pv x \<in> in_chain ?B rg ?kx"
      using chain_neighbours [of ?nx ?pv 0 "BUFFER_HASH_TABLE s ?kx" xs x] xs m z [of ?kx] unfolding set [symmetric] chain_ok_def
      by blast+
    have "p \<notin> in_chain ?B rg k" if "p = 0 \<or> p \<in> in_chain ?B rg ?kx" "k \<noteq> ?kx" for p k
      using that z [of k] by (auto simp: in_chain_def)
    moreover have "p = 0 \<or> b_dev (?B p) \<noteq> 0" if "p = 0 \<or> p \<in> in_chain ?B rg ?kx" for p
      using that by (auto simp: in_chain_def)
    ultimately show ?thesis using c False by metis
  qed
  obtain B' where B': "removeFromQueues pf x s = Inr (s\<lparr>BUF := B',
      BUFFER_HASH_TABLE := (if BUFFER_HASH_TABLE s ?kx = x then (BUFFER_HASH_TABLE s)(?kx := ?nx x) else BUFFER_HASH_TABLE s),
      BUFFER_FREE_LIST := (if BUFFER_FREE_LIST s = x then b_next_free (?B x) else BUFFER_FREE_LIST s)\<rparr>)"
    (is "_ = Inr ?t")
    and un: "\<And>b. unlinked (B' b) = unlinked (?B b)"
    and nx: "\<And>b. b \<noteq> 0 \<Longrightarrow> b_next (B' b) = (if b = ?pv x then ?nx x else ?nx b)"
    and pv: "\<And>b. b \<noteq> 0 \<Longrightarrow> b_prev (B' b) = (if b = ?nx x then ?pv x else ?pv b)"
    and nf: "\<And>b. b_next_free (B' b) = (if b = b_prev_free (?B x) then b_next_free (?B x) else b_next_free (?B b))"
    and pf: "\<And>b. b_prev_free (B' b) = (if b = b_next_free (?B x) then b_prev_free (?B x) else b_prev_free (?B b))"
    using removeFromQueues_result [of s x pf, OF _ _ lk(4,3)] nb by (elim exE conjE) blast
  note same = unlinked_eqD [OF un]
  have ic: "in_chain B' (remove1 x rg) k = in_chain ?B rg k - {x}" for k
    using in_chain_remove [OF d, of B' x k] by (simp add: in_chain_def same)
  have "ring_ok ?t (remove1 x rg)" by (rule ring_ok_remove [OF ro x len]) (simp_all add: nf pf)
  moreover have "\<exists>xs. chain_ok ?t (remove1 x rg) k xs" if k: "k < 307" for k
  proof -
    obtain xs where xs: "chain ?nx ?pv 0 (BUFFER_HASH_TABLE s k) xs" "distinct xs" "set xs = in_chain ?B rg k"
      using ch [OF k] by (auto simp: chain_ok_def)
    show ?thesis
    proof (cases "k = ?kx \<and> b_dev (?B x) \<noteq> 0")
      case True
      then have "x \<in> set xs" using xs(3) x by (simp add: in_chain_def)
      from chain_remove [OF xs(1,2) this nx pv]
      have "chain (\<lambda>b. b_next (B' b)) (\<lambda>b. b_prev (B' b)) 0 (BUFFER_HASH_TABLE ?t k) (remove1 x xs)"
        using True by (simp split: if_splits)
      then show ?thesis using xs(2,3) ic [of k] by (intro exI [of _ "remove1 x xs"]) (simp add: chain_ok_def)
    next
      case False
      then have o: "?nx x \<notin> set xs" "?pv x \<notin> set xs" "x \<notin> set xs" using nb k xs(3) by (auto simp: in_chain_def)
      have "b_next (B' b) = ?nx b \<and> b_prev (B' b) = ?pv b" if "b \<in> set xs" for b
        using nx [of b] pv [of b] o that chain_not_null [OF xs(1)] by (cases "b = 0") auto
      then have "chain (\<lambda>b. b_next (B' b)) (\<lambda>b. b_prev (B' b)) 0 (BUFFER_HASH_TABLE s k) xs"
        using xs(1) chain_cong [of xs "\<lambda>b. b_next (B' b)" ?nx "\<lambda>b. b_prev (B' b)" ?pv] by blast
      moreover have "BUFFER_HASH_TABLE ?t k = BUFFER_HASH_TABLE s k"
        using False chain_no_first [OF xs(1) o(3) x0] hash_of_bound(1) [of "?B x"] by auto
      ultimately show ?thesis using xs(2,3) ic [of k] o(3) by (intro exI [of _ xs]) (simp add: chain_ok_def)
    qed
  qed
  moreover have "loose_ok B' (remove1 x rg)"
  proof -
    have "b_prev (B' b) = 0 \<and> b_next (B' b) = 0" if b: "b \<in> set rg" "b \<noteq> x" "b_dev (B' b) = 0" for b
    proof -
      have d0: "b_dev (?B b) = 0" using b(3) by (simp add: same)
      then have l: "?pv b = 0" "?nx b = 0" using lo b(1) by (simp_all add: loose_ok_def)
      have "b \<noteq> 0" using ro b(1) by (auto simp: ring_ok_def)
      then have "b \<noteq> ?nx x" "b \<noteq> ?pv x" using nb d0 by auto
      with \<open>b \<noteq> 0\<close> show ?thesis using nx [of b] pv [of b] l by simp
    qed
    then show ?thesis using d by (simp add: loose_ok_def)
  qed
  ultimately have "cache_without ?t rg x" by (simp add: cache_without_def)
  with B' un show ?thesis by blast
qed

text \<open>Putting it back as the buffer of another block, at the end of the ring.\<close>

lemma ring_ok_insert:
  assumes "ring_ok s rg" and "x \<notin> set rg" and "x \<noteq> 0"
    and nf: "\<And>b. b_next_free (BUF t b) = (if b = b_prev_free (BUF s (BUFFER_FREE_LIST s)) then x else if b = x then BUFFER_FREE_LIST s else b_next_free (BUF s b))"
    and pf: "\<And>b. b_prev_free (BUF t b) = (if b = BUFFER_FREE_LIST s then x else if b = x then b_prev_free (BUF s (BUFFER_FREE_LIST s)) else b_prev_free (BUF s b))"
    and "BUFFER_FREE_LIST t = BUFFER_FREE_LIST s"
  shows "ring_ok t (rg @ [x])"
proof -
  obtain y ys where y: "rg = y # ys" using assms(1) ring_nonempty by (cases rg) (auto simp: ring_ok_def)
  with assms(1) have f: "BUFFER_FREE_LIST s = y" by (simp add: ring_ok_def)
  have "ring (\<lambda>b. b_next_free (BUF t b)) (\<lambda>b. b_prev_free (BUF t b)) (y # ys @ [x])"
    by (rule ring_insert [of "\<lambda>b. b_next_free (BUF s b)" "\<lambda>b. b_prev_free (BUF s b)"])
      (use assms y in \<open>simp_all add: ring_ok_def nf pf f\<close>)
  then show ?thesis using assms y f by (auto simp: ring_ok_def)
qed

lemma insertIntoQueues_cache:
  assumes w: "cache_without s rg x" and x: "x \<in> set rg" and d: "distinct rg" and x0: "x \<noteq> 0" and dv: "b_dev (BUF s x) \<noteq> 0"
    and one: "one_buffer_each (BUF s) rg"
  shows "\<exists>B' H. insertIntoQueues x s = s\<lparr>BUF := B', BUFFER_HASH_TABLE := H,
      ram := (if in_chain (BUF s) rg (hash_of (BUF s x)) = {x} then (ram s)(20 := x) else ram s)\<rparr> \<and>
    cache_inv (insertIntoQueues x s) (remove1 x rg @ [x]) \<and> (\<forall>b. unlinked (B' b) = unlinked (BUF s b))"
proof -
  let ?B = "BUF s" and ?rg = "remove1 x rg" and ?k = "hash_of (BUF s x)" and ?f = "BUFFER_FREE_LIST s"
  let ?h = "BUFFER_HASH_TABLE s ?k"
  have ro: "ring_ok s ?rg" and lo: "loose_ok ?B ?rg" and ch: "\<And>k. k < 307 \<Longrightarrow> \<exists>xs. chain_ok s ?rg k xs"
    using w by (auto simp: cache_without_def)
  have xr: "x \<notin> set ?rg" using d by simp
  have ne: "?rg \<noteq> []" using ro ring_nonempty by (auto simp: ring_ok_def)
  then have f: "?f \<in> set ?rg" using ro by (simp add: ring_ok_def)
  have fx: "?f \<noteq> x" "b_prev_free (?B ?f) \<noteq> x" using f xr ring_ok_links(2) [OF ro f] by auto
  have ic: "in_chain ?B ?rg k = in_chain ?B rg k - {x}" for k by (rule in_chain_remove [OF d])
  obtain hs where hs: "chain_ok s ?rg ?k hs" using ch [of ?k] hash_of_bound by blast
  have hx: "?h \<noteq> x" using chain_no_first [of _ _ 0 ?h hs x] hs x0 xr by (auto simp: chain_ok_def in_chain_def)
  have h0: "?h = 0 \<longleftrightarrow> in_chain ?B rg ?k = {x}"
  proof -
    have "?h = 0 \<longleftrightarrow> hs = []" using hs chain_first [of _ _ 0 ?h hs] chain_not_null [of _ _ 0 ?h hs]
      by (cases hs) (auto simp: chain_ok_def)
    also have "\<dots> \<longleftrightarrow> in_chain ?B rg ?k - {x} = {}"
      using hs unfolding chain_ok_def ic by (metis set_empty)
    also have "\<dots> \<longleftrightarrow> in_chain ?B rg ?k = {x}"
    proof -
      have "x \<in> in_chain ?B rg ?k" using x dv by (simp add: in_chain_def)
      then show ?thesis by blast
    qed
    finally show ?thesis .
  qed
  obtain B' where i: "insertIntoQueues x s = s\<lparr>BUF := B', BUFFER_HASH_TABLE := (BUFFER_HASH_TABLE s)(?k := x),
      ram := (if ?h = 0 then (ram s)(20 := x) else ram s)\<rparr>" (is "_ = ?t")
    and un: "\<And>b. unlinked (B' b) = unlinked (?B b)"
    and nx: "\<And>b. b_next (B' b) = (if b = x then ?h else b_next (?B b))"
    and pv: "\<And>b. b \<noteq> 0 \<Longrightarrow> b_prev (B' b) = (if b = ?h then x else if b = x then 0 else b_prev (?B b))"
    and nf: "\<And>b. b_next_free (B' b) = (if b = b_prev_free (?B ?f) then x else if b = x then ?f else b_next_free (?B b))"
    and pf: "\<And>b. b_prev_free (B' b) = (if b = ?f then x else if b = x then b_prev_free (?B ?f) else b_prev_free (?B b))"
    using insertIntoQueues_result [OF dv fx hx] by (elim exE conjE) blast
  note same = unlinked_eqD [OF un]
  have BF: "BUF ?t = B'" "BUFFER_FREE_LIST ?t = ?f" "BUFFER_HASH_TABLE ?t = (BUFFER_HASH_TABLE s)(?k := x)" by simp_all
  have st: "set (?rg @ [x]) = set rg" using x d by auto
  have "ring_ok ?t (?rg @ [x])" by (rule ring_ok_insert [OF ro xr x0]) (simp_all only: BF nf pf)
  moreover have "\<exists>xs. chain_ok ?t (?rg @ [x]) k xs" if k: "k < 307" for k
  proof -
    have ic': "in_chain B' (?rg @ [x]) k = in_chain ?B rg k" using st by (simp add: in_chain_def same)
    obtain xs where xs: "chain (\<lambda>b. b_next (?B b)) (\<lambda>b. b_prev (?B b)) 0 (BUFFER_HASH_TABLE s k) xs" "distinct xs"
      "set xs = in_chain ?B rg k - {x}" using ch [OF k] ic [of k] by (auto simp: chain_ok_def)
    have xx: "x \<notin> set xs" using xs(3) by simp
    show ?thesis
    proof (cases "k = ?k")
      case True
      have "chain (\<lambda>b. b_next (B' b)) (\<lambda>b. b_prev (B' b)) 0 x (x # xs)"
        by (rule chain_insert [OF xs(1,2) xx x0]) (use nx pv True in simp_all)
      moreover have "x \<in> in_chain ?B rg k" using True x dv by (simp add: in_chain_def)
      ultimately show ?thesis unfolding chain_ok_def BF ic' using True xs(2,3) xx
        by (intro exI [of _ "x # xs"]) auto
    next
      case False
      have "?h \<notin> set xs"
      proof
        assume a: "?h \<in> set xs"
        then have "?h \<noteq> 0" using chain_not_null [OF xs(1)] by auto
        then have "?h \<in> set hs" using hs chain_first [of _ _ 0 ?h hs] by (cases hs) (auto simp: chain_ok_def)
        then show False using a xs(3) hs ic [of ?k] in_other_chain [OF False, of ?B rg] by (auto simp: chain_ok_def)
      qed
      then have "b_next (B' b) = b_next (?B b) \<and> b_prev (B' b) = b_prev (?B b)" if "b \<in> set xs" for b
        using nx [of b] pv [of b] that xx chain_not_null [OF xs(1)] by (cases "b = 0") auto
      then have "chain (\<lambda>b. b_next (B' b)) (\<lambda>b. b_prev (B' b)) 0 (BUFFER_HASH_TABLE s k) xs"
        using xs(1) chain_cong [of xs "\<lambda>b. b_next (B' b)" "\<lambda>b. b_next (?B b)" "\<lambda>b. b_prev (B' b)" "\<lambda>b. b_prev (?B b)"] by blast
      moreover have "x \<notin> in_chain ?B rg k" using False by (simp add: in_chain_def)
      ultimately show ?thesis unfolding chain_ok_def BF ic' using False xs(2,3) by (intro exI [of _ xs]) simp
    qed
  qed
  moreover have "one_buffer_each B' (?rg @ [x])" using one unfolding one_buffer_each_def same st .
  moreover have "loose_ok B' (?rg @ [x])"
  proof -
    have "b_prev (B' b) = 0 \<and> b_next (B' b) = 0" if b: "b \<in> set ?rg" "b_dev (?B b) = 0" for b
    proof -
      have "b \<noteq> 0" "b \<noteq> x" using ro b xr by (auto simp: ring_ok_def)
      moreover have "b \<noteq> ?h" if "?h \<noteq> 0"
        using that hs chain_first [of _ _ 0 ?h hs] b by (cases hs) (auto simp: chain_ok_def in_chain_def)
      ultimately show ?thesis using nx [of b] pv [of b] lo b by (auto simp: loose_ok_def)
    qed
    then show ?thesis using dv by (simp add: loose_ok_def same)
  qed
  ultimately have "cache_inv ?t (?rg @ [x])" by (simp add: cache_inv_def)
  then have "cache_inv (insertIntoQueues x s) (?rg @ [x])" unfolding i .
  with i [unfolded h0] un show ?thesis by blast
qed

text \<open>Heads that agree on their links and their block.\<close>

definition same_place :: "(u32 \<Rightarrow> buffer_head) \<Rightarrow> (u32 \<Rightarrow> buffer_head) \<Rightarrow> u32 set \<Rightarrow> bool" where
  "same_place B C S \<longleftrightarrow> (\<forall>b \<in> S. b_next (C b) = b_next (B b) \<and> b_prev (C b) = b_prev (B b) \<and>
     b_next_free (C b) = b_next_free (B b) \<and> b_prev_free (C b) = b_prev_free (B b) \<and>
     b_dev (C b) = b_dev (B b) \<and> b_block_nr (C b) = b_block_nr (B b))"

lemma same_place_hash: "same_place B C S \<Longrightarrow> b \<in> S \<Longrightarrow> hash_of (C b) = hash_of (B b)"
  by (simp add: same_place_def hash_of_def)

lemma ring_ok_same:
  assumes "ring_ok s rg" and "same_place (BUF s) (BUF t) (set rg)" and "BUFFER_FREE_LIST t = BUFFER_FREE_LIST s"
  shows "ring_ok t rg"
proof -
  obtain y ys where y: "rg = y # ys" using assms(1) ring_nonempty by (cases rg) (auto simp: ring_ok_def)
  have "links (\<lambda>b. b_next_free (BUF t b)) (\<lambda>b. b_prev_free (BUF t b)) y ys y =
    links (\<lambda>b. b_next_free (BUF s b)) (\<lambda>b. b_prev_free (BUF s b)) y ys y"
    using assms(2) y by (intro links_cong) (auto simp: same_place_def)
  then show ?thesis using assms(1,3) y by (simp add: ring_ok_def)
qed

lemma in_chain_same: "same_place B C (set rg) \<Longrightarrow> in_chain C rg k = in_chain B rg k"
  using same_place_hash [of B C "set rg"] by (auto simp: in_chain_def same_place_def)

lemma chain_ok_same:
  assumes "chain_ok s rg k xs" and "same_place (BUF s) (BUF t) (set rg)" and "BUFFER_HASH_TABLE t k = BUFFER_HASH_TABLE s k"
  shows "chain_ok t rg k xs"
  using assms in_chain_same [OF assms(2), of k]
  by (intro chain_ok_cong [OF assms(1)]) (auto simp: chain_ok_def in_chain_def same_place_def)

lemma cache_inv_same:
  assumes "cache_inv s rg" and "same_place (BUF s) (BUF t) (set rg)" and "BUFFER_FREE_LIST t = BUFFER_FREE_LIST s"
    and "BUFFER_HASH_TABLE t = BUFFER_HASH_TABLE s"
  shows "cache_inv t rg"
  using assms ring_ok_same [OF _ assms(2,3)] chain_ok_same [OF _ assms(2)]
  unfolding cache_inv_def one_buffer_each_def loose_ok_def same_place_def by (metis (no_types, lifting))

lemma cache_without_same:
  assumes "cache_without s rg x" and "\<forall>b \<in> set (remove1 x rg). BUF t b = BUF s b" and "BUFFER_FREE_LIST t = BUFFER_FREE_LIST s"
    and "BUFFER_HASH_TABLE t = BUFFER_HASH_TABLE s"
  shows "cache_without t rg x"
proof -
  have "same_place (BUF s) (BUF t) (set (remove1 x rg))" using assms(2) by (simp add: same_place_def)
  then show ?thesis using assms ring_ok_same [OF _ _ assms(3)] chain_ok_same
    unfolding cache_without_def loose_ok_def by metis
qed

lemma ucast_u16_back [simp]: "(ucast (ucast (d :: u16) :: u32) :: u16) = d"
  by (rule bit_word_eqI) (simp add: bit_simps)

text \<open>The buffer \<open>x\<close> changes its block.\<close>

definition recycled :: "u16 \<Rightarrow> u32 \<Rightarrow> buffer_head \<Rightarrow> buffer_head" where
  "recycled d n b = b\<lparr>b_dev := d, b_block_nr := n, b_count := 1, b_dirt := 0, b_uptodate := 0\<rparr>"

lemma queue_fields:
  "s\<lparr>BUF := B0, BUFFER_HASH_TABLE := H0, BUFFER_FREE_LIST := f\<rparr>\<lparr>BUF := B, BUFFER_HASH_TABLE := H, ram := R\<rparr> =
   s\<lparr>BUF := B, BUFFER_HASH_TABLE := H, BUFFER_FREE_LIST := f, ram := R\<rparr>"
  by simp

lemma assign_buffer_cache:
  assumes inv: "cache_inv s rg" and x: "x \<in> set rg" and len: "2 \<le> length rg" and d: "d \<noteq> 0"
    and free: "holder (BUF s) rg d n = None"
  shows "\<exists>B H f R. assign_buffer pf x (ucast d) n s =
      Inr (s\<lparr>BUF := B, BUFFER_HASH_TABLE := H, BUFFER_FREE_LIST := f, ram := R\<rparr>) \<and>
    R = (if in_chain (BUF s) rg (HASHFN (ucast d) n) - {x} = {} then (ram s)(20 := x) else ram s) \<and>
    cache_inv (s\<lparr>BUF := B, BUFFER_HASH_TABLE := H, BUFFER_FREE_LIST := f, ram := R\<rparr>) (remove1 x rg @ [x]) \<and>
    (\<forall>b. unlinked (B b) = unlinked (if b = x then recycled d n (BUF s x) else BUF s b))"
proof -
  define s0 where "s0 = upd_buf x (\<lambda>b. b\<lparr>b_count := 1, b_dirt := 0, b_uptodate := 0\<rparr>) s"
  have dist: "distinct rg" and x0: "x \<noteq> 0" using inv x by (auto simp: cache_inv_def ring_ok_def)
  have "cache_inv s0 rg"
    by (rule cache_inv_same [OF inv]) (simp_all add: s0_def upd_buf_def same_place_def)
  from removeFromQueues_cache [OF this x len, of pf]
  obtain B1 H1 f where r: "removeFromQueues pf x s0 = Inr (s0\<lparr>BUF := B1, BUFFER_HASH_TABLE := H1, BUFFER_FREE_LIST := f\<rparr>)"
    and w: "cache_without (s0\<lparr>BUF := B1, BUFFER_HASH_TABLE := H1, BUFFER_FREE_LIST := f\<rparr>) rg x"
    and u1: "\<And>b. unlinked (B1 b) = unlinked (BUF s0 b)" by blast
  define s2 where "s2 = upd_buf x (\<lambda>b. b\<lparr>b_dev := d, b_block_nr := n\<rparr>)
    (s0\<lparr>BUF := B1, BUFFER_HASH_TABLE := H1, BUFFER_FREE_LIST := f\<rparr>)"
  have s2: "s2 = s\<lparr>BUF := B1(x := (B1 x)\<lparr>b_dev := d, b_block_nr := n\<rparr>), BUFFER_HASH_TABLE := H1, BUFFER_FREE_LIST := f\<rparr>"
    by (simp add: s2_def s0_def upd_buf_def)
  have B2: "BUF s2 = B1(x := (B1 x)\<lparr>b_dev := d, b_block_nr := n\<rparr>)" "ram s2 = ram s" by (simp_all add: s2)
  have w2: "cache_without s2 rg x"
    by (rule cache_without_same [OF w]) (use dist in \<open>auto simp: s2 s0_def upd_buf_def\<close>)
  have db: "b_dev (B1 b) = b_dev (BUF s b)" "b_block_nr (B1 b) = b_block_nr (BUF s b)" for b
    using unlinked_eqD(2,3) [OF u1 [of b]] by (simp_all add: s0_def upd_buf_def)
  then have hb: "hash_of (B1 b) = hash_of (BUF s b)" for b by (simp add: hash_of_def)
  have one: "one_buffer_each (BUF s2) rg"
    using inv free unfolding one_buffer_each_def holder_None cache_inv_def B2 by (auto simp: db)
  have dv: "b_dev (BUF s2 x) \<noteq> 0" using d by (simp add: B2)
  have hk: "hash_of (BUF s2 x) = HASHFN (ucast d) n" by (simp add: B2 hash_of_def)
  have ick: "in_chain (BUF s2) rg (HASHFN (ucast d) n) = {x} \<longleftrightarrow> in_chain (BUF s) rg (HASHFN (ucast d) n) - {x} = {}"
  proof -
    have "in_chain (BUF s2) rg (HASHFN (ucast d) n) = insert x (in_chain (BUF s) rg (HASHFN (ucast d) n) - {x})"
      using x dv hk by (auto simp: in_chain_def B2 db hb)
    then show ?thesis by auto
  qed
  from insertIntoQueues_cache [OF w2 x dist x0 dv one, unfolded hk ick B2(2)]
  obtain B H where i: "insertIntoQueues x s2 = s2\<lparr>BUF := B, BUFFER_HASH_TABLE := H,
      ram := (if in_chain (BUF s) rg (HASHFN (ucast d) n) - {x} = {} then (ram s)(20 := x) else ram s)\<rparr>"
    and ci: "cache_inv (insertIntoQueues x s2) (remove1 x rg @ [x])" and u: "\<And>b. unlinked (B b) = unlinked (BUF s2 b)"
    by blast
  have e: "s2\<lparr>BUF := B, BUFFER_HASH_TABLE := H, ram := R\<rparr> = s\<lparr>BUF := B, BUFFER_HASH_TABLE := H, BUFFER_FREE_LIST := f, ram := R\<rparr>" for R
    unfolding s2 by (rule queue_fields)
  have "assign_buffer pf x (ucast d) n s = Inr (insertIntoQueues x s2)"
    using r by (simp add: assign_buffer_def s0_def [symmetric] s2_def)
  moreover have "unlinked (B b) = unlinked (if b = x then recycled d n (BUF s x) else BUF s b)" for b
  proof (cases "b = x")
    case True
    have "unlinked (B1 x) = unlinked ((BUF s x)\<lparr>b_count := 1, b_dirt := 0, b_uptodate := 0\<rparr>)"
      using u1 [of x] by (simp add: s0_def upd_buf_def)
    then have "unlinked ((B1 x)\<lparr>b_dev := d, b_block_nr := n\<rparr>) = unlinked (recycled d n (BUF s x))"
      by (cases "B1 x"; cases "BUF s x") (simp add: unlinked_def recycled_def)
    then show ?thesis using True u [of x] by (simp add: B2)
  next
    case False
    then show ?thesis using u [of b] u1 [of b] by (simp add: B2 s0_def upd_buf_def)
  qed
  ultimately show ?thesis using ci unfolding i e by blast
qed

subsection \<open>The choice of a free buffer\<close>

definition clean_free :: "buffer_head \<Rightarrow> bool" where
  "clean_free b \<longleftrightarrow> b_count b = 0 \<and> b_dirt b = 0 \<and> b_lock b = 0"

lemma BADNESS_0: "BADNESS b = 0 \<longleftrightarrow> b_dirt b = 0 \<and> b_lock b = 0"
  by (simp add: BADNESS_def unat_eq_0)

lemma free_scan_hit:
  "clean_free (B x) \<Longrightarrow> bh = 0 \<or> BADNESS (B bh) \<noteq> 0 \<Longrightarrow> free_scan (Suc n) B first x bh = Inr x"
  by (auto simp: clean_free_def Let_def BADNESS_def)

lemma free_scan_skip:
  assumes "\<not> clean_free (B a)" and "b_next_free (B a) \<noteq> first" and "bh = 0 \<or> BADNESS (B bh) \<noteq> 0"
  shows "\<exists>bh'. (bh' = 0 \<or> BADNESS (B bh') \<noteq> 0) \<and> free_scan (Suc n) B first a bh = free_scan n B first (b_next_free (B a)) bh'"
proof -
  define bh' where "bh' = (if b_count (B a) = 0 \<and> (bh = 0 \<or> BADNESS (B a) < BADNESS (B bh)) then a else bh)"
  have nb: "\<not> (b_count (B a) = 0 \<and> BADNESS (B a) = 0)" using assms(1) by (auto simp: clean_free_def BADNESS_0)
  then have "bh' = 0 \<or> BADNESS (B bh') \<noteq> 0" using assms(3) by (auto simp: bh'_def)
  moreover have "free_scan (Suc n) B first a bh = free_scan n B first (b_next_free (B a)) bh'"
    unfolding free_scan.simps Let_def using nb assms(2) by (cases "b_count (B a) = 0") (auto simp: bh'_def)
  ultimately show ?thesis by blast
qed

lemma free_scan_walk:
  "links (\<lambda>b. b_next_free (B b)) prv a us x \<Longrightarrow> first \<notin> insert x (set us) \<Longrightarrow>
   \<forall>u \<in> insert a (set us). \<not> clean_free (B u) \<Longrightarrow> clean_free (B x) \<Longrightarrow> bh = 0 \<or> BADNESS (B bh) \<noteq> 0 \<Longrightarrow>
   length us + 1 < n \<Longrightarrow> free_scan n B first a bh = Inr x"
proof (induction us arbitrary: a bh n)
  case Nil
  then obtain m where n: "n = Suc (Suc m)" by (cases n; cases "n - 1") auto
  have a: "\<not> clean_free (B a)" "b_next_free (B a) \<noteq> first" "b_next_free (B a) = x" using Nil.prems by auto
  from free_scan_skip [OF a(1,2) Nil.prems(5), of "Suc m"] a(3) free_scan_hit [of B x, OF Nil.prems(4)]
  show ?case unfolding n by metis
next
  case (Cons u us)
  then obtain m where n: "n = Suc m" by (cases n) auto
  have a: "\<not> clean_free (B a)" "b_next_free (B a) \<noteq> first" "b_next_free (B a) = u" using Cons.prems by auto
  obtain bh' where b: "bh' = 0 \<or> BADNESS (B bh') \<noteq> 0" "free_scan n B first a bh = free_scan m B first u bh'"
    using free_scan_skip [OF a(1,2) Cons.prems(5), of m] a(3) n by auto
  have "free_scan m B first u bh' = Inr x" using Cons.prems n by (intro Cons.IH b(1)) auto
  with b(2) show ?case by simp
qed

text \<open>The first clean buffer in the order of the ring is taken.\<close>

lemma free_scan_first:
  assumes "ring_ok s (us @ x # vs)" and "\<forall>u \<in> set us. \<not> clean_free (BUF s u)" and "clean_free (BUF s x)" and "length us + 1 < n"
  shows "free_scan n (BUF s) (BUFFER_FREE_LIST s) (BUFFER_FREE_LIST s) 0 = Inr x"
proof (cases us)
  case Nil
  then have "BUFFER_FREE_LIST s = x" using assms(1) by (simp add: ring_ok_def)
  then show ?thesis using assms(3,4) by (cases n) (auto simp: clean_free_def BADNESS_0 Let_def)
next
  case (Cons u ws)
  then have "BUFFER_FREE_LIST s = u" "links (\<lambda>b. b_next_free (BUF s b)) (\<lambda>b. b_prev_free (BUF s b)) u ws x"
    using assms(1) links_append [of _ _ u ws x vs u] by (simp_all add: ring_ok_def)
  then show ?thesis using free_scan_walk [of "BUF s" _ u ws x u 0 n] assms Cons by (auto simp: ring_ok_def)
qed

lemma waitOnBuffer_free:
  "b_lock (BUF s b) = 0 \<Longrightarrow> 0 < pf_fuel pf \<Longrightarrow> waitOnBuffer pf b s = Inr (s\<lparr>int_flag := True\<rparr>)"
  by (simp add: waitOnBuffer_def wait_loop_now io_defs)

subsection \<open>Taking a buffer\<close>

text \<open>The blocks of devices that the cache holds, and where: what the cache is for its clients.\<close>

definition holdings :: "(u32 \<Rightarrow> buffer_head) \<Rightarrow> u32 list \<Rightarrow> u16 \<times> u32 \<Rightarrow> u32 option" where
  "holdings B rg = (\<lambda>(d, n). if d = 0 then None else holder B rg d n)"

lemma holdings_Some:
  "one_buffer_each B rg \<Longrightarrow> holdings B rg (d, n) = Some b \<longleftrightarrow> d \<noteq> 0 \<and> b \<in> set rg \<and> b_dev (B b) = d \<and> b_block_nr (B b) = n"
  by (auto simp: holdings_def holder_Some)

lemma getHashTable_hit:
  assumes "cache_inv s rg" and "holdings (BUF s) rg (d, n) = Some b" and "b_lock (BUF s b) = 0" and "length rg < pf_fuel pf"
  shows "getHashTable pf (ucast d) n s =
    Inr (b, (upd_buf b (\<lambda>h. h\<lparr>b_count := b_count h + 1\<rparr>) s)\<lparr>int_flag := True\<rparr>)"
proof -
  obtain m where m: "pf_fuel pf = Suc m" using assms(4) by (cases "pf_fuel pf") auto
  have one: "one_buffer_each (BUF s) rg" using assms(1) by (simp add: cache_inv_def)
  have h: "d \<noteq> 0" "holder (BUF s) rg d n = Some b" using assms(2) by (auto simp: holdings_def split: if_splits)
  then have b: "b \<in> set rg" "b_dev (BUF s b) = d" "b_block_nr (BUF s b) = n" by (simp_all add: holder_Some [OF one])
  have "b \<noteq> 0" using b(1) assms(1) by (auto simp: cache_inv_def ring_ok_def)
  moreover have "findBuffer (Suc m) (ucast d) n s = Inr b"
    using findBuffer_holder [OF assms(1) h(1), of "Suc m" n] assms(4) h(2) m by simp
  moreover have "waitOnBuffer pf b (upd_buf b (\<lambda>h. h\<lparr>b_count := b_count h + 1\<rparr>) s) =
      Inr ((upd_buf b (\<lambda>h. h\<lparr>b_count := b_count h + 1\<rparr>) s)\<lparr>int_flag := True\<rparr>)"
    using assms(3) m by (intro waitOnBuffer_free) (simp_all add: upd_buf_def)
  ultimately show ?thesis using b unfolding getHashTable_def m get_hash_loop.simps
    by (simp add: Let_def m upd_buf_def)
qed

lemma getHashTable_miss:
  assumes "cache_inv s rg" and "d \<noteq> 0" and "holdings (BUF s) rg (d, n) = None" and "length rg < pf_fuel pf"
  shows "getHashTable pf (ucast d) n s = Inr (0, s)"
proof -
  obtain m where m: "pf_fuel pf = Suc m" using assms(4) by (cases "pf_fuel pf") auto
  have "findBuffer (Suc m) (ucast d) n s = Inr 0"
    using findBuffer_holder [OF assms(1,2), of "Suc m" n] assms(2,3,4) m by (simp add: holdings_def)
  then show ?thesis unfolding getHashTable_def m get_hash_loop.simps by (simp add: m)
qed

lemma getblk_unfold:
  assumes "0 < pf_fuel pf"
  shows "\<exists>sync. getblk pf dev block s = getblk_loop (pf_fuel pf) pf sync dev block s"
  using assms unfolding getblk_def by (cases "pf_fuel pf") (auto simp: getblk_with_def)

lemma getblk_hit:
  assumes "cache_inv s rg" and "holdings (BUF s) rg (d, n) = Some b" and "b_lock (BUF s b) = 0" and "length rg < pf_fuel pf"
  shows "getblk pf (ucast d) n s = Inr (b, (upd_buf b (\<lambda>h. h\<lparr>b_count := b_count h + 1\<rparr>) s)\<lparr>int_flag := True\<rparr>)"
proof -
  obtain m where m: "pf_fuel pf = Suc m" using assms(4) by (cases "pf_fuel pf") auto
  obtain sync where g: "getblk pf (ucast d) n s = getblk_loop (pf_fuel pf) pf sync (ucast d) n s"
    using getblk_unfold [of pf "ucast d" n s] assms(4) by auto
  have "b \<in> set rg" using assms(1,2) by (auto simp: cache_inv_def holdings_Some)
  then have "b \<noteq> 0" using assms(1) by (auto simp: cache_inv_def ring_ok_def)
  then show ?thesis using getHashTable_hit [OF assms] unfolding g m by simp
qed

text \<open>What a block of the cache keeps when another one is taken in.\<close>

lemma holdings_recycled:
  assumes one: "one_buffer_each B rg" and one': "one_buffer_each C (remove1 x rg @ [x])" and x: "x \<in> set rg" and dist: "distinct rg"
    and d: "d \<noteq> 0" and free: "holdings B rg (d, n) = None"
    and u: "\<forall>b. unlinked (C b) = unlinked (if b = x then recycled d n (B x) else B b)"
  shows "holdings C (remove1 x rg @ [x]) = (\<lambda>q. if q = (d, n) then Some x else if holdings B rg q = Some x then None else holdings B rg q)"
proof
  fix q :: "u16 \<times> u32"
  obtain d' n' where q: "q = (d', n')" by (cases q)
  have cx: "b_dev (C x) = d" "b_block_nr (C x) = n" using unlinked_eqD(2,3) [OF u [rule_format, of x]] by (simp_all add: recycled_def)
  have co: "b_dev (C b) = b_dev (B b)" "b_block_nr (C b) = b_block_nr (B b)" if "b \<noteq> x" for b
    using unlinked_eqD(2,3) [OF u [rule_format, of b]] that by simp_all
  have s: "set (remove1 x rg @ [x]) = set rg" using x dist by auto
  have iff: "holdings C (remove1 x rg @ [x]) q = Some b \<longleftrightarrow>
      (if q = (d, n) then b = x else b \<noteq> x \<and> holdings B rg q = Some b)" for b
  proof (cases "b = x")
    case True
    then show ?thesis using d x by (auto simp: q holdings_Some [OF one'] s cx)
  next
    case False
    have "\<not> holdings B rg (d, n) = Some b" using free by simp
    then show ?thesis using False by (auto simp: q holdings_Some [OF one'] holdings_Some [OF one] s co)
  qed
  show "holdings C (remove1 x rg @ [x]) q = (if q = (d, n) then Some x else if holdings B rg q = Some x then None else holdings B rg q)"
  proof (cases "if q = (d, n) then Some x else if holdings B rg q = Some x then None else holdings B rg q")
    case (Some b)
    then show ?thesis using iff [of b] by (auto split: if_splits)
  next
    case None
    then have "holdings C (remove1 x rg @ [x]) q \<noteq> Some b" for b using iff [of b] by (auto split: if_splits)
    then show ?thesis unfolding None by (cases "holdings C (remove1 x rg @ [x]) q") auto
  qed
qed

end
