(* ===== verification/Caching.thy ===== *)
theory Caching
  imports Cache
begin

section \<open>Blocks in memory\<close>

text \<open>
  What \<open>initBuffer\<close> builds, and what taking, reading and releasing a block does to the contents of the
  cache.
\<close>

subsection \<open>The cache at the start\<close>

text \<open>The heads and the blocks of \<open>initBuffer\<close>, for \<open>e\<close> bytes of low memory, and their number.\<close>

definition head_at :: "nat \<Rightarrow> u32" where
  "head_at k = 0x100000 + 36 * of_nat k"

definition block_at :: "nat \<Rightarrow> nat \<Rightarrow> u32" where
  "block_at e k = of_nat e - 1024 * of_nat (k + 1)"

definition nr_buffers :: "nat \<Rightarrow> nat" where
  "nr_buffers e = (e - 0x100000) div 1060"

lemma unat_head_at: "k \<le> 15360 \<Longrightarrow> unat (head_at k) = 0x100000 + 36 * k"
proof -
  assume k: "k \<le> 15360"
  have "head_at k = of_nat (0x100000 + 36 * k)" by (simp add: head_at_def)
  moreover have "unat (of_nat (0x100000 + 36 * k) :: u32) = 0x100000 + 36 * k"
    using k by (intro unat_of_nat_u32) simp
  ultimately show ?thesis by (simp only:)
qed

lemma head_at_inj: "j \<le> 15360 \<Longrightarrow> k \<le> 15360 \<Longrightarrow> head_at j = head_at k \<longleftrightarrow> j = k"
  using unat_head_at [of j] unat_head_at [of k] by (metis add_left_cancel mult_cancel1 zero_neq_numeral)

lemma head_at_not_0: "k \<le> 15360 \<Longrightarrow> head_at k \<noteq> 0"
  using unat_head_at [of k] by auto

lemma head_at_Suc: "head_at k + 36 = head_at (k + 1)" "head_at (k + 1) - 36 = head_at k"
  by (simp_all add: head_at_def algebra_simps)

lemma nr_buffers_bound:
  assumes "e \<le> 15728640"
  shows "nr_buffers e \<le> 13849"
proof -
  have "nr_buffers e \<le> (15728640 - 0x100000) div 1060" unfolding nr_buffers_def using assms by (intro div_le_mono) simp
  then show ?thesis by simp
qed

lemma unat_block_at:
  assumes "1024 * (k + 1) \<le> e" and "e \<le> 15728640"
  shows "unat (block_at e k) = e - 1024 * (k + 1)"
proof -
  have "block_at e k = of_nat (e - 1024 * (k + 1))" using assms(1) by (simp add: block_at_def of_nat_diff)
  moreover have "unat (of_nat (e - 1024 * (k + 1)) :: u32) = e - 1024 * (k + 1)"
    using assms(2) by (intro unat_of_nat_u32) simp
  ultimately show ?thesis by simp
qed

text \<open>The test of the loop in numbers: one more head and one more block fit.\<close>

lemma block_fits:
  assumes "k \<le> nr_buffers e" and "0x100000 \<le> e" and "e \<le> 15728640"
  shows "head_at (k + 1) \<le> block_at e k \<longleftrightarrow> k < nr_buffers e"
proof -
  have n: "1060 * nr_buffers e \<le> e - 0x100000" by (simp add: nr_buffers_def)
  have "1060 * k \<le> 1060 * nr_buffers e" using assms(1) by simp
  with n have "1024 * (k + 1) \<le> e" using assms(2) by simp
  then have "head_at (k + 1) \<le> block_at e k \<longleftrightarrow> 0x100000 + 36 * (k + 1) \<le> e - 1024 * (k + 1)"
    using unat_block_at [of k e] unat_head_at [of "k + 1"] nr_buffers_bound [OF assms(3)] assms by (simp add: word_le_nat_alt)
  also have "\<dots> \<longleftrightarrow> (k + 1) * 1060 \<le> e - 0x100000" using \<open>1024 * (k + 1) \<le> e\<close> assms(2) by linarith
  also have "\<dots> \<longleftrightarrow> k + 1 \<le> nr_buffers e" unfolding nr_buffers_def by (simp add: less_eq_div_iff_mult_less_eq)
  finally show ?thesis by (simp only: Suc_le_eq Suc_eq_plus1 [symmetric])
qed

text \<open>One round of the loop, and the loop as a fold over the rounds.\<close>

definition init_round :: "nat \<Rightarrow> nat \<Rightarrow> 'a fs_scheme \<Rightarrow> 'a fs_scheme" where
  "init_round e k s = (let s = init_head (block_at e k) (head_at k) s in s\<lparr>NR_BUFFERS := NR_BUFFERS s + 1\<rparr>)"

lemma buffer_loop_rounds:
  assumes "0x100000 \<le> e" and "e \<le> 15728640"
  shows "k \<le> nr_buffers e \<Longrightarrow> nr_buffers e - k < n \<Longrightarrow>
    buffer_loop n (of_nat e - 1024 * of_nat k) (head_at k) s =
    Inr (head_at (nr_buffers e), fold (init_round e) [k..<nr_buffers e] s)"
proof (induction n arbitrary: k s)
  case (Suc n)
  have b: "of_nat e - 1024 * of_nat k - 1024 = block_at e k" by (simp add: block_at_def algebra_simps)
  show ?case
  proof (cases "k < nr_buffers e")
    case True
    have c: "of_nat e - 1024 * of_nat (k + 1) = block_at e k" by (simp add: block_at_def)
    have "buffer_loop (Suc n) (of_nat e - 1024 * of_nat k) (head_at k) s =
        buffer_loop n (of_nat e - 1024 * of_nat (k + 1)) (head_at (k + 1)) (init_round e k s)"
      using block_fits [OF Suc.prems(1) assms] True unfolding buffer_loop.simps b c
      by (simp add: Let_def init_round_def head_at_Suc(1))
    also have "\<dots> = Inr (head_at (nr_buffers e), fold (init_round e) [k + 1..<nr_buffers e] (init_round e k s))"
      using Suc.prems True by (intro Suc.IH) simp_all
    finally show ?thesis using True by (simp add: upt_conv_Cons)
  next
    case False
    then show ?thesis using block_fits [OF Suc.prems(1) assms] Suc.prems unfolding buffer_loop.simps b
      by (simp add: Let_def head_at_Suc(1))
  qed
qed simp

text \<open>A head as the loop leaves it.\<close>

definition fresh_head :: "nat \<Rightarrow> nat \<Rightarrow> buffer_head \<Rightarrow> buffer_head" where
  "fresh_head e k b = b\<lparr>b_dev := 0, b_dirt := 0, b_count := 0, b_lock := 0, b_uptodate := 0, b_next := 0, b_prev := 0,
     b_data := block_at e k, b_prev_free := head_at k - 36, b_next_free := head_at (k + 1)\<rparr>"

lemma rounds_result:
  assumes "n \<le> 15360"
  shows "(\<forall>k < n. BUF (fold (init_round e) [0..<n] s) (head_at k) = fresh_head e k (BUF s (head_at k))) \<and>
    (\<forall>b. b \<notin> head_at ` {..<n} \<longrightarrow> BUF (fold (init_round e) [0..<n] s) b = BUF s b) \<and>
    NR_BUFFERS (fold (init_round e) [0..<n] s) = NR_BUFFERS s + of_nat n \<and>
    ram (fold (init_round e) [0..<n] s) = ram s"
  using assms
proof (induction n)
  case (Suc n)
  let ?t = "fold (init_round e) [0..<n] s"
  have f: "fold (init_round e) [0..<Suc n] s = init_round e n ?t" by simp
  have B: "BUF (init_round e n ?t) = (BUF ?t)(head_at n := fresh_head e n (BUF ?t (head_at n)))"
    by (simp add: init_round_def init_head_def upd_buf_def set_waitq_def fresh_head_def head_at_Suc(1) Let_def)
  have r: "NR_BUFFERS (init_round e n ?t) = NR_BUFFERS ?t + 1" "ram (init_round e n ?t) = ram ?t"
    by (simp_all add: init_round_def init_head_def upd_buf_def set_waitq_def Let_def)
  have ne: "k < n \<Longrightarrow> head_at k \<noteq> head_at n" for k using head_at_inj [of k n] Suc.prems by simp
  then have "head_at n \<notin> head_at ` {..<n}" by (metis imageE lessThan_iff)
  then have "BUF ?t (head_at n) = BUF s (head_at n)" using Suc by simp
  then show ?case unfolding f B r using Suc ne by (auto simp: less_Suc_eq lessThan_Suc)
qed simp

text \<open>The rounds store the heads, the waiting processes of the buffers and their number, nothing else.\<close>

lemma init_round_frame:
  "init_round e k (s\<lparr>WAITQ := W, BUF := B, NR_BUFFERS := c\<rparr>) =
     s\<lparr>WAITQ := W(BufferWait (head_at k) := 0), BUF := B(head_at k := fresh_head e k (B (head_at k))), NR_BUFFERS := c + 1\<rparr>"
  by (simp add: init_round_def init_head_def upd_buf_def set_waitq_def fresh_head_def head_at_Suc(1) Let_def)

lemma rounds_frame:
  "\<exists>W B c. fold (init_round e) [0..<n] s = s\<lparr>WAITQ := W, BUF := B, NR_BUFFERS := c\<rparr> \<and>
     (\<forall>q. W q = (if q \<in> (\<lambda>k. BufferWait (head_at k)) ` {..<n} then 0 else WAITQ s q))"
proof (induction n)
  case 0
  show ?case by (intro exI [of _ "WAITQ s"] exI [of _ "BUF s"] exI [of _ "NR_BUFFERS s"]) simp
next
  case (Suc n)
  then obtain W B c where t: "fold (init_round e) [0..<n] s = s\<lparr>WAITQ := W, BUF := B, NR_BUFFERS := c\<rparr>"
    "\<forall>q. W q = (if q \<in> (\<lambda>k. BufferWait (head_at k)) ` {..<n} then 0 else WAITQ s q)" by blast
  have "fold (init_round e) [0..<Suc n] s = s\<lparr>WAITQ := W(BufferWait (head_at n) := 0),
      BUF := B(head_at n := fresh_head e n (B (head_at n))), NR_BUFFERS := c + 1\<rparr>"
    using t(1) init_round_frame by simp
  moreover have "\<forall>q. (W(BufferWait (head_at n) := 0)) q = (if q \<in> (\<lambda>k. BufferWait (head_at k)) ` {..<Suc n} then 0 else WAITQ s q)"
    using t(2) by (auto simp: lessThan_Suc)
  ultimately show ?case by blast
qed

lemma close_ring_frame:
  "close_ring h (s\<lparr>WAITQ := W, BUF := B, NR_BUFFERS := c\<rparr>) =
     s\<lparr>WAITQ := W(BUFFER_WAIT := 0), BUF := BUF (close_ring h (s\<lparr>WAITQ := W, BUF := B, NR_BUFFERS := c\<rparr>)), NR_BUFFERS := c,
       BUFFER_FREE_LIST := 0x100000, BUFFER_HASH_TABLE := (\<lambda>i. if i < 307 then 0 else BUFFER_HASH_TABLE s i)\<rparr>"
  by (simp add: close_ring_def Let_def upd_buf_def set_waitq_def cong: if_cong)

text \<open>Addresses in the order of the array form a ring.\<close>

lemma links_upto:
  "i < j \<Longrightarrow> \<forall>k. i \<le> k \<and> k < j \<longrightarrow> nxt (f k) = f (k + 1) \<and> prv (f (k + 1)) = f k \<Longrightarrow>
   links nxt prv (f i) (map f [i + 1..<j]) (f j)"
proof (induction "j - i" arbitrary: i)
  case (Suc m)
  show ?case
  proof (cases "i + 1 < j")
    case True
    then have "links nxt prv (f (i + 1)) (map f [i + 1 + 1..<j]) (f j)" using Suc by (intro Suc.hyps(1)) auto
    then show ?thesis using Suc.prems True by (simp add: upt_conv_Cons)
  next
    case False
    then have "j = i + 1" using Suc.prems(1) by simp
    then show ?thesis using Suc.prems by simp
  qed
qed simp

lemma ring_array:
  assumes "0 < n" and "\<And>k. k < n \<Longrightarrow> nxt (f k) = f (if k + 1 = n then 0 else k + 1)"
    and "\<And>k. k < n \<Longrightarrow> prv (f k) = f (if k = 0 then n - 1 else k - 1)"
  shows "ring nxt prv (map f [0..<n])"
proof -
  define g where "g k = (if k = n then f 0 else f k)" for k
  have "links nxt prv (g 0) (map g [0 + 1..<n]) (g n)"
  proof (rule links_upto [OF assms(1)], intro allI impI)
    fix k assume "0 \<le> k \<and> k < n"
    then have "k < n" by simp
    then show "nxt (g k) = g (k + 1) \<and> prv (g (k + 1)) = g k"
      using assms(2) [of k] assms(3) [of "k + 1"] assms(3) [of 0] assms(1) by (auto simp: g_def)
  qed
  moreover have e: "map g [0 + 1..<n] = map f [1..<n]" by (simp add: g_def)
  moreover have "g 0 = f 0" "g n = f 0" using assms(1) by (simp_all add: g_def)
  ultimately have "links nxt prv (f 0) (map f [1..<n]) (f 0)" by (simp only:)
  moreover have "map f [0..<n] = f 0 # map f [1..<n]" using assms(1) by (simp add: upt_conv_Cons)
  ultimately show ?thesis by simp
qed

text \<open>The memory size as \<open>initBuffer\<close> and \<open>initMemory\<close> use it, in pages.\<close>

lemma mem_size_pages:
  assumes "0x400000 \<le> sint mem_size" and "sint mem_size \<le> 0x3C00000"
  shows "initBuffer mem_size s = andThen (buffer_loop 15361 (of_nat (1024 * (unat mem_size div 4096))) 0x100000 s) (\<lambda>(h, s).
    Inr (close_ring h s))"
    and "1024 \<le> unat mem_size div 4096" and "unat mem_size div 4096 \<le> 15360"
proof -
  define k where "k = unat mem_size div 4096"
  have m: "int (unat mem_size) = sint mem_size" using assms(1) by (intro unat_sint_u32) simp
  then have "4194304 \<le> unat mem_size" "unat mem_size \<le> 62914560" using assms by linarith+
  then have k: "1024 \<le> k" "k \<le> 15360" by (simp_all add: k_def)
  then show "1024 \<le> unat mem_size div 4096" "unat mem_size div 4096 \<le> 15360" by (simp_all add: k_def)
  have pm: "mem_size AND 0xFFFFF000 = page_addr k"
    using page_of_frame [of mem_size] by (simp only: and.commute k_def frame_of_div)
  have pk: "unat (page_addr k) = 4096 * k" using k(2) by (intro unat_page_addr) simp
  have ge: "\<not> sint (page_addr k) < 0x400000" using sint_unat_u32 [of "page_addr k"] pk k by simp
  have "unat (page_addr k div 4) = 1024 * k" using pk by (simp add: unat_div)
  then have d4: "page_addr k div 4 = of_nat (1024 * k)" by (metis of_nat_unat ucast_id)
  have n: "\<not> 0x3C00000 < sint mem_size" using assms(2) by simp
  show "initBuffer mem_size s = andThen (buffer_loop 15361 (of_nat (1024 * (unat mem_size div 4096))) 0x100000 s) (\<lambda>(h, s).
    Inr (close_ring h s))"
    unfolding initBuffer_def Let_def if_not_P [OF n] pm if_not_P [OF ge] d4 unfolding k_def ..
qed

lemma cache_start:
  assumes "ring_ok s rg" and "\<forall>b \<in> set rg. b_dev (BUF s b) = 0 \<and> b_prev (BUF s b) = 0 \<and> b_next (BUF s b) = 0"
    and "\<forall>k < NR_HASH. BUFFER_HASH_TABLE s k = 0"
  shows "cache_inv s rg"
  using assms unfolding cache_inv_def
  by (intro conjI allI impI exI [of _ "[]"]) (auto simp: chain_ok_def in_chain_def one_buffer_each_def loose_ok_def)

text \<open>The result of \<open>initBuffer\<close>.\<close>

lemma initBuffer_result:
  fixes e mem_size defines "e \<equiv> 1024 * (unat (mem_size :: u32) div 4096)"
  assumes "0x400000 \<le> sint mem_size" and "sint mem_size \<le> 0x3C00000" and "0 < nr_buffers e" and "NR_BUFFERS s = 0"
  shows "\<exists>s'. initBuffer mem_size s = Inr s' \<and> cache_inv s' (map head_at [0..<nr_buffers e]) \<and>
    NR_BUFFERS s' = of_nat (nr_buffers e) \<and> ram s' = ram s \<and>
    (\<exists>W B. s' = s\<lparr>WAITQ := W, BUF := B, NR_BUFFERS := of_nat (nr_buffers e), BUFFER_FREE_LIST := 0x100000,
        BUFFER_HASH_TABLE := (\<lambda>i. if i < 307 then 0 else BUFFER_HASH_TABLE s i)\<rparr> \<and>
      (\<forall>b. b \<notin> head_at ` {..<nr_buffers e} \<longrightarrow> B b = BUF s b) \<and>
      (\<forall>q. W q = (if q = BUFFER_WAIT \<or> q \<in> (\<lambda>k. BufferWait (head_at k)) ` {..<nr_buffers e} then 0 else WAITQ s q))) \<and>
    (\<forall>k < nr_buffers e. b_dev (BUF s' (head_at k)) = 0 \<and> clean_free (BUF s' (head_at k)) \<and> b_uptodate (BUF s' (head_at k)) = 0 \<and> b_data (BUF s' (head_at k)) = block_at e k)"
proof -
  let ?n = "nr_buffers e"
  note m = mem_size_pages(1) [OF assms(2,3), where s = s] mem_size_pages(2,3) [OF assms(2,3)]
  have e: "0x100000 \<le> e" "e \<le> 15728640" using m(2,3) by (simp_all add: e_def)
  have n: "?n \<le> 13849" by (rule nr_buffers_bound [OF e(2)])
  define t where "t = fold (init_round e) [0..<?n] s"
  have h0: "head_at 0 = 0x100000" by (simp add: head_at_def)
  have "buffer_loop 15361 (of_nat e) 0x100000 s = Inr (head_at ?n, t)"
    using buffer_loop_rounds [OF e, of 0 15361 s] n h0 by (simp add: t_def)
  then have i: "initBuffer mem_size s = Inr (close_ring (head_at ?n) t)" using m(1) by (simp add: e_def)
  have n15: "?n \<le> 15360" using n by simp
  have r: "\<And>k. k < ?n \<Longrightarrow> BUF t (head_at k) = fresh_head e k (BUF s (head_at k))" "NR_BUFFERS t = of_nat ?n" "ram t = ram s"
    using rounds_result [OF n15, of e s] assms(5) by (simp_all add: t_def)
  let ?s = "close_ring (head_at ?n) t"
  have last: "head_at ?n - 36 = head_at (?n - 1)" using head_at_Suc(2) [of "?n - 1"] assms(4) by simp
  define B1 where "B1 = (BUF t)(head_at 0 := (BUF t (head_at 0))\<lparr>b_prev_free := head_at (?n - 1)\<rparr>)"
  define B2 where "B2 = B1(head_at (?n - 1) := (B1 (head_at (?n - 1)))\<lparr>b_next_free := head_at 0\<rparr>)"
  have B: "BUF ?s = B2" by (simp add: close_ring_def Let_def upd_buf_def set_waitq_def last h0 B1_def B2_def)
  have f: "BUFFER_FREE_LIST ?s = head_at 0" "NR_BUFFERS ?s = of_nat ?n" "ram ?s = ram s" "\<forall>k < 307. BUFFER_HASH_TABLE ?s k = 0"
    using r by (simp_all add: close_ring_def Let_def upd_buf_def set_waitq_def h0)
  have inj: "j < ?n \<Longrightarrow> k < ?n \<Longrightarrow> head_at j = head_at k \<longleftrightarrow> j = k" for j k using n15 by (intro head_at_inj) auto
  have u: "unlinked (B2 b) = unlinked (BUF t b)" for b
  proof -
    have "unlinked (B1 c) = unlinked (BUF t c)" for c by (simp add: B1_def unlinked_links)
    then show ?thesis by (simp add: B2_def unlinked_links)
  qed
  have pn: "b_prev (B2 b) = b_prev (BUF t b)" "b_next (B2 b) = b_next (BUF t b)" for b
  proof -
    have "b_prev (B1 c) = b_prev (BUF t c)" "b_next (B1 c) = b_next (BUF t c)" for c by (simp_all add: B1_def)
    then show "b_prev (B2 b) = b_prev (BUF t b)" "b_next (B2 b) = b_next (BUF t b)" by (simp_all add: B2_def)
  qed
  have nf: "b_next_free (B2 (head_at k)) = head_at (if k + 1 = ?n then 0 else k + 1)" if "k < ?n" for k
  proof -
    have "b_next_free (B1 (head_at k)) = head_at (k + 1)" using r(1) [OF that] by (auto simp: B1_def fresh_head_def)
    then show ?thesis using inj [of k "?n - 1"] that by (auto simp: B2_def)
  qed
  have pf: "b_prev_free (B2 (head_at k)) = head_at (if k = 0 then ?n - 1 else k - 1)" if "k < ?n" for k
  proof -
    have "b_prev_free (B1 (head_at k)) = head_at (if k = 0 then ?n - 1 else k - 1)"
      using r(1) [OF that] inj [of k 0] that head_at_Suc(2) [of "k - 1"]
      by (cases k) (simp_all add: B1_def fresh_head_def)
    moreover have "b_prev_free (B2 c) = b_prev_free (B1 c)" for c by (simp add: B2_def)
    ultimately show ?thesis by (simp only:)
  qed
  have "distinct (map head_at [0..<?n])" using inj by (simp add: distinct_map inj_on_def)
  moreover have "0 \<notin> set (map head_at [0..<?n])" using head_at_not_0 n15 by fastforce
  moreover have "hd (map head_at [0..<?n]) = head_at 0" using assms(4) by (simp add: hd_map)
  moreover have "ring (\<lambda>b. b_next_free (B2 b)) (\<lambda>b. b_prev_free (B2 b)) (map head_at [0..<?n])"
    by (rule ring_array [OF assms(4)]) (simp_all only: nf pf)
  ultimately have "ring_ok ?s (map head_at [0..<?n])" by (simp add: ring_ok_def B f)
  moreover have "\<forall>b \<in> set (map head_at [0..<?n]). b_dev (BUF ?s b) = 0 \<and> b_prev (BUF ?s b) = 0 \<and> b_next (BUF ?s b) = 0"
    using r(1) unlinked_eqD(3) [OF u] by (auto simp: B pn fresh_head_def)
  ultimately have "cache_inv ?s (map head_at [0..<?n])" using f(4) by (intro cache_start)
  moreover have "b_dev (B2 (head_at k)) = 0 \<and> clean_free (B2 (head_at k)) \<and> b_uptodate (B2 (head_at k)) = 0 \<and> b_data (B2 (head_at k)) = block_at e k" if "k < ?n" for k
    using r(1) [OF that] unlinked_eqD [OF u [of "head_at k"]] by (simp add: clean_free_def fresh_head_def)
  moreover have "\<exists>W B. ?s = s\<lparr>WAITQ := W, BUF := B, NR_BUFFERS := of_nat ?n, BUFFER_FREE_LIST := 0x100000,
        BUFFER_HASH_TABLE := (\<lambda>i. if i < 307 then 0 else BUFFER_HASH_TABLE s i)\<rparr> \<and>
      (\<forall>b. b \<notin> head_at ` {..<?n} \<longrightarrow> B b = BUF s b) \<and>
      (\<forall>q. W q = (if q = BUFFER_WAIT \<or> q \<in> (\<lambda>k. BufferWait (head_at k)) ` {..<?n} then 0 else WAITQ s q))"
  proof -
    obtain W C c where t: "t = s\<lparr>WAITQ := W, BUF := C, NR_BUFFERS := c\<rparr>"
      "\<forall>q. W q = (if q \<in> (\<lambda>k. BufferWait (head_at k)) ` {..<?n} then 0 else WAITQ s q)"
      using rounds_frame [where e = e and n = ?n and s = s] unfolding t_def by blast
    have c: "c = of_nat ?n" using r(2) by (simp add: t(1))
    have "B2 b = BUF s b" if "b \<notin> head_at ` {..<?n}" for b
    proof -
      have "b \<noteq> head_at 0" "b \<noteq> head_at (?n - 1)" using that assms(4) by auto
      then show ?thesis using rounds_result [OF n15, of e s] that by (simp add: B2_def B1_def t_def)
    qed
    moreover have "?s = s\<lparr>WAITQ := W(BUFFER_WAIT := 0), BUF := B2, NR_BUFFERS := of_nat ?n, BUFFER_FREE_LIST := 0x100000,
        BUFFER_HASH_TABLE := (\<lambda>i. if i < 307 then 0 else BUFFER_HASH_TABLE s i)\<rparr>"
      using close_ring_frame [where h = "head_at ?n" and s = s and W = W and B = C and c = c, folded t(1), unfolded B] unfolding c .
    moreover have "\<forall>q. (W(BUFFER_WAIT := 0)) q =
        (if q = BUFFER_WAIT \<or> q \<in> (\<lambda>k. BufferWait (head_at k)) ` {..<?n} then 0 else WAITQ s q)" using t(2) by simp
    ultimately show ?thesis by blast
  qed
  ultimately show ?thesis using i f by (intro exI [of _ ?s] conjI) (simp_all add: B)
qed

subsection \<open>Properties\<close>

text \<open>C15. With 4 to 60 MB of memory and room for at least one buffer, \<open>initBuffer\<close> lays out as many 36-byte heads
  and 1 KB blocks as fit between 1 MB and a quarter of the memory: no head overlaps a block and no two blocks overlap. The
  heads form one ring, every hash chain is empty, and every buffer is free, clean and without valid contents. Besides these
  heads, their number, the head of the free list, the 307 hash chains and the queues of the buffers, which are emptied,
  nothing is stored: the bytes of the blocks, every other head and every other variable are unchanged.\<close>

theorem initBuffer_layout:
  fixes mem_size :: u32 and s :: "'a fs_scheme"
  assumes "0x400000 \<le> sint mem_size" and "sint mem_size \<le> 0x3C00000"
    and "0 < nr_buffers (1024 * (unat mem_size div 4096))" and "NR_BUFFERS s = 0"
  shows "\<exists>s' n. initBuffer mem_size s = Inr s' \<and> n = nr_buffers (1024 * (unat mem_size div 4096)) \<and>
    unat (NR_BUFFERS s') = n \<and> cache_inv s' (map head_at [0..<n]) \<and> ram s' = ram s \<and>
    (\<forall>k < n. b_dev (BUF s' (head_at k)) = 0 \<and> clean_free (BUF s' (head_at k)) \<and> b_uptodate (BUF s' (head_at k)) = 0 \<and>
      unat (b_data (BUF s' (head_at k))) = 1024 * (unat mem_size div 4096) - 1024 * (k + 1)) \<and>
    (\<forall>j < n. \<forall>k < n. unat (head_at j) + 36 \<le> unat (b_data (BUF s' (head_at k)))) \<and>
    (\<exists>W B. s' = s\<lparr>WAITQ := W, BUF := B, NR_BUFFERS := of_nat n, BUFFER_FREE_LIST := 0x100000,
        BUFFER_HASH_TABLE := (\<lambda>i. if i < 307 then 0 else BUFFER_HASH_TABLE s i)\<rparr> \<and>
      (\<forall>b. b \<notin> head_at ` {..<n} \<longrightarrow> B b = BUF s b) \<and>
      (\<forall>q. W q = (if q = BUFFER_WAIT \<or> q \<in> (\<lambda>k. BufferWait (head_at k)) ` {..<n} then 0 else WAITQ s q)))"
proof -
  let ?e = "1024 * (unat mem_size div 4096)" and ?n = "nr_buffers (1024 * (unat mem_size div 4096))"
  have e: "0x100000 \<le> ?e" "?e \<le> 15728640" using mem_size_pages(2,3) [OF assms(1,2)] by simp_all
  have n: "?n \<le> 13849" by (rule nr_buffers_bound [OF e(2)])
  obtain s' where s': "initBuffer mem_size s = Inr s'" "cache_inv s' (map head_at [0..<?n])" "NR_BUFFERS s' = of_nat ?n" "ram s' = ram s"
    "\<exists>W B. s' = s\<lparr>WAITQ := W, BUF := B, NR_BUFFERS := of_nat ?n, BUFFER_FREE_LIST := 0x100000,
        BUFFER_HASH_TABLE := (\<lambda>i. if i < 307 then 0 else BUFFER_HASH_TABLE s i)\<rparr> \<and>
      (\<forall>b. b \<notin> head_at ` {..<?n} \<longrightarrow> B b = BUF s b) \<and>
      (\<forall>q. W q = (if q = BUFFER_WAIT \<or> q \<in> (\<lambda>k. BufferWait (head_at k)) ` {..<?n} then 0 else WAITQ s q))"
    "\<forall>k < ?n. b_dev (BUF s' (head_at k)) = 0 \<and> clean_free (BUF s' (head_at k)) \<and> b_uptodate (BUF s' (head_at k)) = 0 \<and> b_data (BUF s' (head_at k)) = block_at ?e k"
    using initBuffer_result [OF assms] by blast
  have "unat (NR_BUFFERS s') = ?n" using s'(3) n by (simp add: unat_of_nat_u32)
  moreover have fit: "1060 * (k + 1) \<le> ?e - 0x100000" if "k < ?n" for k
    using mult_le_mono2 [of "k + 1" ?n 1060] that by (simp add: nr_buffers_def)
  then have ub: "unat (block_at ?e k) = ?e - 1024 * (k + 1)" if "k < ?n" for k
  proof -
    have "1024 * (k + 1) \<le> 1060 * (k + 1)" by simp
    then have "1024 * (k + 1) \<le> ?e" using fit [OF that] e(1) by linarith
    then show ?thesis using e(2) by (rule unat_block_at)
  qed
  moreover have "unat (head_at j) + 36 \<le> unat (block_at ?e k)" if "j < ?n" "k < ?n" for j k
  proof -
    have "36 * (j + 1) \<le> 36 * ?n" "1024 * (k + 1) \<le> 1024 * ?n" "1060 * ?n \<le> ?e - 0x100000"
      using that by (simp_all add: nr_buffers_def)
    then have "0x100000 + 36 * (j + 1) \<le> ?e - 1024 * (k + 1)" using e(1) by linarith
    then show ?thesis using ub [OF that(2)] unat_head_at [of j] that(1) n by simp
  qed
  ultimately show ?thesis using s'(1,2,4,6) s'(5) by (intro exI [of _ s'] exI [of _ ?n] conjI) simp_all
qed

text \<open>The state after the start of the cache on a machine with 8 MB.\<close>

definition fs_boot :: fs where
  "fs_boot = blk.extend blk_boot \<lparr>NR_BUFFERS = 0, BUFFER_FREE_LIST = 0, BUFFER_HASH_TABLE = (\<lambda>_. 0),
     SUPER_BLK = (\<lambda>_. \<lparr>s_ninodes = 0, s_nzones = 0, s_imap_blocks = 0, s_zmap_blocks = 0, s_firstdatazone = 0,
       s_log_zone_size = 0, s_max_size = 0, s_magic = 0, s_imap = (\<lambda>_. 0), s_zmap = (\<lambda>_. 0), s_dev = 0, s_isup = 0,
       s_imount = 0, s_time = 0, s_lock = 0, s_rd_only = 0, s_dirt = 0\<rparr>)\<rparr>"

lemma fs_boot_simps [simp]: "NR_BUFFERS fs_boot = 0"
  by (simp add: fs_boot_def blk.extend_def)

lemma nr_8MB: "nr_buffers (1024 * (unat (0x800000 :: u32) div 4096)) = 989"
  by (simp add: nr_buffers_def)

lemma fs_boot_cache:
  "\<exists>s'. initBuffer 0x800000 fs_boot = Inr s' \<and> cache_inv s' (map head_at [0..<989]) \<and>
    (\<forall>k < 989. b_dev (BUF s' (head_at k)) = 0 \<and> clean_free (BUF s' (head_at k)) \<and> b_uptodate (BUF s' (head_at k)) = 0 \<and> b_data (BUF s' (head_at k)) = block_at 0x200000 k)"
  using initBuffer_result [of "0x800000" fs_boot] nr_8MB by auto

theorem initBuffer_layout_witness:
  "\<exists>s'. initBuffer 0x800000 fs_boot = Inr s' \<and> unat (NR_BUFFERS s') = 989 \<and> unat (b_data (BUF s' (head_at 988))) = 0x200000 - 1024 * 989"
  using initBuffer_layout [of "0x800000" fs_boot] unfolding nr_8MB by (auto simp: fs_boot_simps)

lemma getblk_miss:
  assumes inv: "cache_inv s (us @ x # vs)" and len: "us @ vs \<noteq> []" and fuel: "length (us @ x # vs) + 1 < pf_fuel pf"
    and d: "d \<noteq> 0" and miss: "holdings (BUF s) (us @ x # vs) (d, n) = None"
    and busy: "\<forall>u \<in> set us. \<not> clean_free (BUF s u)" and free: "clean_free (BUF s x)"
  shows "\<exists>s'. getblk pf (ucast d) n s = Inr (x, s') \<and> cache_inv s' (us @ vs @ [x]) \<and>
    holdings (BUF s') (us @ vs @ [x]) = (\<lambda>q. if q = (d, n) then Some x
      else if holdings (BUF s) (us @ x # vs) q = Some x then None else holdings (BUF s) (us @ x # vs) q) \<and>
    unlinked (BUF s' x) = unlinked (recycled d n (BUF s x)) \<and> (\<forall>b. b \<noteq> x \<longrightarrow> unlinked (BUF s' b) = unlinked (BUF s b)) \<and>
    ram s' = (if in_chain (BUF s) (us @ x # vs) (HASHFN (ucast d) n) - {x} = {} then (ram s)(20 := x) else ram s) \<and>
    (\<exists>B H f R. s' = s\<lparr>int_flag := True\<rparr>\<lparr>BUF := B, BUFFER_HASH_TABLE := H, BUFFER_FREE_LIST := f, ram := R\<rparr>)"
proof -
  let ?rg = "us @ x # vs"
  define t where "t = s\<lparr>int_flag := True\<rparr>"
  have dist: "distinct ?rg" and one: "one_buffer_each (BUF s) ?rg" and ro: "ring_ok s ?rg" and x0: "x \<noteq> 0"
    using inv by (auto simp: cache_inv_def ring_ok_def)
  have e: "remove1 x ?rg = us @ vs" using dist by (simp add: remove1_append)
  have t: "BUF t = BUF s" "ram t = ram s" by (simp_all add: t_def)
  have "cache_inv t ?rg" by (rule cache_inv_same [OF inv]) (simp_all add: t_def same_place_def)
  note ti = this
  have h: "holder (BUF t) ?rg d n = None" using miss d by (simp add: holdings_def t)
  have l2: "2 \<le> length ?rg" using len by (cases us; cases vs) auto
  have xr: "x \<in> set ?rg" by simp
  obtain B H f R where a': "assign_buffer pf x (ucast d) n t = Inr (t\<lparr>BUF := B, BUFFER_HASH_TABLE := H, BUFFER_FREE_LIST := f, ram := R\<rparr>)"
    and R': "R = (if in_chain (BUF s) ?rg (HASHFN (ucast d) n) - {x} = {} then (ram s)(20 := x) else ram s)"
    and ci': "cache_inv (t\<lparr>BUF := B, BUFFER_HASH_TABLE := H, BUFFER_FREE_LIST := f, ram := R\<rparr>) ((us @ vs) @ [x])"
    and u': "\<forall>b. unlinked (B b) = unlinked (if b = x then recycled d n (BUF s x) else BUF s b)"
    using assign_buffer_cache [OF ti xr l2 d h, where pf = pf] unfolding t e by blast
  define s' where "s' = t\<lparr>BUF := B, BUFFER_HASH_TABLE := H, BUFFER_FREE_LIST := f, ram := R\<rparr>"
  have a: "assign_buffer pf x (ucast d) n t = Inr s'" and ci: "cache_inv s' ((us @ vs) @ [x])"
    and R: "ram s' = (if in_chain (BUF s) ?rg (HASHFN (ucast d) n) - {x} = {} then (ram s)(20 := x) else ram s)"
    and u: "\<forall>b. unlinked (BUF s' b) = unlinked (if b = x then recycled d n (BUF s x) else BUF s b)"
    using a' ci' R' u' by (simp_all add: s'_def)
  obtain m where m: "pf_fuel pf = Suc m" using fuel by (cases "pf_fuel pf") auto
  obtain sync where g: "getblk pf (ucast d) n s = getblk_loop (pf_fuel pf) pf sync (ucast d) n s"
    using getblk_unfold [of pf "ucast d" n s] fuel by auto
  have 1: "getHashTable pf (ucast d) n s = Inr (0, s)" using getHashTable_miss [OF inv d miss] fuel by simp
  have 2: "free_scan (pf_fuel pf) (BUF s) (BUFFER_FREE_LIST s) (BUFFER_FREE_LIST s) 0 = Inr x"
    using free_scan_first [OF ro busy free] fuel by simp
  have 3: "waitOnBuffer pf x s = Inr t" using waitOnBuffer_free [of s x pf] free fuel by (simp add: clean_free_def t_def)
  have 4: "flush_loop (pf_fuel pf) pf sync x t = Inr (False, t)" using free m by (simp add: clean_free_def t)
  have 5: "findBuffer (pf_fuel pf) (ucast d) n t = Inr 0" using findBuffer_holder [OF ti d, of "pf_fuel pf" n] h fuel by simp
  have "getblk pf (ucast d) n s = Inr (x, s')"
    unfolding g m getblk_loop.simps
    using 1 2 3 4 5 a x0 free by (simp add: m clean_free_def t)
  moreover have "holdings (BUF s') ((us @ vs) @ [x]) = (\<lambda>q. if q = (d, n) then Some x
      else if holdings (BUF s) ?rg q = Some x then None else holdings (BUF s) ?rg q)"
    using holdings_recycled [OF one _ _ dist d miss u] ci e by (simp add: cache_inv_def)
  moreover have "\<exists>B H f R. s' = s\<lparr>int_flag := True\<rparr>\<lparr>BUF := B, BUFFER_HASH_TABLE := H, BUFFER_FREE_LIST := f, ram := R\<rparr>"
    unfolding s'_def t_def by blast
  ultimately show ?thesis using ci R u by (intro exI [of _ s'] conjI) simp_all
qed

text \<open>C2. A block that the cache does not hold gets the first clean unused buffer of the ring, which moves to the end of
  the ring. For its clients the cache then holds the new block in this buffer, no longer the block the buffer held before,
  and every other block where it was; the ring, the chains and the other buffers' states stay intact. If the chain was
  empty, entry 5 of the page directory is overwritten with the address of the buffer.\<close>

theorem getblk_recycles:
  assumes inv: "cache_inv s (us @ x # vs)" and len: "us @ vs \<noteq> []" and fuel: "length (us @ x # vs) + 1 < pf_fuel pf"
    and d: "d \<noteq> 0" and miss: "holdings (BUF s) (us @ x # vs) (d, n) = None"
    and busy: "\<forall>u \<in> set us. \<not> clean_free (BUF s u)" and free: "clean_free (BUF s x)"
  shows "\<exists>s'. getblk pf (ucast d) n s = Inr (x, s') \<and> cache_inv s' (us @ vs @ [x]) \<and>
    holdings (BUF s') (us @ vs @ [x]) = (\<lambda>q. if q = (d, n) then Some x
      else if holdings (BUF s) (us @ x # vs) q = Some x then None else holdings (BUF s) (us @ x # vs) q) \<and>
    unlinked (BUF s' x) = unlinked (recycled d n (BUF s x)) \<and> (\<forall>b. b \<noteq> x \<longrightarrow> unlinked (BUF s' b) = unlinked (BUF s b)) \<and>
    ram s' = (if in_chain (BUF s) (us @ x # vs) (HASHFN (ucast d) n) - {x} = {} then (ram s)(20 := x) else ram s)"
  using getblk_miss [OF assms] by blast

theorem getblk_recycles_witness:
  "\<exists>s s'. initBuffer 0x800000 fs_boot = Inr s \<and> getblk (some_platform Inr) 0x300 5 s = Inr (0x100000, s') \<and>
    holdings (BUF s') (map head_at [1..<989] @ [0x100000]) (0x300, 5) = Some 0x100000 \<and> ram s' 20 = 0x100000"
proof -
  obtain s where s: "initBuffer 0x800000 fs_boot = Inr s" "cache_inv s (map head_at [0..<989])"
    "\<forall>k < 989. b_dev (BUF s (head_at k)) = 0 \<and> clean_free (BUF s (head_at k))" using fs_boot_cache by auto
  define vs where "vs = map head_at [1..<989]"
  have "[0..<989] = 0 # [Suc 0..<989]" by (rule upt_conv_Cons) simp
  then have l: "map head_at [0..<989] = head_at 0 # vs" by (simp only: vs_def list.map One_nat_def)
  have h0: "head_at 0 = 0x100000" by (simp add: head_at_def)
  have len: "length vs = 988" unfolding vs_def length_map length_upt by simp
  have inv: "cache_inv s ([] @ head_at 0 # vs)" using s(2) unfolding l by simp
  have dv: "b_dev (BUF s b) = 0" if b: "b \<in> set (head_at 0 # vs)" for b
  proof -
    have "b \<in> head_at ` {0..<989}" using b unfolding l [symmetric] set_map set_upt .
    then show ?thesis using s(3) by auto
  qed
  have f: "clean_free (BUF s (head_at 0))" using s(3) by simp
  have miss: "holdings (BUF s) ([] @ head_at 0 # vs) (0x300, 5) = None" using dv by (simp add: holdings_def holder_None)
  have ch: "in_chain (BUF s) ([] @ head_at 0 # vs) k = {}" for k using dv by (auto simp: in_chain_def)
  have fu: "length ([] @ head_at 0 # vs) + 1 < pf_fuel (some_platform Inr)" by (simp add: some_platform_def len)
  have ne: "[] @ vs \<noteq> []" using len by auto
  have d3: "(0x300 :: u16) \<noteq> 0" and busy: "\<forall>u \<in> set []. \<not> clean_free (BUF s u)" by simp_all
  from getblk_recycles [OF inv ne fu d3 miss busy f]
  obtain s' where s': "getblk (some_platform Inr) (ucast (0x300 :: u16)) 5 s = Inr (head_at 0, s')"
    "holdings (BUF s') ([] @ vs @ [head_at 0]) = (\<lambda>q. if q = (0x300, 5) then Some (head_at 0)
      else if holdings (BUF s) ([] @ head_at 0 # vs) q = Some (head_at 0) then None else holdings (BUF s) ([] @ head_at 0 # vs) q)"
    "ram s' = (if in_chain (BUF s) ([] @ head_at 0 # vs) (HASHFN (ucast (0x300 :: u16)) 5) - {head_at 0} = {} then (ram s)(20 := head_at 0) else ram s)"
    by blast
  have "holdings (BUF s') (vs @ [head_at 0]) (0x300, 5) = Some (head_at 0)" using fun_cong [OF s'(2), of "(0x300, 5)"] by simp
  moreover have "ram s' 20 = head_at 0" unfolding s'(3) ch by simp
  moreover have "getblk (some_platform Inr) 0x300 5 s = Inr (head_at 0, s')" using s'(1) by simp
  ultimately show ?thesis using s(1) unfolding h0 vs_def by blast
qed

subsection \<open>Reading and releasing\<close>

lemma upd_buf_inverse:
  "upd_buf b (\<lambda>h. h\<lparr>b_count := b_count h - 1\<rparr>) ((upd_buf b (\<lambda>h. h\<lparr>b_count := b_count h + 1\<rparr>) s)\<lparr>int_flag := True\<rparr>) = s\<lparr>int_flag := True\<rparr>"
  by (simp add: upd_buf_def)

lemma waitOnBuffer_open:
  "b_lock (BUF s b) = 0 \<Longrightarrow> 0 < pf_fuel pf \<Longrightarrow> int_flag s \<Longrightarrow> waitOnBuffer pf b s = Inr s"
  by (cases s) (simp add: waitOnBuffer_free)

text \<open>A block that the cache holds with valid contents, and a buffer that nobody has locked.\<close>

definition one_user_more :: "u32 \<Rightarrow> 'a fs_scheme \<Rightarrow> 'a fs_scheme" where
  "one_user_more b s = (upd_buf b (\<lambda>h. h\<lparr>b_count := b_count h + 1\<rparr>) s)\<lparr>int_flag := True\<rparr>"

lemma bread_hit:
  assumes "cache_inv s rg" and "holdings (BUF s) rg (d, n) = Some b" and "b_lock (BUF s b) = 0" and "b_uptodate (BUF s b) \<noteq> 0"
    and "length rg < pf_fuel pf"
  shows "bread pf (ucast d) n s = Inr (b, one_user_more b s)" and "b \<noteq> 0"
proof -
  have "b \<in> set rg" using assms(1,2) by (auto simp: cache_inv_def holdings_Some)
  then show b: "b \<noteq> 0" using assms(1) by (auto simp: cache_inv_def ring_ok_def)
  have "b_uptodate (BUF (one_user_more b s) b) \<noteq> 0" using assms(4) by (simp add: one_user_more_def upd_buf_def)
  then show "bread pf (ucast d) n s = Inr (b, one_user_more b s)"
    using getblk_hit [OF assms(1,2,3,5)] b by (simp add: bread_def bread_with_def one_user_more_def [symmetric])
qed

lemma brelse_open:
  assumes "b \<noteq> 0" and "b_lock (BUF t b) = 0" and "int_flag t" and "b_count (BUF t b) \<noteq> 0" and "0 < pf_fuel pf"
  shows "brelse pf b t = Inr (wakeUp BUFFER_WAIT (upd_buf b (\<lambda>h. h\<lparr>b_count := b_count h - 1\<rparr>) t))"
  using waitOnBuffer_open [OF assms(2,5,3)] assms(1,4) by (simp add: brelse_def Let_def)

lemma one_user_more_simps:
  "trace (one_user_more b s) = trace s" "int_flag (one_user_more b s)" "b_count (BUF (one_user_more b s) b) = b_count (BUF s b) + 1"
  "b_lock (BUF (one_user_more b s) b) = b_lock (BUF s b)" "b_data (BUF (one_user_more b s) c) = b_data (BUF s c)"
  "INODES (one_user_more b s) = INODES s" "DATA (one_user_more b s) = DATA s" "SUPER_BLK (one_user_more b s) = SUPER_BLK s"
  "b_count (BUF s b) \<noteq> 255 \<Longrightarrow> b_count (BUF (one_user_more b s) b) \<noteq> 0"
proof -
  show "b_count (BUF (one_user_more b s) b) \<noteq> 0" if "b_count (BUF s b) \<noteq> 255"
  proof
    assume "b_count (BUF (one_user_more b s) b) = 0"
    then have "b_count (BUF s b) + 1 = 0" by (simp add: one_user_more_def upd_buf_def)
    then have "b_count (BUF s b) = 0 - 1" by (simp only: eq_diff_eq)
    then show False using that by simp
  qed
qed (simp_all add: one_user_more_def upd_buf_def)

text \<open>C23. Reading a block that the cache holds with valid contents, in a buffer that is not locked and has fewer than
  255 users, touches no port and no other buffer: it only adds a user, and does not lock the buffer. Releasing the buffer
  again gives back the state before, with interrupts on and, if processes wait for a buffer, the first of them woken.\<close>

theorem bread_brelse:
  assumes "cache_inv s rg" and "holdings (BUF s) rg (d, n) = Some b" and "b_lock (BUF s b) = 0" and "b_uptodate (BUF s b) \<noteq> 0"
    and "b_count (BUF s b) \<noteq> 255" and "length rg < pf_fuel pf"
  shows "\<exists>t. bread pf (ucast d) n s = Inr (b, t) \<and> trace t = trace s \<and> b_count (BUF t b) = b_count (BUF s b) + 1 \<and>
    b_lock (BUF t b) = 0 \<and> (\<forall>c. c \<noteq> b \<longrightarrow> BUF t c = BUF s c) \<and>
    brelse pf b t = Inr (wakeUp BUFFER_WAIT (s\<lparr>int_flag := True\<rparr>))"
proof -
  note r = bread_hit [OF assms(1-4,6)]
  have "brelse pf b (one_user_more b s) = Inr (wakeUp BUFFER_WAIT (s\<lparr>int_flag := True\<rparr>))"
    using brelse_open [OF r(2) _ one_user_more_simps(2) one_user_more_simps(9) [OF assms(5)], of pf] assms(3,6)
    by (simp add: one_user_more_simps(4)) (simp add: one_user_more_def upd_buf_inverse)
  then show ?thesis using r(1) assms(3)
    by (intro exI [of _ "one_user_more b s"]) (simp add: one_user_more_simps, simp add: one_user_more_def upd_buf_def)
qed

text \<open>The cache of 8 MB with one valid block in it.\<close>

lemma one_block_cached:
  "\<exists>(s :: fs) rg. cache_inv s rg \<and> length rg = 989 \<and> holdings (BUF s) rg (0x300, n) = Some 0x100000 \<and>
    b_lock (BUF s 0x100000) = 0 \<and> b_uptodate (BUF s 0x100000) = 1 \<and> b_count (BUF s 0x100000) = 1"
proof -
  let ?rg = "map head_at [0..<989]"
  obtain s :: fs where s: "cache_inv s ?rg" "\<forall>k < 989. b_dev (BUF s (head_at k)) = 0 \<and> clean_free (BUF s (head_at k))"
    using fs_boot_cache by auto
  have h0: "head_at 0 = 0x100000" by (simp add: head_at_def)
  have st: "set ?rg = head_at ` {0..<989}" unfolding set_map set_upt ..
  have len: "length ?rg = 989" unfolding length_map length_upt by simp
  have l2: "2 \<le> length ?rg" unfolding len by simp
  have xr: "0x100000 \<in> set ?rg" unfolding st by (rule image_eqI [of _ _ 0]) (simp_all add: h0)
  have no: "holder (BUF s) ?rg 0x300 n = None" unfolding holder_None st using s(2) by auto
  have d: "(0x300 :: u16) \<noteq> 0" by simp
  define pf where "pf = (some_platform Inr :: fs platform)"
  from assign_buffer_cache [OF s(1) xr l2 d no, where pf = pf]
  obtain B H f R where t: "cache_inv (s\<lparr>BUF := B, BUFFER_HASH_TABLE := H, BUFFER_FREE_LIST := f, ram := R\<rparr>) (remove1 0x100000 ?rg @ [0x100000])"
    (is "cache_inv ?t ?rg'")
    and u: "\<forall>b. unlinked (B b) = unlinked (if b = 0x100000 then recycled 0x300 n (BUF s 0x100000) else BUF s b)" by blast
  let ?v = "upd_buf 0x100000 (\<lambda>b. b\<lparr>b_uptodate := 1\<rparr>) ?t"
  have inv: "cache_inv ?v ?rg'" by (rule cache_inv_same [OF t]) (simp_all add: upd_buf_def same_place_def)
  have "unlinked (B 0x100000) = unlinked (recycled 0x300 n (BUF s 0x100000))" using u by simp
  note e = unlinked_eqD [OF this]
  have "b_lock (BUF s 0x100000) = 0" using s(2) h0 by (auto simp: clean_free_def dest: spec [of _ 0])
  then have v: "b_lock (BUF ?v 0x100000) = 0" "b_uptodate (BUF ?v 0x100000) = 1" "b_count (BUF ?v 0x100000) = 1"
    "b_dev (BUF ?v 0x100000) = 0x300" "b_block_nr (BUF ?v 0x100000) = n"
    using e by (simp_all add: upd_buf_def recycled_def)
  have one: "one_buffer_each (BUF ?v) ?rg'" using inv by (simp add: cache_inv_def)
  have "holdings (BUF ?v) ?rg' (0x300, n) = Some 0x100000" using v unfolding holdings_Some [OF one] by simp
  moreover have "length ?rg' = 989" using xr len by (simp add: length_remove1 del: upt_Suc upt_rec_numeral)
  ultimately show ?thesis using inv v by blast
qed

theorem bread_brelse_witness:
  "\<exists>(s :: fs) t. bread (some_platform Inr) 0x300 0 s = Inr (0x100000, t) \<and> b_count (BUF t 0x100000) = 2"
proof -
  obtain s :: fs and rg where s: "cache_inv s rg" "length rg = 989" "holdings (BUF s) rg (0x300, 0) = Some 0x100000"
    "b_lock (BUF s 0x100000) = 0" "b_uptodate (BUF s 0x100000) = 1" "b_count (BUF s 0x100000) = 1"
    using one_block_cached by blast
  have f: "length rg < pf_fuel (some_platform Inr)" using s(2) by (simp add: some_platform_def)
  have c: "b_uptodate (BUF s 0x100000) \<noteq> 0" "b_count (BUF s 0x100000) \<noteq> 255" using s(5,6) by simp_all
  obtain t where "bread (some_platform Inr) (ucast (0x300 :: u16)) 0 s = Inr (0x100000, t)" "b_count (BUF t 0x100000) = b_count (BUF s 0x100000) + 1"
    using bread_brelse [OF s(1,3,4) c f] by blast
  then show ?thesis using s(6) by (intro exI [of _ s] exI [of _ t]) simp
qed

end
