(* ===== verification/Kernel.thy ===== *)
theory Kernel
  imports Inode
begin

section \<open>System calls, exceptions and the start of the kernel\<close>

text \<open>
  \<^verbatim>\<open>fs/read_write.c\<close>, \<^verbatim>\<open>fs/char_dev.c\<close>, \<open>sysSetup\<close> of \<^verbatim>\<open>kernel/blk_drv/harddisk.c\<close>,
  \<^verbatim>\<open>kernel/int_handler.c\<close>, \<^verbatim>\<open>init/cinit.c\<close>, \<open>printf\<close> of \<^verbatim>\<open>kernel/print.c\<close> and
  \<^verbatim>\<open>kernel/main.c\<close>. Characters that a caller hands over by address are read from \<open>DATA\<close>.
\<close>

definition bytes_at :: "(u32 \<Rightarrow> u8) \<Rightarrow> u32 \<Rightarrow> nat \<Rightarrow> u8 list" where
  "bytes_at m a n = map (\<lambda>i. m (a + of_nat i)) [0..<n]"

subsection \<open>Character devices\<close>

datatype crw = RwTtyx

definition CRW_TABLE :: "crw option list" where
  "CRW_TABLE = [None, None, None, None, Some RwTtyx, None, None, None]"

text \<open>
  \<open>ttyRead\<close> has an empty body and so no result to return. A count that is negative as a signed number
  writes nothing.
\<close>

definition rwTtyx ::
  "'a blk_scheme platform \<Rightarrow> t32 \<Rightarrow> u32 \<Rightarrow> u32 \<Rightarrow> t32 \<Rightarrow> 'a blk_scheme \<Rightarrow> (t32 \<times> 'a blk_scheme) outcome" where
  "rwTtyx pf rw minor buf count s =
     (if rw = READ then Inl (Fault ''ttyRead'')
      else andThen
        (ttyWrite (pf_fuel pf) (unat minor) (bytes_at (DATA s) buf (if sint count > 0 then unat count else 0)) s)
        (\<lambda>(n, s). Inr (of_nat n, s)))"

definition rwChar ::
  "'a blk_scheme platform \<Rightarrow> t32 \<Rightarrow> u32 \<Rightarrow> u32 \<Rightarrow> t32 \<Rightarrow> 'a blk_scheme \<Rightarrow> (t32 \<times> 'a blk_scheme) outcome" where
  "rwChar pf rw dev buf count s =
     (if MAJOR dev \<ge> of_nat (length CRW_TABLE) then Inr (- 1, s)
      else case CRW_TABLE ! unat (MAJOR dev) of
             None \<Rightarrow> Inr (- 1, s)
           | Some RwTtyx \<Rightarrow> rwTtyx pf rw (MINOR dev) buf count s)"

subsection \<open>System calls\<close>

definition S_ISCHR :: "u16 \<Rightarrow> bool" where
  "S_ISCHR m \<longleftrightarrow> m AND 0xF000 = 0x2000"

definition sysWrite ::
  "'a blk_scheme platform \<Rightarrow> u32 \<Rightarrow> u32 \<Rightarrow> u32 \<Rightarrow> 'a blk_scheme \<Rightarrow> (t32 \<times> 'a blk_scheme) outcome" where
  "sysWrite pf fd buf count s =
     (if fd \<ge> of_nat NR_OPEN \<or> p_filp (PROC s (CURRENT s)) (unat fd) = 0 then Inr (- 1, s)
      else if count = 0 then Inr (0, s)
      else
        let inode = INODES s (f_inode (FILES s (p_filp (PROC s (CURRENT s)) (unat fd))))
        in if S_ISCHR (i_mode inode) then rwChar pf WRITE (ucast (i_zone inode 0)) buf count s
           else andThen (kmsg pf (''(Write)inode->i_mode=%x'' @ [CHR 0x0A, CHR 0x0D]) (\<lambda>_. ucast (i_mode inode)) s)
                  (\<lambda>s. Inr (- 1, s)))"

text \<open>\<open>sysSetup\<close>: the parameters of the drive from the table of the BIOS, and the partition table.\<close>

definition drive_parameters :: "(u32 \<Rightarrow> u8) \<Rightarrow> u32 \<Rightarrow> hard_disk" where
  "drive_parameters m info =
     \<lparr>hd_head = ucast (m (info + 2)), hd_sector = ucast (m (info + 14)),
      hd_cylinder = ucast (m info) + 256 * ucast (m (info + 1)),
      hd_wpcom = ucast (m (info + 5)) + 256 * ucast (m (info + 6)),
      hd_lzone = ucast (m (info + 12)), hd_ctrl = ucast (m (info + 8))\<rparr>"

definition sysSetup :: "'a fs_scheme platform \<Rightarrow> u32 \<Rightarrow> 'a fs_scheme \<Rightarrow> (t32 \<times> 'a fs_scheme) outcome" where
  "sysSetup pf drv_info s =
     (let s = s\<lparr>HARD_DISK_INFO := drive_parameters (DATA s) drv_info\<rparr>;
          s = outByte 0x70 0x92 s;
          (cmos_disks, s) = inByte (pf_dev pf) 0x71 s
      in if cmos_disks AND 0xF0 = 0 then Inl (Hang ''sysSetup'')
         else
           let h = HARD_DISK_INFO s;
               s = s\<lparr>HD_INFO := (HD_INFO s)(0 := \<lparr>start_sector = 0, cnt_sectors = hd_head h * hd_sector h * hd_cylinder h\<rparr>)\<rparr>
           in andThen (bread pf 0x300 0 s) (\<lambda>(bh, s).
              if bh = 0
              then andThen (kmsg pf (''Unable to read partition table of drive'' @ [CHR 0x0A, CHR 0x0D]) (\<lambda>_. 0) s)
                     (\<lambda>_. Inl (Hang ''sysSetup''))
              else if DATA s (b_data (BUF s bh) + 510) \<noteq> 0x55 \<or> DATA s (b_data (BUF s bh) + 511) \<noteq> 0xAA
              then andThen (kmsg pf (''Bad partition table on drive'' @ [CHR 0x0A, CHR 0x0D]) (\<lambda>_. 0) s)
                     (\<lambda>_. Inl (Hang ''sysSetup''))
              else Inr (0, s)))"

text \<open>
  The table of system calls, and the call through it; the entry code does not test the number. The
  arguments are the registers EDX, ECX and EBX of the caller. What the entry code does after the call
  is in the theory \<open>Entry\<close>.
\<close>

datatype sys_call = SYS_FORK | SYS_PAUSE | SYS_SETUP | SYS_WRITE

definition SYS_CALL_TABLE :: "sys_call list" where
  "SYS_CALL_TABLE = [SYS_FORK, SYS_PAUSE, SYS_SETUP, SYS_WRITE]"

definition sysCall ::
  "'a fs_scheme platform \<Rightarrow> u32 \<Rightarrow> regs \<Rightarrow> 'a fs_scheme \<Rightarrow> (t32 \<times> 'a fs_scheme) outcome" where
  "sysCall pf eax r s =
     (if unat eax \<ge> length SYS_CALL_TABLE then Inl (Fault ''SYS_CALL_TABLE'')
      else
        case SYS_CALL_TABLE ! unat eax of
          SYS_FORK \<Rightarrow> sysFork (pf_fuel pf) r s
        | SYS_PAUSE \<Rightarrow> sysPause pf s
        | SYS_SETUP \<Rightarrow> sysSetup pf (r_EDX r) s
        | SYS_WRITE \<Rightarrow> sysWrite pf (r_EDX r) (r_ECX r) (r_EBX r) s)"

subsection \<open>Programs\<close>

text \<open>The four stubs that the programs use to enter the kernel.\<close>

definition fork_stub :: "'a fs_scheme platform \<Rightarrow> regs \<Rightarrow> 'a fs_scheme \<Rightarrow> (t32 \<times> 'a fs_scheme) outcome" where
  "fork_stub pf r s = sysCall pf 0 r s"

definition pause_stub :: "'a fs_scheme platform \<Rightarrow> regs \<Rightarrow> 'a fs_scheme \<Rightarrow> (t32 \<times> 'a fs_scheme) outcome" where
  "pause_stub pf r s = sysCall pf 1 r s"

definition setup_stub :: "'a fs_scheme platform \<Rightarrow> regs \<Rightarrow> u32 \<Rightarrow> 'a fs_scheme \<Rightarrow> (t32 \<times> 'a fs_scheme) outcome" where
  "setup_stub pf r drv_info s = sysCall pf 2 (r\<lparr>r_EDX := drv_info\<rparr>) s"

definition write_stub ::
  "'a fs_scheme platform \<Rightarrow> regs \<Rightarrow> u32 \<Rightarrow> u32 \<Rightarrow> u32 \<Rightarrow> 'a fs_scheme \<Rightarrow> (t32 \<times> 'a fs_scheme) outcome" where
  "write_stub pf r fd buf count s = sysCall pf 3 (r\<lparr>r_EDX := fd, r_ECX := buf, r_EBX := count\<rparr>) s"

text \<open>
  \<open>printf\<close> formats into a buffer of 512 characters at the address \<open>buf\<close>, and writes it to file 1. It runs in
  the segments of the process, so the characters go to the linear address \<open>buf\<close> above the base of its data
  segment; the address that the system call passes on is \<open>buf\<close> itself, which the kernel uses with its own
  segments, from address 0. \<open>DATA\<close> holds the bytes by linear address.
\<close>

definition printf ::
  "'a fs_scheme platform \<Rightarrow> regs \<Rightarrow> u32 \<Rightarrow> t8 list \<Rightarrow> (nat \<Rightarrow> u32) \<Rightarrow> 'a fs_scheme \<Rightarrow> (nat \<times> 'a fs_scheme) outcome" where
  "printf pf r buf fmt args s =
     andThen (vsprintf (pf_str pf) args 0 fmt) (\<lambda>text.
       if length text + 1 > 512 then Inl (Fault ''user_buf'')
       else
         let base = getDescBase (p_ldt (PROC s (CURRENT s)) 2)
         in andThen (write_stub pf r 1 buf (of_nat (length text)) (store_bytes (base + buf) (text @ [0]) s))
              (\<lambda>(_, s). Inr (length text, s)))"

text \<open>The first process: \<open>init\<close> runs in its child, and the process itself pauses for ever.\<close>

definition init :: "'a fs_scheme platform \<Rightarrow> regs \<Rightarrow> 'a fs_scheme \<Rightarrow> 'a fs_scheme outcome" where
  "init pf r s = andThen (setup_stub pf r 0x9A010 s) (\<lambda>_. Inl (Hang ''init''))"

primrec pause_loop :: "nat \<Rightarrow> 'a fs_scheme platform \<Rightarrow> regs \<Rightarrow> 'a fs_scheme \<Rightarrow> 'a fs_scheme outcome" where
  "pause_loop 0 pf r s = Inl NoFuel"
| "pause_loop (Suc n) pf r s = andThen (pause_stub pf r s) (\<lambda>(_, s). pause_loop n pf r s)"

definition cmain :: "'a fs_scheme platform \<Rightarrow> regs \<Rightarrow> 'a fs_scheme \<Rightarrow> 'a fs_scheme outcome" where
  "cmain pf r s =
     andThen (fork_stub pf r s) (\<lambda>(rs, s). if rs = 0 then init pf r s else pause_loop (pf_fuel pf) pf r s)"

subsection \<open>Exceptions\<close>

definition err_description :: "string list" where
  "err_description =
    [''#DE Divide Error'',
     ''#DB RESERVED'',
     ''- NMI Interrupt'',
     ''#BP Breakpoint'',
     ''#OF Overflow'',
     ''#BR BOUND Range Exception'',
     ''#UD Invalid Opcode {Undefined Opcode}'',
     ''#NM Device not Available {No Math Coprocessor}'',
     ''#DF Double Fault'',
     ''Coprocessor Segment Overrun {reserved}'',
     ''#TS Invalid TSS'',
     ''#NP Segment Not Present'',
     ''#SS Stack-Segment Fault'',
     ''#GP General Protection'',
     ''#PF Page Fault'',
     ''- {Intel reserved. Do Notuse}'',
     ''#MF x87 FPU Floating-Poing Error {Math Fault}'',
     ''#AC Alignment Check'',
     ''#MC Machine Check'',
     ''#XF SIMD Floating-Poing Exception'']"

text \<open>
  \<open>syserrHandler\<close> prints the five values the entry code pushed; \<open>err_text\<close> is the address of the
  description on the stack.
\<close>

definition with_string :: "u32 \<Rightarrow> t8 list \<Rightarrow> 's platform \<Rightarrow> 's platform" where
  "with_string a cs pf = pf\<lparr>pf_str := (pf_str pf)\<lparr>string_at := (string_at (pf_str pf))(a := cs)\<rparr>\<rparr>"

definition syserrHandler ::
  "'a kernel_scheme platform \<Rightarrow> u32 \<Rightarrow> t32 \<Rightarrow> t32 \<Rightarrow> t32 \<Rightarrow> t32 \<Rightarrow> t32 \<Rightarrow> 'a kernel_scheme \<Rightarrow> 'a kernel_scheme outcome" where
  "syserrHandler pf err_text err_no err_code eip cs eflags s =
     (if unat err_no \<ge> length err_description then Inl (Fault ''err_description'')
      else
        let pf' = with_string err_text (map of_char (err_description ! unat err_no)) pf
        in andThen (kmsg pf' (''Exception! --> %s'' @ [CHR 0x0A]) (\<lambda>_. err_text) s) (\<lambda>s.
           andThen (kmsg pf (''Vector:%X'' @ [CHR 0x0A]) (\<lambda>_. err_no) s) (\<lambda>s.
           andThen (kmsg pf (''Error code:%X'' @ [CHR 0x0A]) (\<lambda>_. err_code) s) (\<lambda>s.
           andThen (kmsg pf (''EIP:%X'' @ [CHR 0x0A]) (\<lambda>_. eip) s) (\<lambda>s.
           andThen (kmsg pf (''CS:%X'' @ [CHR 0x0A]) (\<lambda>_. cs) s) (\<lambda>s.
           kmsg pf (''EFLAGS:%X'' @ [CHR 0x0A]) (\<lambda>_. eflags) s))))))"

subsection \<open>The start of the kernel\<close>

text \<open>
  The registers of the processor that \<open>cinit\<close> loads, and the two pseudo-descriptors it loads them from,
  as pairs of limit and base.
\<close>

record sys = fs +
  GDT_PTR :: "u16 \<times> u32"
  IDT_PTR :: "u16 \<times> u32"
  gdtr :: "u16 \<times> u32"
  idtr :: "u16 \<times> u32"
  task_register :: u16
  ldt_register :: u16
  ROOT_DEV :: t32

definition lgdtr :: "u16 \<times> u32 \<Rightarrow> 'a sys_scheme \<Rightarrow> 'a sys_scheme" where
  "lgdtr p s = s\<lparr>gdtr := p\<rparr>"

definition lidtr :: "u16 \<times> u32 \<Rightarrow> 'a sys_scheme \<Rightarrow> 'a sys_scheme" where
  "lidtr p s = s\<lparr>idtr := p\<rparr>"

definition ltr :: "u16 \<Rightarrow> 'a sys_scheme \<Rightarrow> 'a sys_scheme" where
  "ltr sel s = s\<lparr>task_register := sel\<rparr>"

definition lldtr :: "u16 \<Rightarrow> 'a sys_scheme \<Rightarrow> 'a sys_scheme" where
  "lldtr sel s = s\<lparr>ldt_register := sel\<rparr>"

text \<open>The descriptor in the two words at an address.\<close>

definition descriptor_at :: "(u32 \<Rightarrow> u32) \<Rightarrow> u32 \<Rightarrow> descriptor" where
  "descriptor_at m a =
     \<lparr>limit_low = ucast (m a), base_low = ucast (drop_bit 16 (m a)), base_mid = ucast (m (a + 4)),
      attr1 = ucast (drop_bit 8 (m (a + 4))), limit_high_attr2 = ucast (drop_bit 16 (m (a + 4))),
      base_high = ucast (drop_bit 24 (m (a + 4)))\<rparr>"

text \<open>
  The copy of the table the boot loader has built: \<^verbatim>\<open>limit + 1\<close> bytes, which must fit into \<^verbatim>\<open>GDT\<close>; the
  limit is read as a signed number. A table consists of whole entries of 8 bytes.
\<close>

definition copy_gdt :: "'a sys_scheme \<Rightarrow> 'a sys_scheme outcome" where
  "copy_gdt s =
     (let n = sint (fst (GDT_PTR s)) + 1
      in if n < 0 \<or> n > 8 * int GDT_SIZE then Inl (Fault ''GDT'')
         else Inr (s\<lparr>GDT := (\<lambda>i. if int i < n div 8 then descriptor_at (ram s) (snd (GDT_PTR s) + 8 * of_nat i)
                     else GDT s i)\<rparr>))"

definition cinit ::
  "'a sys_scheme platform \<Rightarrow> (isr \<Rightarrow> u32) \<Rightarrow> u32 \<Rightarrow> u32 \<Rightarrow> 'a sys_scheme \<Rightarrow> 'a sys_scheme outcome" where
  "cinit pf entry gdt idt s =
     andThen (copy_gdt s) (\<lambda>s.
       let s = s\<lparr>GDT_PTR := (of_nat (GDT_SIZE * 8 - 1), gdt)\<rparr>;
           s = s\<lparr>IDT_PTR := (of_nat (IDT_SIZE * 8 - 1), idt)\<rparr>;
           s = lidtr (IDT_PTR s) (lgdtr (GDT_PTR s) s);
           s = s\<lparr>ROOT_DEV := ram s 0x9A004\<rparr>;
           s = init8259A (initIdtDesc entry s)
       in andThen (initTime (pf_dev pf) s) (\<lambda>s.
          andThen (initMemory (ram s 0x9A000) s) (\<lambda>s.
          andThen (initBuffer (ram s 0x9A000) s) (\<lambda>s.
            let s = initBlkDev (initSchedule pf s);
                s = initTty (pf_dev pf) (initHarddisk (pf_dev pf) s)
            in Inr (lldtr (ucast SELECTOR_FIRST_TASK_LDT) (ltr (ucast SELECTOR_FIRST_TASK_TSS) s))))))"

end
