(* ===== verification/Boot.thy ===== *)
theory Boot
  imports Caching Kernel
begin

section \<open>The start of the kernel, as a whole\<close>

text \<open>
  The composition of the initialisations: what each of them leaves alone, and what \<open>cinit\<close> leaves behind
  when it has run them all.
\<close>

subsection \<open>What each initialisation leaves alone\<close>

lemma enableIrq_tables:
  "GDT (enableIrq dev i s) = GDT s" "IDT (enableIrq dev i s) = IDT s" "clock.more (enableIrq dev i u) = clock.more u"
  "TTY_TABLE (enableIrq dev i v) = TTY_TABLE v" "con_origin (enableIrq dev i v) = con_origin v"
  "con_scr_end (enableIrq dev i v) = con_scr_end v"
  by (simp_all add: enableIrq_def io_defs Let_def)

lemma init8259A_frame: "io.more (init8259A s) = io.more s"
  by (simp add: init8259A_def outByte_def)

lemma prot_of_io: "io.more t = io.more s \<Longrightarrow> GDT t = GDT s \<and> IDT t = IDT s \<and> IRQ_TABLE t = IRQ_TABLE s \<and> prot.more t = prot.more s"
  by (cases s; cases t) simp

lemma initIdtDesc_frame: "prot.more (initIdtDesc entry s) = prot.more s" "GDT (initIdtDesc entry s) = GDT s"
  "IRQ_TABLE (initIdtDesc entry s) = IRQ_TABLE s"
proof -
  have "prot.more (fold (\<lambda>(w, h, p). setIdtDesc entry w t h p) xs s) = prot.more s \<and>
      GDT (fold (\<lambda>(w, h, p). setIdtDesc entry w t h p) xs s) = GDT s \<and>
      IRQ_TABLE (fold (\<lambda>(w, h, p). setIdtDesc entry w t h p) xs s) = IRQ_TABLE s" for xs t
    by (induction xs arbitrary: s) (auto simp: setIdtDesc_def Let_def)
  then show "prot.more (initIdtDesc entry s) = prot.more s" "GDT (initIdtDesc entry s) = GDT s"
    "IRQ_TABLE (initIdtDesc entry s) = IRQ_TABLE s" by (simp_all add: initIdtDesc_def)
qed

lemma initTime_frame:
  assumes "cmos_shows dev regs" and "mkTime (startup_ctime regs) = Inr r"
  shows "\<exists>s'. initTime dev s = Inr s' \<and> STARTUP_TIME s' = r \<and> TICKS s' = 0 \<and>
    IRQ_TABLE s' = (IRQ_TABLE s)(0 := Some TimerHandler) \<and> GDT s' = GDT s \<and> IDT s' = IDT s \<and> clock.more s' = clock.more s"
  using assms
  by (simp add: initTime_def readCmos_shows startup_ctime_def putIrqHandler_def outByte_def enableIrq_tables)

lemma initMemory_frame: "initMemory m s = Inr s' \<Longrightarrow> \<exists>M. s' = s\<lparr>MEM_MAP := M\<rparr>"
  unfolding initMemory_def Let_def by (auto split: if_splits)

text \<open>The part of the state that \<open>initBuffer\<close> never touches.\<close>

definition outside_cache :: "'a fs_scheme \<Rightarrow> 'a fs_scheme \<Rightarrow> bool" where
  "outside_cache s t \<longleftrightarrow> clock.truncate t = clock.truncate s \<and> console.truncate t = console.truncate s \<and>
     MEM_MAP t = MEM_MAP s \<and> DEVICE_INTR t = DEVICE_INTR s \<and> fs.more t = fs.more s"

lemma outside_cache_refl: "outside_cache s s"
  by (simp add: outside_cache_def)

lemma outside_cache_trans: "outside_cache s t \<Longrightarrow> outside_cache t u \<Longrightarrow> outside_cache s u"
  by (simp add: outside_cache_def)

lemma init_head_outside: "outside_cache s (init_head b h s)" "outside_cache s (s\<lparr>NR_BUFFERS := n\<rparr>)"
  by (simp_all add: outside_cache_def init_head_def upd_buf_def set_waitq_def clock.truncate_def console.truncate_def)

lemma close_ring_outside: "outside_cache s (close_ring h s)"
  by (simp add: outside_cache_def close_ring_def upd_buf_def set_waitq_def Let_def clock.truncate_def console.truncate_def)

lemma buffer_loop_outside: "buffer_loop n b h s = Inr (h', t) \<Longrightarrow> outside_cache s t"
proof (induction n arbitrary: b h s)
  case (Suc n)
  show ?case
  proof (cases "b - BLOCK_SIZE \<ge> h + 36")
    case True
    let ?u = "init_head (b - BLOCK_SIZE) h s"
    have "buffer_loop n (b - BLOCK_SIZE) (h + 36) (?u\<lparr>NR_BUFFERS := NR_BUFFERS ?u + 1\<rparr>) = Inr (h', t)"
      using Suc.prems True by (simp add: Let_def)
    from Suc.IH [OF this] show ?thesis
      using init_head_outside(1) [of s "b - BLOCK_SIZE" h] init_head_outside(2) [of ?u "NR_BUFFERS ?u + 1"] outside_cache_trans by blast
  qed (use Suc.prems in \<open>simp add: Let_def outside_cache_refl\<close>)
qed simp

lemma initBuffer_outside: "initBuffer m s = Inr s' \<Longrightarrow> outside_cache s s'"
  unfolding initBuffer_def Let_def
  by (auto split: if_splits dest!: buffer_loop_outside intro: outside_cache_trans close_ring_outside)


lemma outside_cacheD:
  assumes "outside_cache s t"
  shows "GDT t = GDT s" "IDT t = IDT s" "IRQ_TABLE t = IRQ_TABLE s" "STARTUP_TIME t = STARTUP_TIME s" "TICKS t = TICKS s"
    "TTY_TABLE t = TTY_TABLE s" "con_origin t = con_origin s" "con_scr_end t = con_scr_end s"
    "MEM_MAP t = MEM_MAP s" "DEVICE_INTR t = DEVICE_INTR s" "fs.more t = fs.more s"
  using assms by (auto simp: outside_cache_def clock.truncate_def console.truncate_def)

subsection \<open>The processes, the disk and the terminals\<close>

lemma upd_req_fold:
  "fold (\<lambda>i. upd_req i f) [0..<n] s = s\<lparr>REQUEST_INFO := (\<lambda>i. if i < n then f (REQUEST_INFO s i) else REQUEST_INFO s i)\<rparr>"
  by (induction n) (auto simp: upd_req_def fun_eq_iff less_Suc_eq)

lemma upd_dev_fold:
  "fold (\<lambda>i. upd_dev i f) [0..<n] s = s\<lparr>BLK_DEV_INFO := (\<lambda>i. if i < n then f (BLK_DEV_INFO s i) else BLK_DEV_INFO s i)\<rparr>"
  by (induction n) (auto simp: upd_dev_def fun_eq_iff less_Suc_eq)

lemma initBlkDev_result:
  "\<exists>R D. initBlkDev s = s\<lparr>BLK_DEV_INFO := D, REQUEST_INFO := R\<rparr> \<and> (\<forall>i < 32. r_dev (R i) = - 1 \<and> r_next (R i) = None) \<and>
     (\<forall>d < 7. D d = \<lparr>request_fn = None, current_request = None\<rparr>)"
proof -
  let ?R = "\<lambda>i. if i < 32 then (REQUEST_INFO s i)\<lparr>r_dev := - 1, r_next := None\<rparr> else REQUEST_INFO s i"
  let ?D = "\<lambda>d. if d < 7 then (BLK_DEV_INFO s d)\<lparr>request_fn := None, current_request := None\<rparr> else BLK_DEV_INFO s d"
  have "initBlkDev s = s\<lparr>BLK_DEV_INFO := ?D, REQUEST_INFO := ?R\<rparr>"
    unfolding initBlkDev_def upd_dev_fold upd_req_fold
    by (rule arg_cong [where f = "\<lambda>R. s\<lparr>BLK_DEV_INFO := ?D, REQUEST_INFO := R\<rparr>"]) (simp add: fun_eq_iff)
  then show ?thesis by (intro exI [of _ ?R] exI [of _ ?D]) simp
qed

lemma initSchedule_frame:
  "GDT (initSchedule pf s) = (GDT s)(3 := setGdtDesc (GDT s 3) (init_tasks pf + 720) 104 DA_386TSS,
     4 := setGdtDesc (GDT s 4) (init_tasks pf + 696) 24 DA_LDT)"
  "IDT (initSchedule pf s) = IDT s" "IRQ_TABLE (initSchedule pf s) = IRQ_TABLE s"
  "STARTUP_TIME (initSchedule pf s) = STARTUP_TIME s" "TICKS (initSchedule pf s) = TICKS s"
  "TTY_TABLE (initSchedule pf s) = TTY_TABLE s" "con_origin (initSchedule pf s) = con_origin s"
  "con_scr_end (initSchedule pf s) = con_scr_end s" "MEM_MAP (initSchedule pf s) = MEM_MAP s"
  "PROC (initSchedule pf s) (init_tasks pf) = first_process (init_tasks pf)" "kernel.more (initSchedule pf s) = kernel.more s"
  by (simp_all add: initSchedule_def Let_def)


lemma initConsole_result:
  "\<exists>T I. initConsole s = s\<lparr>con_x := 0, con_y := 9, con_top := 0, con_bottom := 25,
     con_pos := 0xB8000 + 9 * 160 + 0 * 2, trace := T, int_flag := I\<rparr>"
  unfolding initConsole_def setCursor_def setOrigin_def io_defs Let_def by (intro exI) simp

text \<open>The four initialisations after the buffers, together.\<close>

lemma last_inits:
  fixes s :: "'a fs_scheme" and pf :: "'a fs_scheme platform"
  defines "t \<equiv> initTty (pf_dev pf) (initHarddisk (pf_dev pf) (initBlkDev (initSchedule pf s)))"
  shows "GDT t = (GDT s)(3 := setGdtDesc (GDT s 3) (init_tasks pf + 720) 104 DA_386TSS,
      4 := setGdtDesc (GDT s 4) (init_tasks pf + 696) 24 DA_LDT)"
    "IDT t = IDT s" "IRQ_TABLE t = (IRQ_TABLE s)(14 := DEVICE_INTR s, 1 := Some KeyboardHandler)"
    "STARTUP_TIME t = STARTUP_TIME s" "TICKS t = TICKS s" "TTY_TABLE t = TTY_TABLE s" "MEM_MAP t = MEM_MAP s"
    "con_origin s = 0xB8000 \<Longrightarrow> con_scr_end s = 0xB8FA0 \<Longrightarrow> con_inv t"
    "PROC t (init_tasks pf) = first_process (init_tasks pf)"
    "\<forall>i < 32. r_dev (REQUEST_INFO t i) = - 1 \<and> r_next (REQUEST_INFO t i) = None"
    "\<forall>d < 7. BLK_DEV_INFO t d = \<lparr>request_fn = if d = 3 then Some HarddiskRequest else None, current_request = None\<rparr>"
    "BUF t = BUF s" "BUFFER_FREE_LIST t = BUFFER_FREE_LIST s" "BUFFER_HASH_TABLE t = BUFFER_HASH_TABLE s"
    "NR_BUFFERS t = NR_BUFFERS s" "fs.more t = fs.more s"
proof -
  define a where "a = initSchedule pf s"
  note A = initSchedule_frame [of pf s, folded a_def]
  obtain R D where b: "initBlkDev a = a\<lparr>BLK_DEV_INFO := D, REQUEST_INFO := R\<rparr>"
    and R: "\<forall>i < 32. r_dev (R i) = - 1 \<and> r_next (R i) = None"
    and D: "\<forall>d < 7. D d = \<lparr>request_fn = None, current_request = None\<rparr>" using initBlkDev_result [of a] by blast
  define c where "c = initHarddisk (pf_dev pf) (initBlkDev a)"
  have ax: "DEVICE_INTR a = DEVICE_INTR s" "BUF a = BUF s" "BUFFER_FREE_LIST a = BUFFER_FREE_LIST s"
    "BUFFER_HASH_TABLE a = BUFFER_HASH_TABLE s" "NR_BUFFERS a = NR_BUFFERS s" "fs.more a = fs.more s"
    by (simp_all add: a_def initSchedule_def Let_def)
  have tr: "\<exists>T. enableIrq dev i u = u\<lparr>trace := T\<rparr>" for dev i and u :: "'a fs_scheme"
    by (intro exI) (simp add: enableIrq_def io_defs Let_def)
  let ?D = "D(3 := (D 3)\<lparr>request_fn := Some HarddiskRequest\<rparr>)"
  define b' where "b' = a\<lparr>BLK_DEV_INFO := D, REQUEST_INFO := R\<rparr>\<lparr>hd_reset := False, hd_recalibrate := False\<rparr>"
  define b'' where "b'' = putIrqHandler 14 (DEVICE_INTR (upd_dev 3 (\<lambda>d. d\<lparr>request_fn := Some HarddiskRequest\<rparr>) b'))
    (upd_dev 3 (\<lambda>d. d\<lparr>request_fn := Some HarddiskRequest\<rparr>) b')"
  have "c = enableIrq (pf_dev pf) 14 b''" unfolding c_def initHarddisk_def b Let_def b'_def b''_def ..
  then obtain T where c: "c = b''\<lparr>trace := T\<rparr>" using tr [of "pf_dev pf" 14 b''] by auto
  obtain X I where x: "initConsole c = c\<lparr>con_x := 0, con_y := 9, con_top := 0, con_bottom := 25,
     con_pos := 0xB8000 + 9 * 160 + 0 * 2, trace := X, int_flag := I\<rparr>" using initConsole_result by blast
  obtain U where u: "enableIrq (pf_dev pf) 1 (initConsole c) = (initConsole c)\<lparr>trace := U\<rparr>" using tr by blast
  define d where "d = initConsole c"
  have t: "t = d\<lparr>trace := U, IRQ_TABLE := (IRQ_TABLE d)(1 := Some KeyboardHandler)\<rparr>"
    unfolding t_def initTty_def a_def [symmetric] c_def [symmetric] putIrqHandler_def u d_def by simp
  have d: "GDT d = GDT a" "IDT d = IDT a" "IRQ_TABLE d = (IRQ_TABLE a)(14 := DEVICE_INTR a)"
    "STARTUP_TIME d = STARTUP_TIME a" "TICKS d = TICKS a" "TTY_TABLE d = TTY_TABLE a" "MEM_MAP d = MEM_MAP a"
    "PROC d = PROC a" "REQUEST_INFO d = R" "BLK_DEV_INFO d = ?D"
    unfolding d_def x unfolding c b''_def b'_def putIrqHandler_def upd_dev_def by simp_all
  have d': "BUF d = BUF a" "BUFFER_FREE_LIST d = BUFFER_FREE_LIST a" "BUFFER_HASH_TABLE d = BUFFER_HASH_TABLE a"
    "NR_BUFFERS d = NR_BUFFERS a" "fs.more d = fs.more a" "con_origin d = con_origin a" "con_scr_end d = con_scr_end a"
    "con_x d = 0" "con_y d = 9" "con_bottom d = 25" "con_pos d = 0xB8000 + 9 * 160 + 0 * 2"
    unfolding d_def x unfolding c b''_def b'_def putIrqHandler_def upd_dev_def by simp_all
  show "GDT t = (GDT s)(3 := setGdtDesc (GDT s 3) (init_tasks pf + 720) 104 DA_386TSS,
      4 := setGdtDesc (GDT s 4) (init_tasks pf + 696) 24 DA_LDT)" by (simp add: t d A(1))
  show "IDT t = IDT s" "IRQ_TABLE t = (IRQ_TABLE s)(14 := DEVICE_INTR s, 1 := Some KeyboardHandler)"
    "STARTUP_TIME t = STARTUP_TIME s" "TICKS t = TICKS s" "TTY_TABLE t = TTY_TABLE s" "MEM_MAP t = MEM_MAP s"
    by (simp_all add: t d A ax)
  show "PROC t (init_tasks pf) = first_process (init_tasks pf)" by (simp add: t d A)
  show "con_inv t" if "con_origin s = 0xB8000" "con_scr_end s = 0xB8FA0"
    using that by (simp add: con_inv_def t d' A)
  show "\<forall>i < 32. r_dev (REQUEST_INFO t i) = - 1 \<and> r_next (REQUEST_INFO t i) = None" using R by (simp add: t d)
  show "\<forall>d < 7. BLK_DEV_INFO t d = \<lparr>request_fn = if d = 3 then Some HarddiskRequest else None, current_request = None\<rparr>"
    using D by (simp add: t d)
  show "BUF t = BUF s" "BUFFER_FREE_LIST t = BUFFER_FREE_LIST s" "BUFFER_HASH_TABLE t = BUFFER_HASH_TABLE s"
    "NR_BUFFERS t = NR_BUFFERS s" "fs.more t = fs.more s" by (simp_all add: t d' ax)
qed


subsection \<open>The start of the kernel\<close>

lemma clock_above:
  assumes "clock.more t = clock.more s"
  shows "TTY_TABLE t = TTY_TABLE s" "con_origin t = con_origin s" "con_scr_end t = con_scr_end s" "MEM_MAP t = MEM_MAP s"
    "ram t = ram s" "DEVICE_INTR t = DEVICE_INTR s" "NR_BUFFERS t = NR_BUFFERS s" "fs.more t = fs.more s"
  using assms by (cases s; cases t; simp)+

lemma fs_above: "fs.more t = fs.more s \<Longrightarrow> gdtr t = gdtr s \<and> idtr t = idtr s \<and> ROOT_DEV t = ROOT_DEV s"
  by (cases s; cases t) simp

lemma prot_above: "prot.more t = prot.more s \<Longrightarrow> clock.more t = clock.more s"
  by (cases s; cases t) simp

text \<open>The first part of \<open>cinit\<close>, up to the interrupt controllers.\<close>

definition cinit_tables :: "(isr \<Rightarrow> u32) \<Rightarrow> u32 \<Rightarrow> u32 \<Rightarrow> 'a sys_scheme \<Rightarrow> 'a sys_scheme" where
  "cinit_tables entry gdt idt s =
     (let s = s\<lparr>GDT_PTR := (of_nat (GDT_SIZE * 8 - 1), gdt)\<rparr>;
          s = s\<lparr>IDT_PTR := (of_nat (IDT_SIZE * 8 - 1), idt)\<rparr>;
          s = lidtr (IDT_PTR s) (lgdtr (GDT_PTR s) s);
          s = s\<lparr>ROOT_DEV := ram s 0x9A004\<rparr>
      in init8259A (initIdtDesc entry s))"

lemma cinit_split:
  "cinit pf entry gdt idt s = andThen (copy_gdt s) (\<lambda>s.
     andThen (initTime (pf_dev pf) (cinit_tables entry gdt idt s)) (\<lambda>s.
     andThen (initMemory (ram s 0x9A000) s) (\<lambda>s.
     andThen (initBuffer (ram s 0x9A000) s) (\<lambda>s.
       Inr (lldtr (ucast SELECTOR_FIRST_TASK_LDT) (ltr (ucast SELECTOR_FIRST_TASK_TSS)
         (initTty (pf_dev pf) (initHarddisk (pf_dev pf) (initBlkDev (initSchedule pf s))))))))))"
  unfolding cinit_def cinit_tables_def Let_def ..

lemma cinit_tables_result:
  fixes s :: "'a sys_scheme" and entry gdt idt
  defines "t \<equiv> cinit_tables entry gdt idt s"
  shows "GDT t = GDT s" "IRQ_TABLE t = IRQ_TABLE s" "TTY_TABLE t = TTY_TABLE s" "con_origin t = con_origin s"
    "con_scr_end t = con_scr_end s" "MEM_MAP t = MEM_MAP s" "ram t = ram s" "DEVICE_INTR t = DEVICE_INTR s"
    "NR_BUFFERS t = NR_BUFFERS s" "gdtr t = (1023, gdt)" "idtr t = (2047, idt)" "ROOT_DEV t = ram s 0x9A004"
    "vector_isr v = Some h \<Longrightarrow> opens (IDT t v) (entry h) (if v \<in> {3, 4, 0x80} then 0xEE else 0x8E)"
proof -
  define u where "u = s\<lparr>GDT_PTR := (of_nat (GDT_SIZE * 8 - 1), gdt)\<rparr>\<lparr>IDT_PTR := (of_nat (IDT_SIZE * 8 - 1), idt)\<rparr>
    \<lparr>gdtr := (of_nat (GDT_SIZE * 8 - 1), gdt)\<rparr>\<lparr>idtr := (of_nat (IDT_SIZE * 8 - 1), idt)\<rparr>\<lparr>ROOT_DEV := ram s 0x9A004\<rparr>"
  have "t = init8259A (initIdtDesc entry u)"
    unfolding t_def cinit_tables_def Let_def lidtr_def lgdtr_def u_def by simp
  then have io: "io.more t = io.more (initIdtDesc entry u)" using init8259A_frame by simp
  note p = prot_of_io [OF this]
  have c: "clock.more t = clock.more u" by (rule prot_above) (simp add: p initIdtDesc_frame)
  have u: "GDT u = GDT s" "IRQ_TABLE u = IRQ_TABLE s" "TTY_TABLE u = TTY_TABLE s" "con_origin u = con_origin s"
    "con_scr_end u = con_scr_end s" "MEM_MAP u = MEM_MAP s" "ram u = ram s" "DEVICE_INTR u = DEVICE_INTR s"
    "NR_BUFFERS u = NR_BUFFERS s" "gdtr u = (1023, gdt)" "idtr u = (2047, idt)" "ROOT_DEV u = ram s 0x9A004"
    by (simp_all add: u_def)
  have m: "gdtr t = gdtr u" "idtr t = idtr u" "ROOT_DEV t = ROOT_DEV u"
    using fs_above [OF clock_above(8) [OF c]] by simp_all
  show "GDT t = GDT s" "IRQ_TABLE t = IRQ_TABLE s" by (simp_all add: p initIdtDesc_frame u)
  show "TTY_TABLE t = TTY_TABLE s" "con_origin t = con_origin s"
    "con_scr_end t = con_scr_end s" "MEM_MAP t = MEM_MAP s" "ram t = ram s" "DEVICE_INTR t = DEVICE_INTR s"
    "NR_BUFFERS t = NR_BUFFERS s" by (simp_all add: clock_above [OF c] u)
  show "gdtr t = (1023, gdt)" "idtr t = (2047, idt)" "ROOT_DEV t = ram s 0x9A004" by (simp_all add: m u)
  show "opens (IDT t v) (entry h) (if v \<in> {3, 4, 0x80} then 0xEE else 0x8E)" if "vector_isr v = Some h"
    using initIdtDesc_opens [OF that, of entry u] p by (simp only:)
qed


lemma quarter_page:
  assumes "(a :: nat) < 1024 * p"
  shows "a div 4096 < (p + 3) div 4"
proof -
  have "a div 4096 = a div 1024 div 4" by (simp add: div_mult2_eq [symmetric])
  also have "a div 1024 < p" using assms by (simp add: less_mult_imp_div_less mult.commute)
  then have "a div 1024 div 4 < (p + 3) div 4" by linarith
  finally show ?thesis .
qed

text \<open>The memory and the buffers, which \<open>cinit\<close> sets up one after the other from the same size.\<close>

lemma memory_and_buffers:
  fixes s :: "'a fs_scheme" and m :: u32
  defines "p \<equiv> unat m div 4096"
  assumes "ram s 0x9A000 = m" and "0x400000 \<le> sint m" and "sint m \<le> 0x3C00000" and "0 < nr_buffers (1024 * p)" and "NR_BUFFERS s = 0"
  shows "\<exists>t u. initMemory (ram s 0x9A000) s = Inr t \<and> initBuffer (ram t 0x9A000) t = Inr u \<and>
    outside_cache t u \<and> (\<exists>M. t = s\<lparr>MEM_MAP := M\<rparr>) \<and>
    (\<forall>i < 8192. MEM_MAP u i = (if i < (p + 3) div 4 then 100 else if i < p then 0 else MEM_MAP s i)) \<and>
    cache_inv u (map head_at [0..<nr_buffers (1024 * p)]) \<and> NR_BUFFERS u = of_nat (nr_buffers (1024 * p)) \<and>
    (\<forall>k < nr_buffers (1024 * p). b_dev (BUF u (head_at k)) = 0 \<and> clean_free (BUF u (head_at k)) \<and> b_data (BUF u (head_at k)) = block_at (1024 * p) k)"
proof -
  obtain t where t: "initMemory m s = Inr t" "ram t = ram s" "\<forall>i < 8192. MEM_MAP t i =
      (if i < (p + 3) div 4 then 100 else if i < p then 0 else MEM_MAP s i)"
    using initMemory_result [OF assms(3,4), of s] unfolding p_def by blast
  obtain M where M: "t = s\<lparr>MEM_MAP := M\<rparr>" using initMemory_frame [OF t(1)] by blast
  then have "NR_BUFFERS t = 0" using assms(6) by simp
  from initBuffer_result [OF assms(3,4) assms(5) [unfolded p_def] this, folded p_def]
  obtain u where u: "initBuffer m t = Inr u" "cache_inv u (map head_at [0..<nr_buffers (1024 * p)])"
    "NR_BUFFERS u = of_nat (nr_buffers (1024 * p))"
    "\<forall>k < nr_buffers (1024 * p). b_dev (BUF u (head_at k)) = 0 \<and> clean_free (BUF u (head_at k)) \<and> b_data (BUF u (head_at k)) = block_at (1024 * p) k" by blast
  note o' = initBuffer_outside [OF u(1)]
  have i: "initMemory (ram s 0x9A000) s = Inr t" "initBuffer (ram t 0x9A000) t = Inr u" using t(1,2) u(1) assms(2) by simp_all
  have mm: "\<forall>i < 8192. MEM_MAP u i = (if i < (p + 3) div 4 then 100 else if i < p then 0 else MEM_MAP s i)"
    unfolding outside_cacheD(9) [OF o'] by (rule t(3))
  show ?thesis by (intro exI conjI) (rule i o' M mm u)+
qed

text \<open>The stages of \<open>cinit\<close> up to the processes: the descriptor table, the interrupts and the clock.\<close>

lemma cinit_clock:
  fixes s :: "'a sys_scheme" and pf :: "'a sys_scheme platform" and entry gdt idt
  assumes "copy_gdt s = Inr (s\<lparr>GDT := G\<rparr>)" and "cmos_shows (pf_dev pf) regs" and "mkTime (startup_ctime regs) = Inr now"
  shows "\<exists>b. cinit pf entry gdt idt s = andThen (initMemory (ram b 0x9A000) b) (\<lambda>s. andThen (initBuffer (ram s 0x9A000) s) (\<lambda>s.
      Inr (lldtr (ucast SELECTOR_FIRST_TASK_LDT) (ltr (ucast SELECTOR_FIRST_TASK_TSS)
        (initTty (pf_dev pf) (initHarddisk (pf_dev pf) (initBlkDev (initSchedule pf s)))))))) \<and>
    STARTUP_TIME b = now \<and> TICKS b = 0 \<and> IRQ_TABLE b = (IRQ_TABLE s)(0 := Some TimerHandler) \<and> GDT b = G \<and>
    (\<forall>v h. vector_isr v = Some h \<longrightarrow> opens (IDT b v) (entry h) (if v \<in> {3, 4, 0x80} then 0xEE else 0x8E)) \<and>
    TTY_TABLE b = TTY_TABLE s \<and> con_origin b = con_origin s \<and> con_scr_end b = con_scr_end s \<and> MEM_MAP b = MEM_MAP s \<and>
    ram b = ram s \<and> DEVICE_INTR b = DEVICE_INTR s \<and> NR_BUFFERS b = NR_BUFFERS s \<and>
    gdtr b = (1023, gdt) \<and> idtr b = (2047, idt) \<and> ROOT_DEV b = ram s 0x9A004"
proof -
  define a where "a = cinit_tables entry gdt idt (s\<lparr>GDT := G\<rparr>)"
  note A = cinit_tables_result [where entry = entry and gdt = gdt and idt = idt and s = "s\<lparr>GDT := G\<rparr>", folded a_def, simplified]
  obtain b where b: "initTime (pf_dev pf) a = Inr b" "STARTUP_TIME b = now" "TICKS b = 0"
    "IRQ_TABLE b = (IRQ_TABLE a)(0 := Some TimerHandler)" "GDT b = GDT a" "IDT b = IDT a" "clock.more b = clock.more a"
    using initTime_frame [OF assms(2,3), of a] by blast
  note B = clock_above [OF b(7)]
  have run: "cinit pf entry gdt idt s = andThen (initMemory (ram b 0x9A000) b) (\<lambda>s. andThen (initBuffer (ram s 0x9A000) s) (\<lambda>s.
      Inr (lldtr (ucast SELECTOR_FIRST_TASK_LDT) (ltr (ucast SELECTOR_FIRST_TASK_TSS)
        (initTty (pf_dev pf) (initHarddisk (pf_dev pf) (initBlkDev (initSchedule pf s))))))))"
    unfolding cinit_split assms(1) andThen_simps a_def [symmetric] b(1) ..
  have gates: "\<forall>v h. vector_isr v = Some h \<longrightarrow> opens (IDT b v) (entry h) (if v \<in> {3, 4, 0x80} then 0xEE else 0x8E)"
    unfolding b(6) by (intro allI impI) (rule cinit_tables_result(13) [where entry = entry and gdt = gdt and idt = idt and s = "s\<lparr>GDT := G\<rparr>", folded a_def])
  show ?thesis
    by (intro exI [of _ b] conjI run gates b(2,3)) (use fs_above [OF B(8)] in \<open>simp_all add: b(4,5) B A\<close>)
qed

text \<open>C4. \<open>cinit\<close> brings up the kernel: from a state with the static data as compiled, a table of the boot
  loader of at most 1024 bytes, a sound clock and 60 MB of memory at most, two pages more than 4 MB at least (4 MB leave no room for a
  buffer), it returns, with the processor
  pointed at the kernel's own descriptor tables; the gate of every vector open to its entry; the time set;
  the descriptor table that of the boot loader, but for the two descriptors of process 0,
  which have the addresses, limits and kinds of its task segment and its local table; the request queue empty
  and the disk's request routine
  registered; the display ready; and the buffer cache built, every page it lies in reserved in the page map
  and every other page below the end of memory that the map has an entry for (it has 8192, for 32 MB)
  free. The disk's interrupt handler is what \<open>DEVICE_INTR\<close> was at compile time: none.\<close>

theorem cinit_boots:
  fixes s :: "'a sys_scheme" and pf :: "'a sys_scheme platform" and entry gdt idt
  defines "p \<equiv> unat (ram s 0x9A000) div 4096"
  assumes loader: "- 1 \<le> sint (fst (GDT_PTR s))" "sint (fst (GDT_PTR s)) < 1024"
    and clock: "cmos_shows (pf_dev pf) regs" "mkTime (startup_ctime regs) = Inr now"
    and memory: "0x402000 \<le> sint (ram s 0x9A000)" "sint (ram s 0x9A000) \<le> 0x3C00000"
    and static: "NR_BUFFERS s = 0" "con_origin s = 0xB8000" "con_scr_end s = 0xB8FA0" "tty_inv s" "DEVICE_INTR s = None"
  shows "\<exists>s'. cinit pf entry gdt idt s = Inr s' \<and>
    gdtr s' = (1023, gdt) \<and> idtr s' = (2047, idt) \<and> task_register s' = 0x18 \<and> ldt_register s' = 0x20 \<and> ROOT_DEV s' = ram s 0x9A004 \<and>
    (\<forall>v h. vector_isr v = Some h \<longrightarrow> opens (IDT s' v) (entry h) (if v \<in> {3, 4, 0x80} then 0xEE else 0x8E)) \<and>
    IRQ_TABLE s' = (IRQ_TABLE s)(0 := Some TimerHandler, 1 := Some KeyboardHandler, 14 := None) \<and>
    STARTUP_TIME s' = now \<and> TICKS s' = 0 \<and>
    (\<exists>G. copy_gdt s = Inr (s\<lparr>GDT := G\<rparr>) \<and>
       GDT s' = G(3 := setGdtDesc (G 3) (init_tasks pf + 720) 104 DA_386TSS, 4 := setGdtDesc (G 4) (init_tasks pf + 696) 24 DA_LDT)) \<and>
    PROC s' (init_tasks pf) = first_process (init_tasks pf) \<and>
    (\<forall>i < 32. r_dev (REQUEST_INFO s' i) = - 1) \<and>
    (\<forall>d < 7. BLK_DEV_INFO s' d = \<lparr>request_fn = if d = 3 then Some HarddiskRequest else None, current_request = None\<rparr>) \<and>
    con_inv s' \<and> tty_inv s' \<and>
    cache_inv s' (map head_at [0..<nr_buffers (1024 * p)]) \<and>
    (\<forall>k < nr_buffers (1024 * p). b_dev (BUF s' (head_at k)) = 0 \<and> clean_free (BUF s' (head_at k)) \<and> b_data (BUF s' (head_at k)) = block_at (1024 * p) k) \<and>
    (\<forall>a < 1024 * p. MEM_MAP s' (a div 4096) = 100) \<and> (\<forall>i < 8192. (p + 3) div 4 \<le> i \<and> i < p \<longrightarrow> MEM_MAP s' i = 0)"
proof -
  have size: "0x400000 \<le> sint (ram s 0x9A000)" "0 < nr_buffers (1024 * p)"
  proof -
    show four: "0x400000 \<le> sint (ram s 0x9A000)" using memory(1) by simp
    have "int (unat (ram s 0x9A000)) = sint (ram s 0x9A000)" using four by (intro unat_sint_u32) simp
    then have "0x402000 \<le> unat (ram s 0x9A000)" using memory(1) by linarith
    then have "0x402000 div 4096 \<le> p" unfolding p_def by (rule div_le_mono)
    then have "0x402 * 1024 \<le> 1024 * p" by simp
    then show "0 < nr_buffers (1024 * p)" by (simp add: nr_buffers_def div_greater_zero_iff)
  qed
  obtain G where g: "copy_gdt s = Inr (s\<lparr>GDT := G\<rparr>)" using loader by (simp add: copy_gdt_def Let_def)
  obtain b where run: "cinit pf entry gdt idt s = andThen (initMemory (ram b 0x9A000) b) (\<lambda>s. andThen (initBuffer (ram s 0x9A000) s) (\<lambda>s.
      Inr (lldtr (ucast SELECTOR_FIRST_TASK_LDT) (ltr (ucast SELECTOR_FIRST_TASK_TSS)
        (initTty (pf_dev pf) (initHarddisk (pf_dev pf) (initBlkDev (initSchedule pf s))))))))"
    and b: "STARTUP_TIME b = now" "TICKS b = 0" "IRQ_TABLE b = (IRQ_TABLE s)(0 := Some TimerHandler)" "GDT b = G"
      "\<forall>v h. vector_isr v = Some h \<longrightarrow> opens (IDT b v) (entry h) (if v \<in> {3, 4, 0x80} then 0xEE else 0x8E)"
    and B: "TTY_TABLE b = TTY_TABLE s" "con_origin b = con_origin s" "con_scr_end b = con_scr_end s" "MEM_MAP b = MEM_MAP s"
      "ram b = ram s" "DEVICE_INTR b = DEVICE_INTR s" "NR_BUFFERS b = NR_BUFFERS s"
      "gdtr b = (1023, gdt)" "idtr b = (2047, idt)" "ROOT_DEV b = ram s 0x9A004"
    using cinit_clock [OF g clock, of entry gdt idt] by (elim exE conjE)
  have r: "ram b 0x9A000 = ram s 0x9A000" "NR_BUFFERS b = 0" by (simp_all add: B static)
  obtain M c d where c: "initMemory (ram b 0x9A000) b = Inr c" "initBuffer (ram c 0x9A000) c = Inr d" "outside_cache c d" "c = b\<lparr>MEM_MAP := M\<rparr>"
    and mm: "\<forall>i < 8192. MEM_MAP d i = (if i < (p + 3) div 4 then 100 else if i < p then 0 else MEM_MAP b i)"
    and cache: "cache_inv d (map head_at [0..<nr_buffers (1024 * p)])"
      "\<forall>k < nr_buffers (1024 * p). b_dev (BUF d (head_at k)) = 0 \<and> clean_free (BUF d (head_at k)) \<and> b_data (BUF d (head_at k)) = block_at (1024 * p) k"
    using memory_and_buffers [OF r(1) size(1) memory(2) size(2) [unfolded p_def] r(2), folded p_def] by blast
  note D = outside_cacheD [OF c(3)]
  have C: "GDT c = GDT b" "IDT c = IDT b" "IRQ_TABLE c = IRQ_TABLE b" "STARTUP_TIME c = STARTUP_TIME b" "TICKS c = TICKS b"
    "TTY_TABLE c = TTY_TABLE b" "con_origin c = con_origin b" "con_scr_end c = con_scr_end b" "DEVICE_INTR c = DEVICE_INTR b"
    "fs.more c = fs.more b" by (simp_all add: c(4))
  define e where "e = initTty (pf_dev pf) (initHarddisk (pf_dev pf) (initBlkDev (initSchedule pf d)))"
  note E = last_inits [where pf = pf and s = d, folded e_def]
  define s' where "s' = lldtr (ucast SELECTOR_FIRST_TASK_LDT) (ltr (ucast SELECTOR_FIRST_TASK_TSS) e)"
  have run: "cinit pf entry gdt idt s = Inr s'" unfolding run andThen_simps c(1,2) s'_def e_def ..
  have sys: "gdtr e = (1023, gdt)" "idtr e = (2047, idt)" "ROOT_DEV e = ram s 0x9A004"
    using fs_above [of e b] E(16) D(11) C(10) B(8-10) by simp_all
  have S: "task_register s' = 0x18" "ldt_register s' = 0x20" "gdtr s' = (1023, gdt)" "idtr s' = (2047, idt)" "ROOT_DEV s' = ram s 0x9A004"
    by (simp_all add: s'_def lldtr_def ltr_def sys)
  have V: "GDT s' = GDT e" "IDT s' = IDT e" "IRQ_TABLE s' = IRQ_TABLE e" "STARTUP_TIME s' = STARTUP_TIME e" "TICKS s' = TICKS e"
    "TTY_TABLE s' = TTY_TABLE e" "MEM_MAP s' = MEM_MAP e" "PROC s' = PROC e" "REQUEST_INFO s' = REQUEST_INFO e"
    "BLK_DEV_INFO s' = BLK_DEV_INFO e" "BUF s' = BUF e" "BUFFER_FREE_LIST s' = BUFFER_FREE_LIST e" "BUFFER_HASH_TABLE s' = BUFFER_HASH_TABLE e"
    "con_inv s' = con_inv e"
    by (simp_all add: s'_def lldtr_def ltr_def con_inv_def)
  have "IDT s' = IDT b" by (simp only: V E D C)
  with b(5) have gates: "\<forall>v h. vector_isr v = Some h \<longrightarrow> opens (IDT s' v) (entry h) (if v \<in> {3, 4, 0x80} then 0xEE else 0x8E)"
    by (simp only:)
  have irq: "IRQ_TABLE s' = (IRQ_TABLE s)(0 := Some TimerHandler, 1 := Some KeyboardHandler, 14 := None)"
    by (simp add: V E D C b B static fun_eq_iff)
  have time: "STARTUP_TIME s' = now" "TICKS s' = 0" by (simp_all only: V E D C b)
  have "GDT s' = G(3 := setGdtDesc (G 3) (init_tasks pf + 720) 104 DA_386TSS, 4 := setGdtDesc (G 4) (init_tasks pf + 696) 24 DA_LDT)"
    unfolding V E(1) by (simp add: D C b)
  with g have gdt: "\<exists>G. copy_gdt s = Inr (s\<lparr>GDT := G\<rparr>) \<and>
      GDT s' = G(3 := setGdtDesc (G 3) (init_tasks pf + 720) 104 DA_386TSS, 4 := setGdtDesc (G 4) (init_tasks pf + 696) 24 DA_LDT)"
    by blast
  have proc: "PROC s' (init_tasks pf) = first_process (init_tasks pf)" by (simp only: V E)
  have blk: "\<forall>i < 32. r_dev (REQUEST_INFO s' i) = - 1"
    "\<forall>d < 7. BLK_DEV_INFO s' d = \<lparr>request_fn = if d = 3 then Some HarddiskRequest else None, current_request = None\<rparr>"
    using E(10) E(11) unfolding V by blast+
  have "con_origin d = 0xB8000" "con_scr_end d = 0xB8FA0" by (simp_all add: D C B static)
  then have con: "con_inv s'" unfolding V by (rule E(8))
  have "TTY_TABLE s' = TTY_TABLE s" by (simp only: V E D C B)
  then have tty: "tty_inv s'" using static(4) by (simp add: tty_inv_def)
  have buf: "BUF s' = BUF d" by (simp only: V E)
  have cinv: "cache_inv s' (map head_at [0..<nr_buffers (1024 * p)])"
    by (rule cache_inv_same [OF cache(1)]) (simp_all add: V E same_place_def del: set_map set_upt)
  have heads: "\<forall>k < nr_buffers (1024 * p). b_dev (BUF s' (head_at k)) = 0 \<and> clean_free (BUF s' (head_at k)) \<and> b_data (BUF s' (head_at k)) = block_at (1024 * p) k"
    unfolding buf by (rule cache(2))
  have taken: "\<forall>a < 1024 * p. MEM_MAP s' (a div 4096) = 100"
  proof (intro allI impI)
    fix a assume that: "a < 1024 * p"
    have "p \<le> 15360" using mem_size_pages(3) [OF size(1) memory(2)] by (simp add: p_def)
    with quarter_page [OF that] have "a div 4096 < 8192" "a div 4096 < (p + 3) div 4" by linarith+
    then show "MEM_MAP s' (a div 4096) = 100" using mm unfolding V E(7) by simp
  qed
  have free: "\<forall>i < 8192. (p + 3) div 4 \<le> i \<and> i < p \<longrightarrow> MEM_MAP s' i = 0"
    using mm unfolding V E(7) by auto
  show ?thesis by (rule exI [of _ s']) (intro conjI run S gates irq time gdt proc blk con tty cinv heads taken free)
qed


text \<open>The state at the entry of \<open>cinit\<close> on a machine with 8 MB.\<close>

definition sys_start :: sys where
  "sys_start = (fs.extend fs_boot \<lparr>GDT_PTR = (23, 0x90000), IDT_PTR = (0, 0), gdtr = (23, 0x90000), idtr = (0, 0),
     task_register = 0, ldt_register = 0, ROOT_DEV = 0\<rparr>)
     \<lparr>con_origin := 0xB8000, con_scr_end := 0xB8FA0, TTY_TABLE := TTY_TABLE_init, DEVICE_INTR := None,
      ram := (\<lambda>a. if a = 0x9A000 then 0x800000 else 0)\<rparr>"

lemma sys_start_simps [simp]:
  "GDT_PTR sys_start = (23, 0x90000)" "ram sys_start 0x9A000 = 0x800000" "con_origin sys_start = 0xB8000"
  "con_scr_end sys_start = 0xB8FA0" "TTY_TABLE sys_start = TTY_TABLE_init" "DEVICE_INTR sys_start = None"
  by (simp_all add: sys_start_def fs.defs)

lemma sys_start_buffers: "NR_BUFFERS sys_start = 0"
  using fs_boot_simps unfolding sys_start_def fs.defs by simp

theorem cinit_boots_witness:
  "\<exists>s'. cinit ((some_platform Inr)\<lparr>pf_dev := clock_chip\<rparr>) (\<lambda>_. 0x1234) 0x5000 0x6000 sys_start = Inr s' \<and>
    cache_inv s' (map head_at [0..<989]) \<and> IRQ_TABLE s' 14 = None \<and>
    getDescBase (GDT s' 3) = 0x20000 + 720 \<and> attr1 (GDT s' 3) = 0x89 \<and> getDescBase (GDT s' 4) = 0x20000 + 696 \<and> attr1 (GDT s' 4) = 0x82"
proof -
  let ?pf = "(some_platform Inr)\<lparr>pf_dev := clock_chip\<rparr> :: sys platform" and ?r = "\<lambda>r. clock_chip [Out 0x70 r] 0x71"
  have c: "cmos_shows (pf_dev ?pf) ?r" by (simp add: cmos_shows_def clock_chip_def)
  obtain now where m: "mkTime (startup_ctime ?r) = Inr now"
    by (simp add: mkTime_def startup_ctime_def clock_chip_def bin_to_bcd_def BCD_TO_BIN_def month_table_def Let_def)
  have g: "- 1 \<le> sint (fst (GDT_PTR sys_start))" "sint (fst (GDT_PTR sys_start)) < 1024" by simp_all
  have n: "nr_buffers (1024 * (unat (ram sys_start 0x9A000) div 4096)) = 989" using nr_8MB by (simp only: sys_start_simps)
  have s: "0x402000 \<le> sint (ram sys_start 0x9A000)" "sint (ram sys_start 0x9A000) \<le> 0x3C00000" by simp_all
  have t: "tty_inv sys_start" by (simp add: tty_inv_def TTY_TABLE_init_inv)
  obtain s' G where "cinit ?pf (\<lambda>_. 0x1234) 0x5000 0x6000 sys_start = Inr s'" "cache_inv s' (map head_at [0..<989])"
    "IRQ_TABLE s' = (IRQ_TABLE sys_start)(0 := Some TimerHandler, 1 := Some KeyboardHandler, 14 := None)"
    "GDT s' = G(3 := setGdtDesc (G 3) (init_tasks ?pf + 720) 104 DA_386TSS, 4 := setGdtDesc (G 4) (init_tasks ?pf + 696) 24 DA_LDT)"
    using cinit_boots [OF g c m s sys_start_buffers _ _ t, of "\<lambda>_. 0x1234" "0x5000" "0x6000", unfolded n] by auto
  moreover have "attr1 (setGdtDesc d b l a) = ucast (a AND 0xFF)" for d b l a by (simp add: setGdtDesc_def)
  ultimately show ?thesis by (intro exI [of _ s'] conjI) (simp_all add: some_platform_def del: set_map)
qed

end
