(* ===== verification/Programs.thy ===== *)
theory Programs
  imports Kernel Caching Fork
begin

section \<open>What programs see on a terminal\<close>

text \<open>
  The composition of the system calls, the formatted output and the terminals: what \<open>sysWrite\<close>,
  \<open>printf\<close> and the handler of exceptions make a terminal show.
\<close>

subsection \<open>Writing to a terminal\<close>

text \<open>A file number of the current process that stands for terminal \<open>chan\<close>.\<close>

definition opens_terminal :: "'a kernel_scheme \<Rightarrow> u32 \<Rightarrow> nat \<Rightarrow> bool" where
  "opens_terminal s fd chan \<longleftrightarrow> fd < 20 \<and> p_filp (PROC s (CURRENT s)) (unat fd) \<noteq> 0 \<and> chan < 3 \<and>
     (let inode = INODES s (f_inode (FILES s (p_filp (PROC s (CURRENT s)) (unat fd))))
      in S_ISCHR (i_mode inode) \<and> i_zone inode 0 = 0x400 + of_nat chan)"

text \<open>A terminal that shows what it is sent: the console, with nothing queued.\<close>

definition terminal_ready :: "nat \<Rightarrow> 'a console_scheme \<Rightarrow> bool" where
  "terminal_ready chan s \<longleftrightarrow> con_inv s \<and> tty_inv s \<and> tty_writer (TTY_TABLE s chan) = ConWrite \<and>
     queue_contents (write_q (TTY_TABLE s chan)) = []"

text \<open>What a terminal shows after a text has been written to it, and that it is ready for the next.\<close>

definition shown :: "nat \<Rightarrow> t8 list \<Rightarrow> 'a console_scheme \<Rightarrow> 'a console_scheme \<Rightarrow> bool" where
  "shown chan cs s s' \<longleftrightarrow>
     con_abs s' = fold (term_char (erase_of s chan)) (tty_sent s chan cs) (con_abs s) \<and>
     terminal_ready chan s' \<and> tty_termios (TTY_TABLE s' chan) = tty_termios (TTY_TABLE s chan)"

lemma ttyWrite_shows:
  assumes "terminal_ready chan s" and "chan < 3" and "2 * length cs \<le> fuel"
  shows "\<exists>s'. ttyWrite fuel chan cs s = Inr (length cs, s') \<and> shown chan cs s s'"
  using ttyWrite_delivers [of chan "tty_termios (TTY_TABLE s chan)" s cs fuel] assms
  by (auto simp: terminal_ready_def shown_def console_ok_def erase_of_def tty_sent_def)

lemma terminal_device:
  assumes "chan < 3"
  shows "MAJOR (ucast (0x400 + of_nat chan :: u16)) = 4" "MINOR (ucast (0x400 + of_nat chan :: u16)) = of_nat chan"
proof -
  have "chan = 0 \<or> chan = 1 \<or> chan = 2" using assms by linarith
  then show "MAJOR (ucast (0x400 + of_nat chan :: u16)) = 4" "MINOR (ucast (0x400 + of_nat chan :: u16)) = of_nat chan"
    by (elim disjE; simp add: MAJOR_def MINOR_def)+
qed

lemma rwChar_terminal:
  assumes "chan < 3"
  shows "rwChar pf WRITE (ucast (0x400 + of_nat chan :: u16)) buf count s =
    andThen (ttyWrite (pf_fuel pf) chan (bytes_at (DATA s) buf (if sint count > 0 then unat count else 0)) s)
      (\<lambda>(n, s). Inr (of_nat n, s))"
proof -
  have "unat (of_nat chan :: u32) = chan" using assms by (simp add: unat_of_nat_u32)
  then show ?thesis by (simp add: rwChar_def terminal_device [OF assms] CRW_TABLE_def rwTtyx_def)
qed

lemma sysWrite_device:
  assumes "opens_terminal s fd chan"
  shows "sysWrite pf fd buf count s = (if count = 0 then Inr (0, s)
    else andThen (ttyWrite (pf_fuel pf) chan (bytes_at (DATA s) buf (if sint count > 0 then unat count else 0)) s)
      (\<lambda>(n, s). Inr (of_nat n, s)))"
  using assms by (auto simp: opens_terminal_def sysWrite_def Let_def rwChar_terminal not_le [symmetric])

lemma length_bytes_at [simp]: "length (bytes_at m a n) = n"
  by (simp add: bytes_at_def)

lemma sysWrite_shows:
  assumes "opens_terminal s fd chan" and "terminal_ready chan s" and "0 \<le> sint count" and "2 * unat count \<le> pf_fuel pf"
  shows "\<exists>s'. sysWrite pf fd buf count s = Inr (count, s') \<and> shown chan (bytes_at (DATA s) buf (unat count)) s s'"
proof -
  have c: "chan < 3" using assms(1) by (simp add: opens_terminal_def)
  have n: "(if sint count > 0 then unat count else 0) = unat count" using unat_sint_u32 [OF assms(3)] by (cases "unat count") simp_all
  obtain s' where s': "ttyWrite (pf_fuel pf) chan (bytes_at (DATA s) buf (unat count)) s = Inr (unat count, s')"
    "shown chan (bytes_at (DATA s) buf (unat count)) s s'"
    using ttyWrite_shows [OF assms(2) c, of "bytes_at (DATA s) buf (unat count)" "pf_fuel pf"] assms(4) by auto
  show ?thesis
  proof (cases "count = 0")
    case True
    then show ?thesis using assms(2)
      by (intro exI [of _ s]) (simp add: sysWrite_device [OF assms(1)] shown_def terminal_ready_def tty_sent_def bytes_at_def)
  next
    case False
    then show ?thesis using s' by (intro exI [of _ s']) (simp add: sysWrite_device [OF assms(1)] n)
  qed
qed

text \<open>Showing one text after another.\<close>

definition show_text :: "termios \<Rightarrow> t8 list \<Rightarrow> terminal \<Rightarrow> terminal" where
  "show_text t cs = fold (term_char (c_cc t VERASE)) (post (c_oflag t) False cs)"

lemma shown_text: "shown chan cs s s' \<longleftrightarrow> con_abs s' = show_text (tty_termios (TTY_TABLE s chan)) cs (con_abs s) \<and>
   terminal_ready chan s' \<and> tty_termios (TTY_TABLE s' chan) = tty_termios (TTY_TABLE s chan)"
  by (simp add: shown_def show_text_def erase_of_def tty_sent_def)

subsection \<open>Messages with a hexadecimal number\<close>

text \<open>The digits of a number in the base 16 that \<^verbatim>\<open>%X\<close> and \<^verbatim>\<open>%x\<close> print, most significant first.\<close>

definition hex_digits :: "texts \<Rightarrow> u32 \<Rightarrow> u32 \<Rightarrow> t8 list \<Rightarrow> bool" where
  "hex_digits tx flags v ds \<longleftrightarrow> number_digits tx v 16 (- 1) flags ds"

text \<open>They denote the number when it has no top bit; the digit of all ones is the byte in front of the table.\<close>

lemma hex_digits_val: "hex_digits tx fl v ds \<Longrightarrow> 0 \<le> sint v \<Longrightarrow> canonical ds \<and> text_val 16 ds = sint v"
  by (simp add: hex_digits_def number_digits_def)

lemma hex_digits_ones: "hex_digits tx 0 0xFFFFFFFF ds \<Longrightarrow> ds = [in_front tx 0xFFFFFFFF 16 (- 1) 0 [] 1]"
  using number_digits_all_ones [of tx "- 1" 0 ds] by (simp add: hex_digits_def)

lemma kmsg_shows:
  assumes "terminal_ready 0 s" and "vsprintf (pf_str pf) args 0 (map of_char fmt) = Inr cs" and "length cs < 512" and "1022 \<le> pf_fuel pf"
  shows "\<exists>s'. kmsg pf fmt args s = Inr s' \<and> shown 0 cs s s'"
  using ttyWrite_shows [OF assms(1), of cs "pf_fuel pf"] assms(2-4) by (auto simp: kmsg_def printk_def)


lemma kmsg_hex:
  assumes pt: "plain_text (map of_char pre)" and "length pre < 400" and r: "terminal_ready 0 s" "1022 \<le> pf_fuel pf"
  shows "\<exists>ds s'. hex_digits (pf_str pf) 0 v ds \<and> kmsg pf (pre @ ''%X'' @ [CHR 0x0A]) (\<lambda>_. v) s = Inr s' \<and>
      shown 0 (map of_char pre @ [48, 88] @ ds @ [10]) s s'"
proof -
  have f: "map of_char (pre @ ''%X'' @ [CHR 0x0A]) = (map of_char pre @ 37 # 88 # [10] :: t8 list)" by (simp add: of_char_def)
  have pn: "plain_text [10]" by (simp add: plain_text_def)
  obtain ds where ds: "hex_digits (pf_str pf) 0 v ds" "length ds \<le> 10" "number (pf_str pf) v 16 (-1) 0 = Inr ([48, 88] @ ds)"
    using number_hex [of 0 "pf_str pf" v] by (auto simp: hex_digits_def)
  have "convert (pf_str pf) 88 v (-1) 0 = Some (Inr ([48, 88] @ ds))" using ds(3) by (simp add: convert_def)
  from vsprintf_one [OF pt pn this] have w: "vsprintf (pf_str pf) (\<lambda>_. v) 0 (map of_char (pre @ ''%X'' @ [CHR 0x0A])) =
    Inr (map of_char pre @ [48, 88] @ ds @ [10])" unfolding f by simp
  have "length (map of_char pre @ [48, 88] @ ds @ [10]) < 512" using ds(2) assms(2) by simp
  from kmsg_shows [OF r(1) w this r(2)] ds(1) show ?thesis by blast
qed

subsection \<open>Exceptions\<close>

text \<open>The report of an exception: its name, and five labelled numbers.\<close>

definition report :: "nat \<Rightarrow> t8 list list \<Rightarrow> t8 list list" where
  "report n ds = [map of_char (''Exception! --> '' @ err_description ! n @ [CHR 0x0A]),
     map of_char ''Vector:'' @ [48, 88] @ ds ! 0 @ [10], map of_char ''Error code:'' @ [48, 88] @ ds ! 1 @ [10],
     map of_char ''EIP:'' @ [48, 88] @ ds ! 2 @ [10], map of_char ''CS:'' @ [48, 88] @ ds ! 3 @ [10],
     map of_char ''EFLAGS:'' @ [48, 88] @ ds ! 4 @ [10]]"

lemma plain_labels: "plain_text (map of_char ''Vector:'')" "plain_text (map of_char ''Error code:'')" "plain_text (map of_char ''EIP:'')"
    "plain_text (map of_char ''CS:'')" "plain_text (map of_char ''EFLAGS:'')" "plain_text (map of_char ''Exception! --> '')"
  by (simp_all add: plain_text_def of_char_def)

lemma description_length: "n < 20 \<Longrightarrow> length (err_description ! n) < 100"
proof -
  assume "n < 20"
  have "list_all (\<lambda>d. length d < 100) err_description" by (simp add: err_description_def)
  moreover have "n < length err_description" using \<open>n < 20\<close> by (simp add: err_description_def)
  ultimately show ?thesis by (simp add: list_all_length)
qed

lemma exception_line:
  assumes "terminal_ready 0 s" and "n < 20" and "1022 \<le> pf_fuel pf" and "a \<noteq> 0"
  shows "\<exists>s'. kmsg (with_string a (map of_char (err_description ! n)) pf) (''Exception! --> %s'' @ [CHR 0x0A]) (\<lambda>_. a) s = Inr s' \<and>
    shown 0 (map of_char (''Exception! --> '' @ err_description ! n @ [CHR 0x0A])) s s'"
proof -
  let ?pf = "with_string a (map of_char (err_description ! n)) pf"
  have c: "convert (pf_str ?pf) 115 a (-1) 0 = Some (Inr (map of_char (err_description ! n)))"
    using assms(4) by (simp add: convert_def fmt_string_def with_string_def)
  have f: "map of_char (''Exception! --> %s'' @ [CHR 0x0A]) = (map of_char ''Exception! --> '' @ 37 # 115 # [10] :: t8 list)"
    by (simp add: of_char_def)
  have "vsprintf (pf_str ?pf) (\<lambda>_. a) 0 (map of_char (''Exception! --> %s'' @ [CHR 0x0A])) =
      Inr (map of_char ''Exception! --> '' @ map of_char (err_description ! n) @ [10])"
    unfolding f by (rule vsprintf_one [OF plain_labels(6) _ c]) (simp add: plain_text_def)
  also have "map of_char ''Exception! --> '' @ map of_char (err_description ! n) @ [10] =
      (map of_char (''Exception! --> '' @ err_description ! n @ [CHR 0x0A]) :: t8 list)" by (simp add: of_char_def)
  finally have w: "vsprintf (pf_str ?pf) (\<lambda>_. a) 0 (map of_char (''Exception! --> %s'' @ [CHR 0x0A])) =
      Inr (map of_char (''Exception! --> '' @ err_description ! n @ [CHR 0x0A]))" .
  have "length (map of_char (''Exception! --> '' @ err_description ! n @ [CHR 0x0A]) :: t8 list) < 512"
    using description_length [OF assms(2)] by simp
  moreover have "1022 \<le> pf_fuel ?pf" using assms(3) by (simp add: with_string_def)
  ultimately show ?thesis by (rule kmsg_shows [OF assms(1) w])
qed

text \<open>One labelled number, for a label without \<^verbatim>\<open>%\<close>.\<close>

lemma number_line:
  assumes "plain_text (map of_char pre)" and "length pre < 400" and "terminal_ready 0 s" and "1022 \<le> pf_fuel pf"
    and t: "tty_termios (TTY_TABLE s 0) = t"
  shows "\<exists>ds s'. hex_digits (pf_str pf) 0 v ds \<and> kmsg pf (pre @ ''%X'' @ [CHR 0x0A]) (\<lambda>_. v) s = Inr s' \<and>
    con_abs s' = show_text t (map of_char pre @ [48, 88] @ ds @ [10]) (con_abs s) \<and>
    terminal_ready 0 s' \<and> tty_termios (TTY_TABLE s' 0) = t"
  using kmsg_hex [OF assms(1-4)] unfolding shown_text t by blast

lemma label_lengths: "length ''Vector:'' < 400" "length ''Error code:'' < 400" "length ''EIP:'' < 400" "length ''CS:'' < 400"
    "length ''EFLAGS:'' < 400"
  by simp_all

lemma syserrHandler_lines:
  assumes "unat err_no < 20"
  shows "syserrHandler pf err_text err_no err_code eip cs eflags s =
    andThen (kmsg (with_string err_text (map of_char (err_description ! unat err_no)) pf)
      (''Exception! --> %s'' @ [CHR 0x0A]) (\<lambda>_. err_text) s) (\<lambda>s.
    andThen (kmsg pf (''Vector:'' @ ''%X'' @ [CHR 0x0A]) (\<lambda>_. err_no) s) (\<lambda>s.
    andThen (kmsg pf (''Error code:'' @ ''%X'' @ [CHR 0x0A]) (\<lambda>_. err_code) s) (\<lambda>s.
    andThen (kmsg pf (''EIP:'' @ ''%X'' @ [CHR 0x0A]) (\<lambda>_. eip) s) (\<lambda>s.
    andThen (kmsg pf (''CS:'' @ ''%X'' @ [CHR 0x0A]) (\<lambda>_. cs) s) (\<lambda>s.
    kmsg pf (''EFLAGS:'' @ ''%X'' @ [CHR 0x0A]) (\<lambda>_. eflags) s)))))"
proof -
  have l: "\<not> unat err_no \<ge> length err_description" using assms by (simp add: err_description_def)
  show ?thesis unfolding syserrHandler_def Let_def if_not_P [OF l] by simp
qed

text \<open>With a ready console, the handler of exceptions prints its six lines and returns, whatever the five
  numbers are. A number without its top bit is printed in hexadecimal; in the place of the error code
  \<^verbatim>\<open>FFFFFFFFH\<close>, which the entry code pushes for an exception without one, the byte in front of the table of
  digits appears.\<close>

theorem syserrHandler_reports:
  assumes "terminal_ready 0 s" and "unat err_no < 20" and "1022 \<le> pf_fuel pf" and "err_text \<noteq> 0"
  shows "\<exists>s' ds. syserrHandler pf err_text err_no err_code eip cs eflags s = Inr s' \<and>
    list_all2 (hex_digits (pf_str pf) 0) [err_no, err_code, eip, cs, eflags] ds \<and>
    con_abs s' = fold (show_text (tty_termios (TTY_TABLE s 0))) (report (unat err_no) ds) (con_abs s) \<and> terminal_ready 0 s'"
proof -
  let ?t = "tty_termios (TTY_TABLE s 0)"
  let ?run = "syserrHandler pf err_text err_no err_code eip cs eflags s"
  note L = syserrHandler_lines [OF assms(2), of pf err_text err_code eip cs eflags s]
  note f = assms(3)
  obtain s0 where s0: "kmsg (with_string err_text (map of_char (err_description ! unat err_no)) pf)
      (''Exception! --> %s'' @ [CHR 0x0A]) (\<lambda>_. err_text) s = Inr s0"
    "con_abs s0 = show_text ?t (map of_char (''Exception! --> '' @ err_description ! unat err_no @ [CHR 0x0A])) (con_abs s)"
    "terminal_ready 0 s0" "tty_termios (TTY_TABLE s0 0) = ?t"
    using exception_line [OF assms(1-4)] unfolding shown_text by blast
  obtain d0 s1 where s1: "hex_digits (pf_str pf) 0 err_no d0" "kmsg pf (''Vector:'' @ ''%X'' @ [CHR 0x0A]) (\<lambda>_. err_no) s0 = Inr s1"
    "con_abs s1 = show_text ?t (map of_char ''Vector:'' @ [48, 88] @ d0 @ [10]) (con_abs s0)"
    "terminal_ready 0 s1" "tty_termios (TTY_TABLE s1 0) = ?t"
    using number_line [OF plain_labels(1) label_lengths(1) s0(3) f s0(4)] by blast
  obtain d1 s2 where s2: "hex_digits (pf_str pf) 0 err_code d1" "kmsg pf (''Error code:'' @ ''%X'' @ [CHR 0x0A]) (\<lambda>_. err_code) s1 = Inr s2"
    "con_abs s2 = show_text ?t (map of_char ''Error code:'' @ [48, 88] @ d1 @ [10]) (con_abs s1)"
    "terminal_ready 0 s2" "tty_termios (TTY_TABLE s2 0) = ?t"
    using number_line [OF plain_labels(2) label_lengths(2) s1(4) f s1(5)] by blast
  obtain d2 s3 where s3: "hex_digits (pf_str pf) 0 eip d2" "kmsg pf (''EIP:'' @ ''%X'' @ [CHR 0x0A]) (\<lambda>_. eip) s2 = Inr s3"
    "con_abs s3 = show_text ?t (map of_char ''EIP:'' @ [48, 88] @ d2 @ [10]) (con_abs s2)"
    "terminal_ready 0 s3" "tty_termios (TTY_TABLE s3 0) = ?t"
    using number_line [OF plain_labels(3) label_lengths(3) s2(4) f s2(5)] by blast
  obtain d3 s4 where s4: "hex_digits (pf_str pf) 0 cs d3" "kmsg pf (''CS:'' @ ''%X'' @ [CHR 0x0A]) (\<lambda>_. cs) s3 = Inr s4"
    "con_abs s4 = show_text ?t (map of_char ''CS:'' @ [48, 88] @ d3 @ [10]) (con_abs s3)"
    "terminal_ready 0 s4" "tty_termios (TTY_TABLE s4 0) = ?t"
    using number_line [OF plain_labels(4) label_lengths(4) s3(4) f s3(5)] by blast
  obtain d4 s5 where s5: "hex_digits (pf_str pf) 0 eflags d4" "kmsg pf (''EFLAGS:'' @ ''%X'' @ [CHR 0x0A]) (\<lambda>_. eflags) s4 = Inr s5"
    "con_abs s5 = show_text ?t (map of_char ''EFLAGS:'' @ [48, 88] @ d4 @ [10]) (con_abs s4)" "terminal_ready 0 s5"
    using number_line [OF plain_labels(5) label_lengths(5) s4(4) f s4(5)] by blast
  have run: "?run = Inr s5" unfolding L s0(1) s1(2) s2(2) s3(2) s4(2) s5(2) andThen_simps ..
  have "con_abs s5 = fold (show_text ?t) (report (unat err_no) [d0, d1, d2, d3, d4]) (con_abs s)"
    unfolding report_def by (simp only: s0(2) s1(3) s2(3) s3(3) s4(3) s5(3) nth_Cons_0 nth_Cons_Suc fold_simps numeral_nat One_nat_def)
  moreover have "list_all2 (hex_digits (pf_str pf) 0) [err_no, err_code, eip, cs, eflags] [d0, d1, d2, d3, d4]"
    using s1(1) s2(1) s3(1) s4(1) s5(1) by simp
  ultimately show ?thesis using run s5(4) by blast
qed

text \<open>The state of the examples: the kernel with one process, and its console.\<close>

lemma console_ready:
  assumes "console.truncate s = initConsole console_boot"
  shows "terminal_ready 0 s"
proof -
  have "terminal_ready 0 (initConsole console_boot)"
    using console_boot_inv console_boot_ok by (simp add: terminal_ready_def console_ok_def)
  moreover have "terminal_ready 0 s = terminal_ready 0 (console.truncate s)"
    by (simp add: terminal_ready_def con_inv_def tty_inv_def console.truncate_def)
  ultimately show ?thesis using assms by simp
qed

lemma process_boot_ready: "terminal_ready 0 process_boot"
  by (rule console_ready)
    (simp add: process_boot_def memory_boot_def keyboard_boot_def memory.defs keyboard.defs console.defs kernel.defs)

theorem syserrHandler_reports_witness:
  "\<exists>s' ds. syserrHandler (some_platform Inr) 0x500 0 0xFFFFFFFF 0x1000 8 0x202 process_boot = Inr s' \<and>
    hex_digits no_texts 0 0xFFFFFFFF (ds ! 1) \<and> terminal_ready 0 s'"
proof -
  obtain s' ds where s': "syserrHandler (some_platform Inr) 0x500 0 0xFFFFFFFF 0x1000 8 0x202 process_boot = Inr s'" "terminal_ready 0 s'"
    and ds: "list_all2 (hex_digits (pf_str (some_platform Inr :: kernel platform)) 0) [0, 0xFFFFFFFF, 0x1000, 8, 0x202] ds"
    using syserrHandler_reports [OF process_boot_ready, of 0 "some_platform Inr" "0x500" "0xFFFFFFFF" "0x1000" 8 "0x202"]
    by (auto simp: some_platform_def)
  have "hex_digits no_texts 0 0xFFFFFFFF (ds ! 1)" using list_all2_nthD [OF ds, of 1] by (simp add: some_platform_def)
  with s' show ?thesis by blast
qed

subsection \<open>The output of programs\<close>

lemma bytes_stored:
  assumes "length cs < 2 ^ 32"
  shows "bytes_at (DATA (store_bytes a (cs @ [0]) s)) a (length cs) = cs"
proof (rule nth_equalityI)
  fix i assume i: "i < length (bytes_at (DATA (store_bytes a (cs @ [0]) s)) a (length cs))"
  then have "unat (a + of_nat i - a) = i" using assms by (simp add: unat_of_nat_u32)
  then show "bytes_at (DATA (store_bytes a (cs @ [0]) s)) a (length cs) ! i = cs ! i"
    using i by (simp add: bytes_at_def store_bytes_def nth_append)
qed simp

lemma store_bytes_terminal:
  "opens_terminal (store_bytes a bs s) fd chan = opens_terminal s fd chan"
  "terminal_ready chan (store_bytes a bs s) = terminal_ready chan s"
  "shown chan cs (store_bytes a bs s) s' = shown chan cs s s'"
  by (simp_all add: store_bytes_def opens_terminal_def terminal_ready_def shown_def con_inv_def tty_inv_def con_abs_def
    erase_of_def tty_sent_def)

text \<open>The addresses of two regions do not meet.\<close>

lemma bytes_elsewhere:
  assumes "length bs \<le> 512" and "n \<le> 512" and "0 < nr" and "nr < 64"
  shows "bytes_at (DATA (store_bytes (of_nat nr * 0x4000000 + a) bs s)) a n = bytes_at (DATA s) a n"
proof -
  have "\<not> unat (a + of_nat i - (of_nat nr * 0x4000000 + a)) < length bs" if "i < n" for i
  proof
    assume "unat (a + of_nat i - (of_nat nr * 0x4000000 + a)) < length bs"
    then obtain k where k: "k < 512" "a + of_nat i - (of_nat nr * 0x4000000 + a) = (of_nat k :: u32)"
      using assms(1) by (intro that [of "unat (a + of_nat i - (of_nat nr * 0x4000000 + a))"]) simp_all
    then have "of_nat i = (of_nat (k + nr * 67108864) :: u32)" by (simp add: algebra_simps)
    then have "unat (of_nat i :: u32) = unat (of_nat (k + nr * 67108864) :: u32)" by simp
    moreover have "unat (of_nat i :: u32) = i" using that assms(2) by (intro unat_of_nat_u32) simp
    moreover have "unat (of_nat (k + nr * 67108864) :: u32) = k + nr * 67108864"
      using k(1) assms(4) by (intro unat_of_nat_u32) simp
    ultimately show False using that assms(2,3) by simp
  qed
  then show ?thesis by (simp add: bytes_at_def store_bytes_def)
qed

text \<open>C11. A program that prints, when the formatted text fits into the 512 bytes of the buffer and file 1 of the
  process is the console: \<open>printf\<close> returns the length of the text, and the terminal shows as many characters,
  post-processed, one after the other; it is ready for the next text. For process 0, whose segments begin at
  address 0, the characters are those of the text. For every other process they are not: the text is stored in the
  region of the process, the kernel reads the same offset in its own, and shows the bytes that are there. A
  longer text overruns the buffer.\<close>

theorem printf_shows:
  assumes "opens_terminal s 1 chan" and "terminal_ready chan s" and "1022 \<le> pf_fuel pf"
    and "vsprintf (pf_str pf) args 0 fmt = Inr cs"
  shows "let base = getDescBase (p_ldt (PROC s (CURRENT s)) 2) in
    if length cs < 512
    then \<exists>s'. printf pf r buf fmt args s = Inr (length cs, s') \<and>
      (base = 0 \<longrightarrow> shown chan cs s s') \<and>
      (\<forall>nr. 0 < nr \<and> nr < 64 \<and> base = of_nat nr * 0x4000000 \<longrightarrow> shown chan (bytes_at (DATA s) buf (length cs)) s s')
    else printf pf r buf fmt args s = Inl (Fault ''user_buf'')"
proof (cases "length cs < 512")
  case True
  define base where "base = getDescBase (p_ldt (PROC s (CURRENT s)) 2)"
  let ?s = "store_bytes (base + buf) (cs @ [0]) s" and ?n = "of_nat (length cs) :: u32"
  have n: "unat ?n = length cs" using True by (intro unat_of_nat_u32) simp
  have "0 \<le> sint ?n" "2 * unat ?n \<le> pf_fuel pf" using sint_unat_u32 [of ?n] n True assms(3) by simp_all
  then obtain s' where s': "sysWrite pf 1 buf ?n ?s = Inr (?n, s')" "shown chan (bytes_at (DATA ?s) buf (length cs)) s s'"
    using sysWrite_shows [of ?s 1 chan ?n pf buf] assms(1,2) n by (auto simp: store_bytes_terminal)
  have "printf pf r buf fmt args s = Inr (length cs, s')"
    using True assms(4) s'(1)
    by (simp add: printf_def Let_def write_stub_def sysCall_def SYS_CALL_TABLE_def base_def)
  moreover have "base = 0 \<longrightarrow> shown chan cs s s'" using s'(2) bytes_stored [of cs buf s] True by auto
  moreover have "\<forall>nr. 0 < nr \<and> nr < 64 \<and> base = of_nat nr * 0x4000000 \<longrightarrow> shown chan (bytes_at (DATA s) buf (length cs)) s s'"
  proof (intro allI impI)
    fix nr :: nat assume "0 < nr \<and> nr < 64 \<and> base = of_nat nr * 0x4000000"
    then show "shown chan (bytes_at (DATA s) buf (length cs)) s s'"
      using s'(2) bytes_elsewhere [of "cs @ [0]" "length cs" nr buf s] True by simp
  qed
  ultimately show ?thesis using True unfolding Let_def base_def by auto
qed (simp add: printf_def assms(4))

text \<open>A process whose file 1 is the console.\<close>

definition prog_boot :: fs where
  "prog_boot = fs_boot\<lparr>PROC := (\<lambda>_. second_process\<lparr>p_filp := (\<lambda>i. if i = 1 then 0x40000 else 0)\<rparr>),
     FILES := (\<lambda>_. zero_file\<lparr>f_inode := 0x30000\<rparr>),
     INODES := (\<lambda>_. zero_inode\<lparr>i_mode := 0x2180, i_zone := (\<lambda>_. 0x400)\<rparr>)\<rparr>"

lemma prog_boot_ready: "terminal_ready 0 prog_boot" "opens_terminal prog_boot 1 0"
proof -
  show "terminal_ready 0 prog_boot"
    by (rule console_ready)
      (simp add: prog_boot_def fs_boot_def blk_boot_def process_boot_def memory_boot_def keyboard_boot_def blk.defs memory.defs keyboard.defs console.defs kernel.defs)
  show "opens_terminal prog_boot 1 0" by (simp add: opens_terminal_def prog_boot_def S_ISCHR_def Let_def)
qed

text \<open>The same for process 0, whose segments begin at address 0.\<close>

definition first_prog_boot :: fs where
  "first_prog_boot = prog_boot\<lparr>PROC := (\<lambda>_. (first_process 0)\<lparr>p_filp := (\<lambda>i. if i = 1 then 0x40000 else 0)\<rparr>)\<rparr>"

lemma first_prog_boot_ready: "terminal_ready 0 first_prog_boot" "opens_terminal first_prog_boot 1 0"
proof -
  show "terminal_ready 0 first_prog_boot"
    using prog_boot_ready(1) by (simp add: first_prog_boot_def terminal_ready_def con_inv_def tty_inv_def)
  show "opens_terminal first_prog_boot 1 0" by (simp add: opens_terminal_def first_prog_boot_def prog_boot_def S_ISCHR_def Let_def)
qed

theorem printf_shows_witness:
  "(\<exists>s'. printf (some_platform Inr) some_regs 0x7000 [72, 105, 10] (\<lambda>_. 0) first_prog_boot = Inr (3, s') \<and>
     shown 0 [72, 105, 10] first_prog_boot s') \<and>
   (\<exists>s'. printf (some_platform Inr) some_regs 0x7000 [72, 105, 10] (\<lambda>_. 0) prog_boot = Inr (3, s') \<and>
     shown 0 (bytes_at (DATA prog_boot) 0x7000 3) prog_boot s')"
proof (intro conjI)
  have b: "getDescBase (p_ldt (PROC first_prog_boot (CURRENT first_prog_boot)) 2) = 0"
    "getDescBase (p_ldt (PROC prog_boot (CURRENT prog_boot)) 2) = 0x4000000"
    using first_process_ldt(2) second_process_ldt(2) by (simp_all add: first_prog_boot_def prog_boot_def)
  show "\<exists>s'. printf (some_platform Inr) some_regs 0x7000 [72, 105, 10] (\<lambda>_. 0) first_prog_boot = Inr (3, s') \<and>
     shown 0 [72, 105, 10] first_prog_boot s'"
    using printf_shows [OF first_prog_boot_ready(2,1), of "some_platform Inr" "\<lambda>_. 0" "[72, 105, 10]" "[72, 105, 10]" some_regs "0x7000"]
    by (auto simp: some_platform_def numeral_3_eq_3 b(1))
  show "\<exists>s'. printf (some_platform Inr) some_regs 0x7000 [72, 105, 10] (\<lambda>_. 0) prog_boot = Inr (3, s') \<and>
     shown 0 (bytes_at (DATA prog_boot) 0x7000 3) prog_boot s'"
    using printf_shows [OF prog_boot_ready(2,1), of "some_platform Inr" "\<lambda>_. 0" "[72, 105, 10]" "[72, 105, 10]" some_regs "0x7000"]
    by (auto simp: some_platform_def numeral_3_eq_3 b(2) dest!: spec [of _ 1])
qed

end
