(* ===== verification/Reading.thy ===== *)
theory Reading
  imports Caching Locks Kernel Fork
begin

section \<open>Reading a block from the disk\<close>

text \<open>
  The way of a block that the cache does not hold: \<open>bread\<close>, \<open>ll_rw_block\<close>, the queue of requests, the request
  routine, the wait for the interrupt. None of the routines on this way unlocks the buffer: only the end of a
  request does, and that comes from the interrupt.
\<close>

subsection \<open>What the request routine leaves alone\<close>

definition calm :: "'a blk_scheme \<Rightarrow> 'a blk_scheme \<Rightarrow> bool" where
  "calm s t \<longleftrightarrow> BUF t = BUF s \<and> BLK_DEV_INFO t = BLK_DEV_INFO s"

lemma calm_refl [simp]: "calm s s"
  by (simp add: calm_def)

lemma calm_trans: "calm s t \<Longrightarrow> calm t u \<Longrightarrow> calm s u"
  by (simp add: calm_def)

lemma calm_console: "console.more t = console.more s \<Longrightarrow> calm s t"
  unfolding calm_def using blk_view(2,4) by blast

lemma calm_io: "io.more t = io.more s \<Longrightarrow> calm s t"
  by (rule calm_console) (rule io_view(1))

lemma calm_kmsg: "kmsg pf fmt args s = Inr t \<Longrightarrow> calm s t"
  by (rule calm_console) (rule kmsg_more)

lemma busy_loop_more: "io.more (busy_loop dev n s) = io.more s"
  by (induction n arbitrary: s) (auto simp: inByte_def Let_def)

lemma ready_loop_more: "ready_loop dev n s = (k, t) \<Longrightarrow> io.more t = io.more s"
  by (induction dev n s rule: ready_loop.induct) (auto simp: inByte_def Let_def split: if_splits)

lemma drq_loop_more: "drq_loop dev n s = (b, t) \<Longrightarrow> io.more t = io.more s"
  by (induction n arbitrary: s) (auto simp: inByte_def Let_def split: if_splits)

lemma driveBusy_calm:
  assumes "driveBusy pf s = Inr (b, t)"
  shows "calm s t"
proof -
  let ?u = "snd (inByte (pf_dev pf) HD_STATUS (busy_loop (pf_dev pf) 10000 s))"
  have "calm s ?u" by (rule calm_io) (simp add: frame busy_loop_more)
  moreover have "t = ?u \<or> (\<exists>m. kmsg pf m (\<lambda>_. 0) ?u = Inr t)"
    using assms by (auto simp: driveBusy_def Let_def inByte_def split: if_splits)
  ultimately show ?thesis using calm_kmsg calm_trans by blast
qed

lemma resetController_calm:
  assumes "resetController pf s = Inr t"
  shows "calm s t"
proof -
  define u where "u = outByte (hd_ctrl (HARD_DISK_INFO (outByte 4 (ucast HD_CMD) s)) AND 0x0F) (ucast HD_CMD) (outByte 4 (ucast HD_CMD) s)"
  obtain b v w where v: "driveBusy pf u = Inr (b, v)"
    and w: "(if b then kmsg pf (''HD-controller still busy'' @ [CHR 0x0A, CHR 0x0D]) (\<lambda>_. 0) v else Inr v) = Inr w"
    and t: "(case inByte (pf_dev pf) HD_ERROR w of (i, s) \<Rightarrow>
      if i \<noteq> 1 then kmsg pf (''HD-controller reset failed: %02x'' @ [CHR 0x0A, CHR 0x0D]) (\<lambda>_. ucast i) s else Inr s) = Inr t"
    using assms unfolding resetController_def Let_def u_def [symmetric] by (auto simp del: append.simps)
  have "calm s u" unfolding u_def by (rule calm_io) (simp add: frame)
  moreover note driveBusy_calm [OF v]
  moreover have "calm v w" using w calm_kmsg [of pf _ _ v w] by (cases b) (simp_all del: append.simps)
  moreover have "calm w t"
  proof -
    define x where "x = snd (inByte (pf_dev pf) HD_ERROR w)"
    have "calm w x" unfolding x_def by (rule calm_io) (simp add: frame)
    moreover have "x = t \<or> (\<exists>m a. kmsg pf m a x = Inr t)"
      using t unfolding x_def by (simp del: append.simps split: prod.splits if_splits) blast+
    ultimately show ?thesis using calm_kmsg calm_trans by blast
  qed
  ultimately show ?thesis using calm_trans by blast
qed

lemma outByte_calm: "calm s (outByte p v s)"
  by (rule calm_io) (rule io_more)

lemma hdOut_calm:
  assumes "hdOut pf drive nsect sect head cyl cmd f s = Inr t"
  shows "calm s t"
proof -
  obtain k u where u: "controllerReady (pf_dev pf) s = (k, u)" by fastforce
  have c: "calm s u" by (rule calm_io) (use u ready_loop_more in \<open>auto simp: controllerReady_def\<close>)
  have d: "calm u (u\<lparr>DEVICE_INTR := Some f\<rparr>)" by (simp add: calm_def)
  have "\<not> (drive > 1 \<or> head > 15) \<and> k \<noteq> 0"
    using assms unfolding hdOut_def u Let_def prod.case by (auto simp del: append.simps split: if_splits)
  then have h: "\<not> (drive > 1 \<or> head > 15)" "\<not> k = 0" by blast+
  note e = Inr_inject [OF assms [unfolded hdOut_def u Let_def prod.case if_not_P [OF h(1)] if_not_P [OF h(2)]]]
  have "calm u t" unfolding e [symmetric] by (rule calm_trans [OF _ outByte_calm] d)+
  with c show ?thesis by (rule calm_trans)
qed

lemma resetHd_calm:
  assumes "resetHd pf nr s = Inr t"
  shows "calm s t"
proof -
  obtain u where u: "resetController pf s = Inr u"
    "hdOut pf nr (hd_sector (HARD_DISK_INFO u)) (hd_sector (HARD_DISK_INFO u)) (hd_head (HARD_DISK_INFO u) - 1)
       (hd_cylinder (HARD_DISK_INFO u)) 0x91 RecalIntr u = Inr t"
    using assms unfolding resetHd_def Let_def andThen_eq_Inr by blast
  show ?thesis by (rule calm_trans [OF resetController_calm [OF u(1)] hdOut_calm [OF u(2)]])
qed

lemma check_request_calm: "check_request pf cur s = Inr t \<Longrightarrow> calm s t"
  by (auto simp: check_request_def split: if_splits dest!: calm_kmsg intro: calm_trans)

text \<open>A failed command is counted, or it ends the request, which then cannot be served again.\<close>

lemma badRwIntr_outcome:
  assumes "badRwIntr pf s = Inr t" and "current_request (BLK_DEV_INFO s 3) = Some cur"
  shows "calm s t \<or> BLK_DEV_INFO t = BLK_DEV_INFO s \<and> r_dev (REQUEST_INFO t cur) = - 1"
proof -
  define u where "u = upd_req cur (\<lambda>r. r\<lparr>r_errors := r_errors r + 1\<rparr>) s"
  have cu: "calm s u" "current_request (BLK_DEV_INFO u 3) = Some cur" using assms(2) by (simp_all add: u_def upd_req_def calm_def)
  obtain v where v: "(if sint (r_errors (REQUEST_INFO u cur)) \<ge> 7 then endRequest pf 0 u else Inr u) = Inr v"
    "t = (if sint (r_errors (REQUEST_INFO v cur)) > 7 div 2 then v\<lparr>hd_reset := True\<rparr> else v)"
    using assms by (auto simp: badRwIntr_def u_def [symmetric] Let_def)
  have t: "BUF t = BUF v" "BLK_DEV_INFO t = BLK_DEV_INFO v" "REQUEST_INFO t = REQUEST_INFO v" by (simp_all add: v(2))
  show ?thesis
  proof (cases "sint (r_errors (REQUEST_INFO u cur)) \<ge> 7")
    case True
    then have "endRequest pf 0 u = Inr v" using v(1) by simp
    from endRequest_frame(1,2) [OF this cu(2)] show ?thesis using cu(1) by (simp add: t calm_def)
  next
    case False
    then show ?thesis using v(1) cu(1) by (simp add: t calm_def)
  qed
qed


subsection \<open>The request routine unlocks nothing\<close>

text \<open>A jump back to the start of the request routine happens with the request unended or ended.\<close>

lemma start_command_outcome:
  assumes "start_command pf cur again s = Inr t" and "current_request (BLK_DEV_INFO s 3) = Some cur"
  shows "calm s t \<or> (\<exists>u. again u = Inr t \<and> BLK_DEV_INFO u = BLK_DEV_INFO s \<and>
    (calm s u \<or> r_dev (REQUEST_INFO u cur) = - 1))"
proof -
  let ?r = "REQUEST_INFO s cur"
  have nz: "\<not> (hd_sector (HARD_DISK_INFO s) = 0 \<or> hd_head (HARD_DISK_INFO s) = 0)"
    using assms(1) by (auto simp: start_command_def Let_def split: if_splits)
  note e = assms(1) [unfolded start_command_def Let_def if_not_P [OF nz]]
  have flag: "calm s (s\<lparr>hd_reset := a, hd_recalibrate := b\<rparr>)" "calm s (s\<lparr>hd_recalibrate := b\<rparr>)" for a b
    by (simp_all add: calm_def)
  consider "hd_reset s" | "\<not> hd_reset s" "hd_recalibrate s" | "\<not> hd_reset s" "\<not> hd_recalibrate s" "r_cmd ?r = WRITE"
    | "\<not> hd_reset s" "\<not> hd_recalibrate s" "r_cmd ?r \<noteq> WRITE" by blast
  then show ?thesis
  proof cases
    case 1
    then show ?thesis using e calm_trans [OF flag(1) resetHd_calm] by simp
  next
    case 2
    then show ?thesis using e calm_trans [OF flag(2) hdOut_calm] by simp
  next
    case 3
    obtain a b c d g where "andThen (hdOut pf a b c d g 0x30 WriteIntr s) (\<lambda>s.
        case drq_loop (pf_dev pf) 3000 s of (r, s) \<Rightarrow> if \<not> r then andThen (badRwIntr pf s) again
          else Inr (portWrite (DATA s) (pf_esi pf (trace s)) HD_DATA (r_buffer (REQUEST_INFO s cur)) 256 s)) = Inr t"
      using e 3 by simp
    then obtain u where u: "hdOut pf a b c d g 0x30 WriteIntr s = Inr u"
      "(case drq_loop (pf_dev pf) 3000 u of (r, s) \<Rightarrow> if \<not> r then andThen (badRwIntr pf s) again
          else Inr (portWrite (DATA s) (pf_esi pf (trace s)) HD_DATA (r_buffer (REQUEST_INFO s cur)) 256 s)) = Inr t" by auto
    obtain r v where v: "drq_loop (pf_dev pf) 3000 u = (r, v)" by fastforce
    have sv: "calm s v" using hdOut_calm [OF u(1)] calm_io [OF drq_loop_more [OF v]] by (rule calm_trans)
    then have cv: "current_request (BLK_DEV_INFO v 3) = Some cur" "BLK_DEV_INFO v = BLK_DEV_INFO s" using assms(2) by (simp_all add: calm_def)
    show ?thesis
    proof (cases r)
      case True
      then have "t = portWrite (DATA v) (pf_esi pf (trace v)) HD_DATA (r_buffer (REQUEST_INFO v cur)) 256 v" using u(2) v by simp
      then have "calm v t" by (simp add: portWrite_def calm_def)
      with sv show ?thesis using calm_trans by blast
    next
      case False
      then obtain w where w: "badRwIntr pf v = Inr w" "again w = Inr t" using u(2) v by auto
      with badRwIntr_outcome [OF w(1) cv(1)] sv show ?thesis unfolding calm_def by (intro disjI2 exI [of _ w]) auto
    qed
  next
    case 4
    then show ?thesis using e hdOut_calm calm_kmsg by (auto simp del: append.simps split: if_splits)
  qed
qed


text \<open>When the request routine returns, every buffer is as it was.\<close>

lemma request_loop_buffers:
  "current_request (BLK_DEV_INFO s 3) = Some cur \<Longrightarrow> request_loop n pf cur s = Inr t \<Longrightarrow> BUF t = BUF s"
proof (induction n arbitrary: s)
  case (Suc n)
  obtain u where u: "check_request pf cur s = Inr u" and r: "(let dev = MINOR (r_dev (REQUEST_INFO u cur)); block = r_sector (REQUEST_INFO u cur)
       in if dev \<ge> 5 \<or> block + 2 > start_sector (HD_INFO u (unat dev)) + cnt_sectors (HD_INFO u (unat dev)) - 1
          then andThen (endRequest pf 0 u) (request_loop n pf cur)
          else start_command pf cur (request_loop n pf cur) u) = Inr t"
    using Suc.prems(2) by auto
  have su: "BUF u = BUF s" "BLK_DEV_INFO u = BLK_DEV_INFO s" using check_request_calm [OF u] by (simp_all add: calm_def)
  then have c: "current_request (BLK_DEV_INFO u 3) = Some cur" using Suc.prems(1) by simp
  have "start_command pf cur (request_loop n pf cur) u = Inr t"
  proof (rule ccontr)
    assume "start_command pf cur (request_loop n pf cur) u \<noteq> Inr t"
    then obtain w where w: "endRequest pf 0 u = Inr w" "request_loop n pf cur w = Inr t"
      using r unfolding Let_def by (auto split: if_splits)
    show False using ended_request_stuck [of w cur n pf t] endRequest_frame(1,2) [OF w(1) c] c w(2) by simp
  qed
  from start_command_outcome [OF this c] show ?case
  proof (elim disjE exE conjE)
    fix w assume w: "request_loop n pf cur w = Inr t" "BLK_DEV_INFO w = BLK_DEV_INFO u" "r_dev (REQUEST_INFO w cur) = - 1"
    show ?thesis using ended_request_stuck [of w cur n pf t] w c by simp
  next
    fix w assume w: "request_loop n pf cur w = Inr t" "BLK_DEV_INFO w = BLK_DEV_INFO u" "calm u w"
    have "current_request (BLK_DEV_INFO w 3) = Some cur" using w(2) c by simp
    from Suc.IH [OF this w(1)] w(3) su show ?thesis by (simp add: calm_def)
  qed (use su in \<open>simp add: calm_def\<close>)
qed simp

lemma harddiskRequest_buffers: "harddiskRequest pf s = Inr t \<Longrightarrow> BUF t = BUF s"
  by (auto simp: harddiskRequest_def split: option.splits dest: request_loop_buffers)

lemma call_request_fn_buffers: "call_request_fn pf major s = Inr t \<Longrightarrow> BUF t = BUF s"
  by (auto simp: call_request_fn_def split: option.splits request_fn.splits dest: harddiskRequest_buffers)


subsection \<open>The lock of the buffer\<close>

lemma addRequest_locks:
  assumes "addRequest pf major req s = Inr t"
  shows "b_lock (BUF t b) = b_lock (BUF s b)"
proof -
  define u where "u = disableInt (upd_req req (\<lambda>r. r\<lparr>r_next := None\<rparr>) s)"
  define bh where "bh = r_bh (REQUEST_INFO u req)"
  define v where "v = (if bh \<noteq> 0 then upd_buf bh (\<lambda>b. b\<lparr>b_dirt := 0\<rparr>) u else u)"
  have "BUF u = BUF s" by (simp add: u_def upd_req_def disableInt_frame)
  then have l: "b_lock (BUF v b) = b_lock (BUF s b)" by (simp add: v_def upd_buf_def)
  have "case current_request (BLK_DEV_INFO v major) of
      None \<Rightarrow> call_request_fn pf major (enableInt (upd_dev major (\<lambda>d. d\<lparr>current_request := Some req\<rparr>) v)) = Inr t
    | Some tmp \<Rightarrow> BUF t = BUF v"
    using assms unfolding addRequest_def Let_def u_def [symmetric] bh_def [symmetric] v_def [symmetric]
    by (auto simp: upd_req_def enableInt_frame split: option.splits)
  then have "BUF t = BUF v"
    by (auto simp: upd_dev_def enableInt_frame split: option.splits dest!: call_request_fn_buffers)
  then show ?thesis using l by simp
qed

lemma get_request_keeps:
  assumes "get_request n pf rw ahead s = Inr (r, t)" and "L s" and "undisturbed L" and "keeps (pf_others pf) L"
  shows "L t"
  using assms(1,2)
proof (induction n arbitrary: s)
  case (Suc n)
  show ?case
  proof (cases "t = s")
    case False
    then obtain u where u: "sleepOn pf WAIT_FOR_REQUEST s = Inr u" "get_request n pf rw ahead u = Inr (r, t)"
      using Suc.prems(1) by (auto split: option.splits if_splits)
    show ?thesis by (rule Suc.IH [OF u(2) sleepOn_keeps [OF u(1) Suc.prems(2) assms(3,4)]])
  qed (use Suc.prems in simp)
qed simp

lemma get_request_found: "get_request n pf rw False s \<noteq> Inr (None, t)"
  by (induction n arbitrary: s) (auto split: option.splits)

text \<open>A read of an unlocked buffer without valid contents locks it, and returns with the lock held.\<close>

lemma makeRequest_read_locks:
  assumes "makeRequest pf major READ bh s = Inr t" and "b_lock (BUF s bh) = 0" and "b_uptodate (BUF s bh) = 0" and "0 < pf_fuel pf"
    and others: "keeps (pf_others pf) (\<lambda>s. b_lock (BUF s bh) \<noteq> 0)"
  shows "b_lock (BUF t bh) \<noteq> 0"
proof -
  let ?u = "enableInt (upd_buf bh (\<lambda>b. b\<lparr>b_lock := 1\<rparr>) (disableInt s))"
  have l: "lockBuffer pf bh s = Inr ?u"
    using wait_loop_now [of "\<lambda>s. b_lock (BUF s bh) \<noteq> 0" "disableInt s" "pf_fuel pf" pf] assms(2,4)
    by (simp add: lockBuffer_def disableInt_frame)
  have u: "b_lock (BUF ?u bh) \<noteq> 0" "b_uptodate (BUF ?u bh) = 0" using assms(3) by (simp_all add: upd_buf_def enableInt_frame disableInt_frame)
  obtain r v where v: "get_request (pf_fuel pf) pf READ False ?u = Inr (r, v)"
    and a: "(case r of None \<Rightarrow> unlockBuffer pf bh v
      | Some req \<Rightarrow> addRequest pf major req (upd_req req (\<lambda>_. \<lparr>r_dev = ucast (b_dev (BUF v bh)), r_cmd = READ, r_errors = 0,
          r_sector = push_bit 1 (b_block_nr (BUF v bh)), r_nr_sectors = 2, r_buffer = b_data (BUF v bh),
          r_bh = bh, r_next = None\<rparr>) (set_waitq (RequestWait req) 0 v))) = Inr t"
    using assms(1) u(2) unfolding makeRequest_def Let_def by (auto simp: l split: option.splits)
  have lv: "b_lock (BUF v bh) \<noteq> 0" by (rule get_request_keeps [OF v u(1) undisturbed_buffer others])
  obtain req where "r = Some req" using get_request_found [of "pf_fuel pf" pf READ ?u v] v by (cases r) auto
  with a addRequest_locks [of pf major req _ t bh] have "b_lock (BUF t bh) = b_lock (BUF v bh)"
    by (simp add: upd_req_def set_waitq_def)
  with lv show ?thesis by simp
qed


lemma ll_rw_block_read_locks:
  assumes "ll_rw_block pf READ bh s = Inr t" and "b_lock (BUF s bh) = 0" and "b_uptodate (BUF s bh) = 0" and "0 < pf_fuel pf"
    and "b_dev (BUF s bh) = 0x300" and "request_fn (BLK_DEV_INFO s 3) \<noteq> None" and "keeps (pf_others pf) (\<lambda>s. b_lock (BUF s bh) \<noteq> 0)"
  shows "b_lock (BUF t bh) \<noteq> 0"
proof -
  have "MAJOR (ucast (b_dev (BUF s bh))) = 3" by (simp add: assms(5) MAJOR_def)
  then have "makeRequest pf 3 READ bh s = Inr t" using assms(1,6) by (auto simp: ll_rw_block_def Let_def simp del: append.simps)
  from makeRequest_read_locks [OF this assms(2-4,7)] show ?thesis .
qed

lemma bread_stuck:
  fixes pf :: "'a fs_scheme platform"
  assumes inv: "cache_inv s (us @ x # vs)" and len: "us @ vs \<noteq> []" and fuel: "length (us @ x # vs) + 1 < pf_fuel pf"
    and miss: "holdings (BUF s) (us @ x # vs) (0x300, n) = None"
    and busy: "\<forall>u \<in> set us. \<not> clean_free (BUF s u)" and free: "clean_free (BUF s x)"
    and dev: "request_fn (BLK_DEV_INFO s 3) \<noteq> None" and others: "keeps (pf_others pf) (\<lambda>s. b_lock (BUF s x) \<noteq> 0)"
  shows "bread pf 0x300 n s \<noteq> Inr r"
proof
  assume b: "bread pf 0x300 n s = Inr r"
  have d: "(0x300 :: u16) \<noteq> 0" by simp
  obtain t where t: "getblk pf (ucast (0x300 :: u16)) n s = Inr (x, t)" "unlinked (BUF t x) = unlinked (recycled 0x300 n (BUF s x))"
    "\<exists>B H f R. t = s\<lparr>int_flag := True\<rparr>\<lparr>BUF := B, BUFFER_HASH_TABLE := H, BUFFER_FREE_LIST := f, ram := R\<rparr>"
    using getblk_miss [OF inv len fuel d miss busy free] by blast
  note e = unlinked_eqD [OF t(2)]
  have tx: "b_lock (BUF t x) = 0" "b_uptodate (BUF t x) = 0" "b_dev (BUF t x) = 0x300"
    using e free by (simp_all add: recycled_def clean_free_def)
  have td: "request_fn (BLK_DEV_INFO t 3) \<noteq> None" using t(3) dev by auto
  have x0: "x \<noteq> 0" using inv by (auto simp: cache_inv_def ring_ok_def)
  have f: "0 < pf_fuel pf" using fuel by simp
  obtain u v where u: "ll_rw_block pf READ x t = Inr u" "waitOnBuffer pf x u = Inr v"
    using b t(1) tx(2) x0 by (auto simp: bread_def bread_with_def)
  have "b_lock (BUF u x) \<noteq> 0" by (rule ll_rw_block_read_locks [OF u(1) tx(1,2) f tx(3) td others])
  then show False using buffer_lock.wait_held [OF _ others, of u v] u(2) by blast
qed


subsection \<open>The set-up of the disk\<close>

lemma sysSetup_reads:
  assumes "sysSetup pf drv s = Inr y"
  shows "\<exists>u r. bread pf 0x300 0 u = Inr r \<and> BUF u = BUF s \<and> BLK_DEV_INFO u = BLK_DEV_INFO s \<and>
    BUFFER_FREE_LIST u = BUFFER_FREE_LIST s \<and> BUFFER_HASH_TABLE u = BUFFER_HASH_TABLE s"
proof -
  define a where "a = outByte 0x70 0x92 (s\<lparr>HARD_DISK_INFO := drive_parameters (DATA s) drv\<rparr>)"
  define b where "b = snd (inByte (pf_dev pf) 0x71 a)"
  define c where "c = b\<lparr>HD_INFO := (HD_INFO b)(0 := \<lparr>start_sector = 0,
    cnt_sectors = hd_head (HARD_DISK_INFO b) * hd_sector (HARD_DISK_INFO b) * hd_cylinder (HARD_DISK_INFO b)\<rparr>)\<rparr>"
  have "\<exists>r. bread pf 0x300 0 c = Inr r"
    using assms unfolding sysSetup_def Let_def a_def [symmetric]
    by (auto simp: c_def b_def inByte_def simp del: append.simps split: if_splits)
  moreover have "BUF c = BUF s" "BLK_DEV_INFO c = BLK_DEV_INFO s" "BUFFER_FREE_LIST c = BUFFER_FREE_LIST s"
    "BUFFER_HASH_TABLE c = BUFFER_HASH_TABLE s"
    by (simp_all add: c_def b_def a_def inByte_def outByte_def)
  ultimately show ?thesis by blast
qed

text \<open>C22. The set-up call of the first program never returns, whatever the disk answers, unless somebody else unlocks
  the buffer of the partition table: on the way through the cache, the request queue and the request routine the
  buffer stays locked, and only an interrupt of the disk could end the request. (The start of the kernel
  installs no handler for it.)\<close>

theorem setup_stuck:
  fixes pf :: "'a fs_scheme platform"
  assumes inv: "cache_inv s (us @ x # vs)" and len: "us @ vs \<noteq> []" and fuel: "length (us @ x # vs) + 1 < pf_fuel pf"
    and miss: "holdings (BUF s) (us @ x # vs) (0x300, 0) = None"
    and busy: "\<forall>u \<in> set us. \<not> clean_free (BUF s u)" and free: "clean_free (BUF s x)"
    and dev: "request_fn (BLK_DEV_INFO s 3) \<noteq> None" and others: "keeps (pf_others pf) (\<lambda>s. b_lock (BUF s x) \<noteq> 0)"
  shows "setup_stub pf r drv s \<noteq> Inr y"
proof
  assume "setup_stub pf r drv s = Inr y"
  then have "sysSetup pf drv s = Inr y" by (simp add: setup_stub_def sysCall_def SYS_CALL_TABLE_def)
  then obtain u z where u: "bread pf 0x300 0 u = Inr z" "BUF u = BUF s" "BLK_DEV_INFO u = BLK_DEV_INFO s"
    "BUFFER_FREE_LIST u = BUFFER_FREE_LIST s" "BUFFER_HASH_TABLE u = BUFFER_HASH_TABLE s" using sysSetup_reads by blast
  have i: "cache_inv u (us @ x # vs)" by (rule cache_inv_same [OF inv]) (simp_all add: u same_place_def)
  have "bread pf 0x300 0 u \<noteq> Inr z"
    by (rule bread_stuck [OF i len fuel _ _ _ _ others]) (use miss busy free dev u in simp_all)
  with u(1) show False by blast
qed

theorem setup_stuck_witness:
  "\<exists>s :: fs. initBuffer 0x800000 fs_boot = Inr s \<and>
    (\<forall>y. setup_stub (some_platform Inr) some_regs 0x9A010 (upd_dev 3 (\<lambda>d. d\<lparr>request_fn := Some HarddiskRequest\<rparr>) s) \<noteq> Inr y)"
proof -
  obtain s where s: "initBuffer 0x800000 fs_boot = Inr s" "cache_inv s (map head_at [0..<989])"
    "\<forall>k < 989. b_dev (BUF s (head_at k)) = 0 \<and> clean_free (BUF s (head_at k))" using fs_boot_cache by auto
  define vs where "vs = map head_at [1..<989]"
  define t where "t = upd_dev 3 (\<lambda>d. d\<lparr>request_fn := Some HarddiskRequest\<rparr>) s"
  have "[0..<989] = 0 # [Suc 0..<989]" by (rule upt_conv_Cons) simp
  then have l: "map head_at [0..<989] = head_at 0 # vs" by (simp only: vs_def list.map One_nat_def)
  have len: "length vs = 988" unfolding vs_def length_map length_upt by simp
  have B: "BUF t = BUF s" by (simp add: t_def upd_dev_def)
  have "cache_inv s ([] @ head_at 0 # vs)" using s(2) unfolding l by simp
  then have inv: "cache_inv t ([] @ head_at 0 # vs)"
    by (rule cache_inv_same) (simp_all add: t_def upd_dev_def same_place_def)
  have "b_dev (BUF t b) = 0" if b: "b \<in> set (head_at 0 # vs)" for b
  proof -
    have "b \<in> head_at ` {0..<989}" using b unfolding l [symmetric] set_map set_upt .
    then show ?thesis using s(3) by (auto simp: B)
  qed
  then have miss: "holdings (BUF t) ([] @ head_at 0 # vs) (0x300, 0) = None" by (simp add: holdings_def holder_None)
  have ne: "[] @ vs \<noteq> []" using len by auto
  have fu: "length ([] @ head_at 0 # vs) + 1 < pf_fuel (some_platform Inr)" by (simp add: some_platform_def len)
  have busy: "\<forall>u \<in> set []. \<not> clean_free (BUF t u)" by simp
  have free: "clean_free (BUF t (head_at 0))" using s(3) by (simp add: B)
  have dev: "request_fn (BLK_DEV_INFO t 3) \<noteq> None" by (simp add: t_def upd_dev_def)
  have oth: "keeps (pf_others (some_platform Inr)) (\<lambda>s :: fs. b_lock (BUF s (head_at 0)) \<noteq> 0)" by (simp add: keeps_def some_platform_def)
  have "setup_stub (some_platform Inr) some_regs 0x9A010 t \<noteq> Inr y" for y
    by (rule setup_stuck [OF inv ne fu miss busy free dev oth])
  with s(1) show ?thesis unfolding t_def by blast
qed

end
