(* ===== verification/Entry.thy ===== *)
theory Entry
  imports Programs
begin

section \<open>The entries of interrupts, exceptions and system calls\<close>

text \<open>
  \<^verbatim>\<open>kernel/int.asm\<close>: what runs between a gate of the interrupt descriptor table and the handlers of the
  other theories, and what happens before the interrupted program goes on. Saving and loading the
  registers around a handler leaves the interrupted program's registers as they were, so the model shows
  none of it. Every gate is an interrupt gate: the processor disables interrupts on the way in, and
  \<^verbatim>\<open>iret\<close> loads the flag that the interrupted program had.
\<close>

subsection \<open>Exceptions\<close>

text \<open>
  The number that an entry pushes for \<open>syserrHandler\<close>. For the entries that push no error code the
  processor has pushed one.
\<close>

fun pushed_vector :: "isr \<Rightarrow> u32 option" where
  "pushed_vector DivideError = Some 0x0"
| "pushed_vector SingleStepException = Some 0x1"
| "pushed_vector Nmi = Some 0x2"
| "pushed_vector BreakpointException = Some 0x3"
| "pushed_vector OverflowException = Some 0x4"
| "pushed_vector BoundsCheck = Some 0x5"
| "pushed_vector InvalOpcode = Some 0x6"
| "pushed_vector CoprNotAvailable = Some 0x7"
| "pushed_vector DoubleFault = Some 0x8"
| "pushed_vector CoprSegOverrun = Some 0x9"
| "pushed_vector InvalTss = Some 0xA"
| "pushed_vector SegmentNotPresent = Some 0xB"
| "pushed_vector StackException = Some 0xC"
| "pushed_vector GeneralProtection = Some 0xD"
| "pushed_vector CoprError = Some 0xF"
| "pushed_vector _ = None"

definition own_code :: "isr \<Rightarrow> bool" where
  "own_code h \<longleftrightarrow> h \<in> {DoubleFault, InvalTss, SegmentNotPresent, StackException, GeneralProtection}"

text \<open>What the processor leaves on the stack and in its registers when it enters the kernel.\<close>

record entry_frame =
  x_code :: u32
  x_eip :: u32
  x_cs :: u32
  x_eflags :: u32
  x_cr2 :: u32
  x_eax :: u32
  x_regs :: regs

definition exception_entry ::
  "'a kernel_scheme platform \<Rightarrow> u32 \<Rightarrow> isr \<Rightarrow> u32 \<Rightarrow> entry_frame \<Rightarrow> 'a kernel_scheme \<Rightarrow> 'a kernel_scheme outcome" where
  "exception_entry pf err_text h vector x s =
     andThen (syserrHandler pf err_text vector (if own_code h then x_code x else 0xFFFFFFFF) (x_eip x) (x_cs x) (x_eflags x) s)
       (\<lambda>_. Inl (Hang ''exception''))"

text \<open>Bit 0 of the error code tells a page that is protected from one that is missing.\<close>

definition page_fault :: "'a memory_scheme platform \<Rightarrow> u32 \<Rightarrow> u32 \<Rightarrow> 'a memory_scheme \<Rightarrow> 'a memory_scheme outcome" where
  "page_fault pf code cr2 s =
     (if code AND 1 \<noteq> 0 then writeProtectPage (pf_str pf) (pf_fuel pf) cr2 s
      else missingPage (pf_str pf) (pf_fuel pf) cr2 s)"

subsection \<open>Interrupts of the controllers\<close>

text \<open>The call through \<^verbatim>\<open>IRQ_TABLE\<close>; a line without a handler has the address 0 there.\<close>

definition call_irq :: "'a blk_scheme platform \<Rightarrow> nat \<Rightarrow> 'a blk_scheme \<Rightarrow> 'a blk_scheme outcome" where
  "call_irq pf irq s =
     (case IRQ_TABLE s irq of
        None \<Rightarrow> Inl (Fault ''IRQ_TABLE'')
      | Some TimerHandler \<Rightarrow> timerHandler (pf_fuel pf) s
      | Some KeyboardHandler \<Rightarrow> keyboardHandler (pf_dev pf) (pf_fuel pf) s
      | Some ReadIntr \<Rightarrow> readIntr pf s
      | Some WriteIntr \<Rightarrow> writeIntr pf s
      | Some RecalIntr \<Rightarrow> recalIntr pf s)"

text \<open>A handler that has switched to another process is gone on with when the others switch back to \<open>me\<close>.\<close>

definition switched_back :: "'a kernel_scheme platform \<Rightarrow> u32 \<Rightarrow> 'a kernel_scheme \<Rightarrow> 'a kernel_scheme outcome" where
  "switched_back pf me s =
     (if CURRENT s = me then Inr s else andThen (pf_others pf s) (\<lambda>s. Inr (s\<lparr>CURRENT := me\<rparr>)))"

text \<open>
  The end of interrupt is sent to the master, and for the lines of the slave to the slave as well, before
  the handler is called with interrupts enabled.
\<close>

definition hwint :: "'a blk_scheme platform \<Rightarrow> nat \<Rightarrow> 'a blk_scheme \<Rightarrow> 'a blk_scheme outcome" where
  "hwint pf irq s =
     (let s = outByte 0x20 0x20 s;
          s = (if irq < 8 then s else outByte 0xA0 0x20 s)
      in andThen (call_irq pf irq (enableInt s)) (switched_back pf (CURRENT s)))"

subsection \<open>System calls\<close>

text \<open>
  After a system call the process gives up the processor if it is not runnable. Then EAX is used as the
  address of the process once more, though \<open>schedule\<close> does not keep it: \<open>eax_word\<close> is the word that is read
  in place of the time slice.
\<close>

definition sys_return :: "'a kernel_scheme platform \<Rightarrow> ('a kernel_scheme \<Rightarrow> t32) \<Rightarrow> 'a kernel_scheme \<Rightarrow> 'a kernel_scheme outcome" where
  "sys_return pf eax_word s =
     (if p_state (PROC s (CURRENT s)) = TASK_RUNNING then Inr s
      else andThen (reschedule pf s) (\<lambda>s. if eax_word s \<noteq> 0 then Inr s else reschedule pf s))"

definition sysCall_entry ::
  "'a fs_scheme platform \<Rightarrow> ('a fs_scheme \<Rightarrow> t32) \<Rightarrow> u32 \<Rightarrow> regs \<Rightarrow> 'a fs_scheme \<Rightarrow> (t32 \<times> 'a fs_scheme) outcome" where
  "sysCall_entry pf eax_word eax r s =
     andThen (sysCall pf eax r s) (\<lambda>(v, s). andThen (sys_return pf eax_word s) (\<lambda>s. Inr (v, s)))"

subsection \<open>An interrupt from the gate to the return\<close>

text \<open>
  The routine that the gate of \<open>h\<close> opens, from the processor's entry to \<^verbatim>\<open>iret\<close>, with what is left in EAX.
\<close>

definition interrupt ::
  "'a fs_scheme platform \<Rightarrow> ('a fs_scheme \<Rightarrow> t32) \<Rightarrow> u32 \<Rightarrow> isr \<Rightarrow> entry_frame \<Rightarrow> 'a fs_scheme \<Rightarrow> (u32 \<times> 'a fs_scheme) outcome" where
  "interrupt pf eax_word err_text h x s =
     (let s' = disableInt s;
          iret = (\<lambda>(v, t). Inr (v, t\<lparr>int_flag := int_flag s\<rparr>))
      in case pushed_vector h of
           Some n \<Rightarrow> andThen (exception_entry pf err_text h n x s') (\<lambda>t. Inr (x_eax x, t))
         | None \<Rightarrow>
             (case h of
                PageFault \<Rightarrow> andThen (andThen (page_fault pf (x_code x) (x_cr2 x) s') (\<lambda>t. Inr (x_eax x, t))) iret
              | Hwint irq \<Rightarrow> andThen (andThen (hwint pf irq s') (\<lambda>t. Inr (x_eax x, t))) iret
              | _ \<Rightarrow> andThen (sysCall_entry pf eax_word (x_eax x) (x_regs x) s') iret))"

subsection \<open>Page faults\<close>

text \<open>The address of the entry that maps a linear address.\<close>

definition page_entry :: "(u32 \<Rightarrow> u32) \<Rightarrow> u32 \<Rightarrow> u32" where
  "page_entry m a = (m (push_bit 2 (drop_bit 22 a)) AND 0xFFFFF000) + push_bit 2 (drop_bit 12 a AND 0x3FF)"

lemma page_entry_table: "page_entry m a \<in> words 1024 (page_addr (frame_of (m (push_bit 2 (drop_bit 22 a)))))"
proof -
  let ?k = "unat (drop_bit 12 a AND 0x3FF)"
  have "drop_bit 12 a AND 0x3FF \<le> 0x3FF" by (rule word_and_le1)
  then have "?k < 1024" by (simp add: word_le_nat_alt)
  moreover have "page_entry m a = page_addr (frame_of (m (push_bit 2 (drop_bit 22 a)))) + 4 * of_nat ?k"
    using page_of_frame [of "m (push_bit 2 (drop_bit 22 a))"]
    by (simp add: page_entry_def and.commute push_bit_eq_mult mult.commute)
  ultimately show ?thesis unfolding words_iff by blast
qed

text \<open>What a page fault prints: the address, in hexadecimal below 2 GB.\<close>

definition fault_text :: "t8 list \<Rightarrow> t8 list" where
  "fault_text ds = map of_char ''addr:0x'' @ ds @ [9]"

lemma fault_message:
  assumes "terminal_ready 0 s" and "1022 \<le> fuel"
  shows "\<exists>ds n t. printk tx fuel addr_fmt (\<lambda>_. a) s = Inr (n, t) \<and> hex_digits tx 4 a ds \<and>
    shown 0 (fault_text ds) s t \<and> console.more t = console.more s"
proof -
  obtain ds where ds: "hex_digits tx 4 a ds" "length ds \<le> 10" "number tx a 16 (-1) 4 = Inr ([48, 120] @ ds)"
    using number_hex [of 4 tx a] by (auto simp: hex_digits_def)
  have f: "addr_fmt = [97, 100, 100, 114, 58] @ 37 # 120 # [9]" by (simp add: addr_fmt_def)
  have "convert tx 120 a (-1) 0 = Some (Inr ([48, 120] @ ds))" using ds(3) by (simp add: convert_def)
  from vsprintf_one [OF _ _ this, where pre = "[97, 100, 100, 114, 58]" and suf = "[9]" and k = 0]
  have v: "vsprintf tx (\<lambda>_. a) 0 addr_fmt = Inr (fault_text ds)"
    unfolding f fault_text_def by (simp add: plain_text_def of_char_def del: vsprintf.simps)
  have l: "length (fault_text ds) < 512" using ds(2) by (simp add: fault_text_def)
  then obtain t where t: "ttyWrite fuel 0 (fault_text ds) s = Inr (length (fault_text ds), t)" "shown 0 (fault_text ds) s t"
    using ttyWrite_shows [OF assms(1), of "fault_text ds" fuel] assms(2) by auto
  have p: "printk tx fuel addr_fmt (\<lambda>_. a) s = Inr (length (fault_text ds), t)"
    using v t(1) l by (simp add: printk_def)
  show ?thesis using p t(2) ds(1) printk_more [OF p] by blast
qed

lemma memory_view:
  assumes "console.more t = console.more s"
  shows "ram t = ram s" "MEM_MAP t = MEM_MAP s" "mem_ok t = mem_ok s" "free_frames t = free_frames s"
proof -
  show "ram t = ram s" "MEM_MAP t = MEM_MAP s" using assms by (cases s; cases t; simp)+
  then show "mem_ok t = mem_ok s" "free_frames t = free_frames s" by (simp_all add: mem_ok_def free_frames_def)
qed

lemma page_fault_message:
  assumes "terminal_ready 0 s" and "1022 \<le> pf_fuel pf"
  shows "\<exists>ds t. page_fault pf code a s = (if code AND 1 \<noteq> 0 then unWriteProtectPage (page_entry (ram s) a) t else Inr t) \<and>
    hex_digits (pf_str pf) 4 a ds \<and> shown 0 (fault_text ds) s t \<and> console.more t = console.more s"
proof -
  obtain ds n t where t: "printk (pf_str pf) (pf_fuel pf) addr_fmt (\<lambda>_. a) s = Inr (n, t)" "hex_digits (pf_str pf) 4 a ds"
    "shown 0 (fault_text ds) s t" "console.more t = console.more s"
    using fault_message [OF assms] by blast
  have "page_fault pf code a s = (if code AND 1 \<noteq> 0 then unWriteProtectPage (page_entry (ram s) a) t else Inr t)"
    using t(1) memory_view(1) [OF t(4)]
    by (simp add: page_fault_def writeProtectPage_def missingPage_def page_entry_def)
  with t(2-4) show ?thesis by blast
qed

lemma only_memory_copy_words: "only_memory s (copy_words n d a s)"
proof (induction n arbitrary: d a s)
  case (Suc n)
  have "only_memory s (poke d (ram s a) s)" by simp
  also have "only_memory \<dots> (copy_words n (d + 4) (a + 4) (poke d (ram s a) s))" by (rule Suc.IH)
  finally show ?case by simp
qed simp

lemma only_memory_unWriteProtectPage:
  assumes "unWriteProtectPage item s = Inr s'"
  shows "only_memory s s'"
proof -
  obtain a t where g: "getFreePage s = (a, t)" by fastforce
  have t: "only_memory s t" by (rule only_memory_getFreePage [OF g])
  have u: "map_add k z t = Inr u \<Longrightarrow> only_memory s u" for k z u
    using only_memory_trans [OF t only_memory_map_add] .
  have p: "only_memory s u \<Longrightarrow> only_memory s (loadCR3 c (poke item v u))" for c v u
    using only_memory_trans [OF _ only_memory_trans [OF only_memory_updates(4) only_memory_updates(5)]] .
  have c: "only_memory s u \<Longrightarrow> only_memory s (copy_words n d e (loadCR3 c (poke item v u)))" for n d e c v u
    using only_memory_trans [OF p only_memory_copy_words] .
  show ?thesis using assms
    by (auto simp: unWriteProtectPage_def Let_def g split: if_splits intro: c p t u)
qed

lemma disableInt_view [simp]:
  "terminal_ready k (disableInt s) = terminal_ready k s" "con_abs (disableInt s) = con_abs s"
  "TTY_TABLE (disableInt s) = TTY_TABLE s" "console.more (disableInt s) = console.more s"
  "terminal_ready k (s\<lparr>int_flag := b\<rparr>) = terminal_ready k s" "con_abs (s\<lparr>int_flag := b\<rparr>) = con_abs s"
  by (simp_all add: disableInt_def terminal_ready_def con_inv_def tty_inv_def con_abs_def)

lemma only_memory_console:
  assumes "only_memory s s'"
  shows "con_abs s' = con_abs s" "terminal_ready k s' = terminal_ready k s" "TTY_TABLE s' = TTY_TABLE s" "io.truncate s' = io.truncate s"
proof -
  have "con_abs (s\<lparr>MEM_MAP := m, ram := r, cr3 := c\<rparr>) = con_abs s" 
    "terminal_ready k (s\<lparr>MEM_MAP := m, ram := r, cr3 := c\<rparr>) = terminal_ready k s" 
    "TTY_TABLE (s\<lparr>MEM_MAP := m, ram := r, cr3 := c\<rparr>) = TTY_TABLE s"
    "io.truncate (s\<lparr>MEM_MAP := m, ram := r, cr3 := c\<rparr>) = io.truncate s" for m r c
    by (simp_all add: con_abs_def terminal_ready_def con_inv_def tty_inv_def io.truncate_def)
  then show "con_abs s' = con_abs s" "terminal_ready k s' = terminal_ready k s" "TTY_TABLE s' = TTY_TABLE s" "io.truncate s' = io.truncate s"
    using assms unfolding only_memory_def by metis+
qed

lemma interrupt_simps:
  "interrupt pf w e PageFault x s =
     andThen (page_fault pf (x_code x) (x_cr2 x) (disableInt s)) (\<lambda>t. Inr (x_eax x, t\<lparr>int_flag := int_flag s\<rparr>))"
  "interrupt pf w e (Hwint irq) x s =
     andThen (hwint pf irq (disableInt s)) (\<lambda>t. Inr (x_eax x, t\<lparr>int_flag := int_flag s\<rparr>))"
  "interrupt pf w e SysCall x s =
     andThen (sysCall_entry pf w (x_eax x) (x_regs x) (disableInt s)) (\<lambda>(v, t). Inr (v, t\<lparr>int_flag := int_flag s\<rparr>))"
  by (simp_all add: interrupt_def Let_def andThen_assoc)

lemma int_flag_frame [simp]:
  "ram (s\<lparr>int_flag := b\<rparr>) = ram s" "MEM_MAP (s\<lparr>int_flag := b\<rparr>) = MEM_MAP s"
  "TTY_TABLE (s\<lparr>int_flag := b\<rparr>) = TTY_TABLE s" "PROC (s\<lparr>int_flag := b\<rparr>) = PROC s" "CURRENT (s\<lparr>int_flag := b\<rparr>) = CURRENT s"
  by simp_all

lemma copied_page_cong:
  "ram s2 = ram s1 \<Longrightarrow> MEM_MAP s2 = MEM_MAP s1 \<Longrightarrow> ram t2 = ram t1 \<Longrightarrow> MEM_MAP t2 = MEM_MAP t1 \<Longrightarrow>
   copied_page item f i s1 t1 = copied_page item f i s2 t2"
  by (simp add: copied_page_def)

subsection \<open>One interrupt after another\<close>

primrec interrupts ::
  "'a fs_scheme platform \<Rightarrow> ('a fs_scheme \<Rightarrow> t32) \<Rightarrow> u32 \<Rightarrow> isr \<Rightarrow> entry_frame \<Rightarrow> nat \<Rightarrow> 'a fs_scheme \<Rightarrow> 'a fs_scheme outcome" where
  "interrupts pf w e h x 0 s = Inr s"
| "interrupts pf w e h x (Suc k) s =
     andThen (interrupts pf w e h x k s) (\<lambda>s. andThen (interrupt pf w e h x s) (\<lambda>(_, s). Inr s))"

text \<open>The state after \<open>k\<close> timer interrupts that only counted: each one was acknowledged at the master.\<close>

definition counted_ticks :: "nat \<Rightarrow> 'a kernel_scheme \<Rightarrow> 'a kernel_scheme" where
  "counted_ticks k s = (ticked k s)\<lparr>trace := replicate k (Out 0x20 0x20) @ trace s\<rparr>"

lemma counted_ticks_simps:
  "CURRENT (counted_ticks k s) = CURRENT s" "TICKS (counted_ticks k s) = TICKS s + of_nat k"
  "TASKS (counted_ticks k s) = TASKS s" "ram (counted_ticks k s) = ram s" "int_flag (counted_ticks k s) = int_flag s"
  "IRQ_TABLE (counted_ticks k s) = IRQ_TABLE s" "written 0x20 (trace (counted_ticks k s)) = written 0x20 (trace s) @ replicate k 0x20"
  "PROC (counted_ticks k s) = (PROC s)(CURRENT s := (PROC s (CURRENT s))\<lparr>p_counter := p_counter (PROC s (CURRENT s)) - of_nat k\<rparr>)"
proof -
  have "written 0x20 (replicate k (Out 0x20 0x20) @ es) = written 0x20 es @ replicate k 0x20" for es
    by (induction k) (simp_all add: replicate_append_same)
  then show "written 0x20 (trace (counted_ticks k s)) = written 0x20 (trace s) @ replicate k 0x20" by (simp add: counted_ticks_def)
qed (simp_all add: counted_ticks_def ticked_def upd_proc_def)

lemma timer_interrupt:
  assumes "IRQ_TABLE s 0 = Some TimerHandler"
  shows "interrupt pf w e (Hwint 0) x s =
    andThen (timerHandler (pf_fuel pf) (s\<lparr>trace := Out 0x20 0x20 # trace s, int_flag := True\<rparr>)) (\<lambda>t.
    andThen (switched_back pf (CURRENT s) t) (\<lambda>t. Inr (x_eax x, t\<lparr>int_flag := int_flag s\<rparr>)))"
  using assms by (simp add: interrupt_simps hwint_def call_irq_def io_defs andThen_assoc)

lemma timer_tick:
  assumes "IRQ_TABLE s 0 = Some TimerHandler"
  shows "interrupt pf w e (Hwint 0) x (counted_ticks k s) =
    (if 0 < sint (p_counter (PROC (counted_ticks (Suc k) s) (CURRENT s))) then Inr (x_eax x, counted_ticks (Suc k) s)
     else andThen (schedule (pf_fuel pf) ((counted_ticks (Suc k) s)\<lparr>int_flag := True\<rparr>)) (\<lambda>t.
       andThen (switched_back pf (CURRENT s) t) (\<lambda>t. Inr (x_eax x, t\<lparr>int_flag := int_flag s\<rparr>))))"
proof -
  let ?s = "counted_ticks k s" and ?t = "(counted_ticks (Suc k) s)\<lparr>int_flag := True\<rparr>"
  have i: "IRQ_TABLE ?s 0 = Some TimerHandler" using assms by (simp add: counted_ticks_simps)
  have "timerHandler (pf_fuel pf) (?s\<lparr>trace := Out 0x20 0x20 # trace ?s, int_flag := True\<rparr>) =
      (if 0 < sint (p_counter (PROC (counted_ticks (Suc k) s) (CURRENT s))) then Inr ?t else schedule (pf_fuel pf) ?t)"
  proof -
    let ?u = "?s\<lparr>trace := Out 0x20 0x20 # trace ?s, int_flag := True\<rparr>"
    let ?v = "upd_proc (CURRENT s) (\<lambda>p. p\<lparr>p_counter := p_counter p - 1\<rparr>) (?u\<lparr>TICKS := TICKS ?u + 1\<rparr>)"
    have v: "?v = ?t"
      by (rule kernel.equality) (simp_all add: counted_ticks_def ticked_def upd_proc_def algebra_simps)
    have "timerHandler (pf_fuel pf) ?u = (if 0 < sint (p_counter (PROC ?v (CURRENT s))) then Inr ?v else schedule (pf_fuel pf) ?v)"
      by (simp add: timerHandler_def Let_def counted_ticks_simps upd_proc_def)
    then show ?thesis unfolding v by simp
  qed
  moreover have "?t\<lparr>int_flag := int_flag s\<rparr> = counted_ticks (Suc k) s"
    by (simp add: counted_ticks_def ticked_def upd_proc_def)
  ultimately show ?thesis unfolding timer_interrupt [OF i] by (simp add: counted_ticks_simps switched_back_def)
qed

lemma timer_counts:
  assumes "IRQ_TABLE s 0 = Some TimerHandler" and "int k < sint (p_counter (PROC s (CURRENT s)))"
  shows "interrupts pf w e (Hwint 0) x k s = Inr (counted_ticks k s)"
  using assms(2)
proof (induction k)
  case 0
  then show ?case by (simp add: counted_ticks_def ticked_def upd_proc_def)
next
  case (Suc k)
  then have "interrupts pf w e (Hwint 0) x k s = Inr (counted_ticks k s)" by simp
  moreover have "sint (p_counter (PROC s (CURRENT s)) - of_nat (Suc k)) = sint (p_counter (PROC s (CURRENT s))) - int (Suc k)"
    using Suc.prems by (intro sint_minus_nat) simp
  ultimately show ?case using Suc.prems
    by (simp add: timer_tick [OF assms(1)] counted_ticks_simps del: of_nat_Suc)
qed

text \<open>The interrupt that uses up the slice: the longest of the other slices gets the processor.\<close>

lemma used_up_slices:
  assumes "tslice' = (\<lambda>i. if TASKS s i = CURRENT s then 0 else tslice s i)" and "int k = sint (p_counter (PROC s (CURRENT s)))"
  shows "runnable (counted_ticks k s) i = runnable s i" "tslice (counted_ticks k s) i = tslice' i"
  using sint_minus_nat [of k "p_counter (PROC s (CURRENT s))"] assms
  by (auto simp: runnable_def tslice_def counted_ticks_simps)

lemma slices_int_flag:
  "runnable (s\<lparr>int_flag := b\<rparr>) i = runnable s i" "tslice (s\<lparr>int_flag := b\<rparr>) i = tslice s i"
  "longest_slice (s\<lparr>int_flag := b\<rparr>) i = longest_slice s i"
  by (simp_all add: longest_slice_def runnable_def tslice_def)

lemma timer_preempts:
  assumes irq: "IRQ_TABLE s 0 = Some TimerHandler" and k: "int k = sint (p_counter (PROC s (CURRENT s)))" "0 < k"
    and "ram s 0 \<noteq> 1" and "0 < pf_fuel pf" and i: "runnable s i" "TASKS s i \<noteq> CURRENT s" "0 < tslice s i"
  shows "\<exists>j. runnable s j \<and> TASKS s j \<noteq> CURRENT s \<and>
    (\<forall>i. runnable s i \<and> TASKS s i \<noteq> CURRENT s \<longrightarrow> tslice s i \<le> tslice s j) \<and>
    interrupts pf w e (Hwint 0) x k s =
      andThen (pf_others pf ((counted_ticks k s)\<lparr>int_flag := True, CURRENT := TASKS s j\<rparr>))
        (\<lambda>t. Inr (t\<lparr>CURRENT := CURRENT s, int_flag := int_flag s\<rparr>))"
proof -
  let ?u = "(counted_ticks k s)\<lparr>int_flag := True\<rparr>"
  obtain m where m: "k = Suc m" using k(2) by (cases k) auto
  note v = used_up_slices [OF refl k(1)]
  have "runnable ?u i" "0 < tslice ?u i" using i by (simp_all add: slices_int_flag v)
  then obtain j where j: "longest_slice ?u j" "0 < tslice ?u j" using longest_slice_exists [of ?u i] by force
  have js: "runnable s j" "TASKS s j \<noteq> CURRENT s" "tslice ?u j = tslice s j"
    using j by (auto simp: longest_slice_def slices_int_flag v split: if_splits)
  have best: "tslice s l \<le> tslice s j" if "runnable s l" "TASKS s l \<noteq> CURRENT s" for l
  proof -
    from j(1) that(1) have "tslice ?u l \<le> tslice ?u j" unfolding longest_slice_def slices_int_flag v by force
    then show ?thesis using that(2) js(2) by (simp add: slices_int_flag v)
  qed
  have "schedule (Suc (pf_fuel pf - 1)) ?u = Inr (SWITCH_TO j ?u)"
    using j by (rule schedule_longest) (simp add: counted_ticks_simps assms(4))
  then have sched: "schedule (pf_fuel pf) ?u = Inr (?u\<lparr>CURRENT := TASKS s j\<rparr>)"
    using assms(5) js(2) by (simp add: SWITCH_TO_def counted_ticks_simps)
  have "sint (p_counter (PROC s (CURRENT s)) - of_nat (Suc m)) = 0"
    using sint_minus_nat [of "Suc m" "p_counter (PROC s (CURRENT s))"] k m by simp
  then have z: "\<not> 0 < sint (p_counter (PROC (counted_ticks (Suc m) s) (CURRENT s)))"
    by (simp add: counted_ticks_simps del: of_nat_Suc)
  have "interrupts pf w e (Hwint 0) x m s = Inr (counted_ticks m s)"
    using k m by (intro timer_counts [OF irq]) simp
  then have "interrupts pf w e (Hwint 0) x k s = andThen (schedule (pf_fuel pf) ?u) (\<lambda>t.
       andThen (switched_back pf (CURRENT s) t) (\<lambda>t. Inr (t\<lparr>int_flag := int_flag s\<rparr>)))"
    unfolding m interrupts.simps by (simp add: timer_tick [OF irq] z andThen_assoc)
  also have "\<dots> = andThen (pf_others pf (?u\<lparr>CURRENT := TASKS s j\<rparr>)) (\<lambda>t. Inr (t\<lparr>CURRENT := CURRENT s, int_flag := int_flag s\<rparr>))"
    unfolding sched using js(2) by (simp add: switched_back_def andThen_assoc)
  finally show ?thesis using js(1,2) best by (intro exI [of _ j]) simp
qed

subsection \<open>The numbers of the exceptions\<close>

text \<open>The number that the report of the exception at vector \<open>v\<close> shows.\<close>

definition reported :: "nat \<Rightarrow> nat" where
  "reported v = (if v = 16 then 15 else v)"

text \<open>The vectors for which the processor pushes an error code, but for the page fault.\<close>

definition coded :: "nat \<Rightarrow> bool" where
  "coded v \<longleftrightarrow> v \<in> {8, 10, 11, 12, 13}"

lemma vectors_coded: "list_all (\<lambda>(v, h). own_code h = coded v) vectors"
  unfolding vectors_def exceptions_def coded_def own_code_def by (simp add: list_all_iff)

lemma vectors_pushed:
  "list_all (\<lambda>(v, h). v < 32 \<longrightarrow> v = 14 \<or> pushed_vector h = Some (of_nat (reported v))) vectors"
  unfolding vectors_def exceptions_def reported_def by (simp add: list_all_iff)

lemma pushed_reported:
  assumes "vector_isr v = Some h" and "v < 32" and "v \<noteq> 14"
  shows "pushed_vector h = Some (of_nat (reported v))" "reported v < 20" "own_code h = coded v"
proof -
  have m: "(v, h) \<in> set vectors" using assms(1) unfolding vector_isr_def by (rule map_of_SomeD)
  from bspec [OF vectors_coded [unfolded list_all_iff] m] show "own_code h = coded v" by simp
  from bspec [OF vectors_pushed [unfolded list_all_iff] m] assms(2,3) show "pushed_vector h = Some (of_nat (reported v))" by simp
  have "list_all (\<lambda>(v, h). v < 32 \<longrightarrow> reported v < 20) vectors"
    unfolding vectors_def exceptions_def reported_def by (simp add: list_all_iff)
  from bspec [OF this [unfolded list_all_iff] m] assms(2) show "reported v < 20" by simp
qed

lemma interrupt_exception:
  assumes "pushed_vector h = Some n"
  shows "interrupt pf w e h x s = andThen (syserrHandler pf e n (if own_code h then x_code x else 0xFFFFFFFF) (x_eip x) (x_cs x) (x_eflags x)
    (disableInt s)) (\<lambda>_. Inl (Hang ''exception''))"
  by (simp add: interrupt_def assms exception_entry_def andThen_assoc)

lemma region_dir_addr:
  assumes "0 < nr" and "nr < 64"
  shows "push_bit 2 (drop_bit 22 (of_nat nr * 0x4000000 :: u32)) \<noteq> 0"
proof -
  have "unat (of_nat nr * 0x4000000 :: u32) = nr * 0x4000000" using assms(2) by (simp add: unat_word_ariths unat_of_nat_u32)
  then have "unat (drop_bit 22 (of_nat nr * 0x4000000 :: u32)) = nr * 16" by (simp add: drop_bit_eq_div unat_div)
  then have "unat (push_bit 2 (drop_bit 22 (of_nat nr * 0x4000000 :: u32))) = nr * 64"
    using assms(2) by (simp add: push_bit_eq_mult unat_word_ariths)
  then show ?thesis using assms(1) by (metis mult_eq_0_iff not_less_zero unat_0 zero_neq_numeral)
qed

subsection \<open>A fork and the pause after it\<close>

text \<open>The running process as it is when it waits for a signal.\<close>

definition paused :: "'a kernel_scheme \<Rightarrow> 'a kernel_scheme" where
  "paused s = upd_proc (CURRENT s) (\<lambda>p. p\<lparr>p_state := TASK_INTERRUPTIBLE\<rparr>) s"

text \<open>When every runnable process other than the running one is \<open>p\<close>, a pause switches to \<open>p\<close>.\<close>

lemma schedule_paused:
  assumes "runnable s i" and "TASKS s i = p" and "p \<noteq> CURRENT s" and "0 < sint (p_counter (PROC s p))"
    and "\<forall>k. runnable s k \<longrightarrow> TASKS s k \<in> {p, CURRENT s}" and "ram s 0 \<noteq> 1"
  shows "schedule (Suc n) (paused s) = Inr ((paused s)\<lparr>CURRENT := p\<rparr>)"
proof -
  have r: "runnable (paused s) k \<longleftrightarrow> runnable s k \<and> TASKS s k \<noteq> CURRENT s" for k
    by (auto simp: paused_def runnable_def upd_proc_def)
  have v: "tslice (paused s) i = sint (p_counter (PROC s p))" using assms(2,3) by (simp add: paused_def tslice_def upd_proc_def)
  have "runnable (paused s) i" "0 \<le> tslice (paused s) i" using assms(1-4) by (simp_all add: r v)
  then obtain k where k: "longest_slice (paused s) k" "tslice (paused s) i \<le> tslice (paused s) k"
    using longest_slice_exists by blast
  have "runnable (paused s) k" using k(1) by (simp add: longest_slice_def)
  then have kp: "TASKS (paused s) k = p" using assms(5) r [of k] by (auto simp: paused_def upd_proc_def)
  have "0 < tslice (paused s) k" using k(2) v assms(4) by simp
  from schedule_longest [OF k(1) this] assms(6) have "schedule (Suc n) (paused s) = Inr (SWITCH_TO k (paused s))"
    by (simp add: paused_def upd_proc_def)
  moreover have "CURRENT (paused s) = CURRENT s" by (simp add: paused_def upd_proc_def)
  ultimately show ?thesis using assms(3) kp by (simp add: SWITCH_TO_def)
qed

lemma reschedule_back: "reschedule pf s = andThen (schedule (pf_fuel pf) s) (switched_back pf (CURRENT s))"
  by (simp add: reschedule_def switched_back_def [abs_def] Let_def)

lemma pause_interrupt:
  assumes "x_eax x = 1"
    and "schedule (pf_fuel pf) (paused (disableInt s)) = Inr t" and "CURRENT t \<noteq> CURRENT s"
  shows "interrupt pf w e SysCall x s = andThen (pf_others pf t) (\<lambda>u.
    andThen (sys_return pf w (u\<lparr>CURRENT := CURRENT s\<rparr>)) (\<lambda>u. Inr (0, u\<lparr>int_flag := int_flag s\<rparr>)))"
proof -
  have c: "CURRENT (paused (disableInt s)) = CURRENT s" by (simp add: paused_def upd_proc_def disableInt_def)
  have "sysCall pf 1 (x_regs x) (disableInt s) = andThen (pf_others pf t) (\<lambda>u. Inr (0, u\<lparr>CURRENT := CURRENT s\<rparr>))"
    using assms(2,3) c by (simp add: sysCall_def SYS_CALL_TABLE_def sysPause_def paused_def [symmetric] reschedule_back switched_back_def andThen_assoc)
  then show ?thesis by (simp add: interrupt_simps sysCall_entry_def assms(1) andThen_assoc)
qed

lemma fork_interrupt:
  assumes "x_eax x = 0" and "sysFork (pf_fuel pf) (x_regs x) (disableInt s) = Inr (pid, t)"
    and "p_state (PROC t (CURRENT t)) = TASK_RUNNING"
  shows "interrupt pf w e SysCall x s = Inr (pid, t\<lparr>int_flag := int_flag s\<rparr>)"
  using assms by (simp add: interrupt_simps sysCall_entry_def sysCall_def SYS_CALL_TABLE_def sys_return_def)

subsection \<open>Missing pages\<close>

text \<open>A fault on a missing page only prints the address: however often the program runs into it, no page is ever mapped.\<close>

lemma missing_page_repeats:
  assumes "x_code x AND 1 = 0" and "terminal_ready 0 s" and "1022 \<le> pf_fuel pf"
  shows "\<exists>s'. interrupts pf w e PageFault x k s = Inr s' \<and> terminal_ready 0 s' \<and> ram s' = ram s \<and> MEM_MAP s' = MEM_MAP s \<and> PROC s' = PROC s"
proof (induction k)
  case 0
  then show ?case using assms(2) by simp
next
  case (Suc k)
  then obtain u where u: "interrupts pf w e PageFault x k s = Inr u" "terminal_ready 0 u" "ram u = ram s" "MEM_MAP u = MEM_MAP s" "PROC u = PROC s"
    by blast
  have "terminal_ready 0 (disableInt u)" using u(2) by simp
  from page_fault_message [OF this assms(3), of "x_code x" "x_cr2 x"] assms(1) obtain ds t where
    t: "page_fault pf (x_code x) (x_cr2 x) (disableInt u) = Inr t" "shown 0 (fault_text ds) (disableInt u) t"
      "console.more t = console.more (disableInt u)" by auto
  have c: "console.more t = console.more u" using t(3) by simp
  have "terminal_ready 0 t" using t(2) by (simp add: shown_def)
  moreover have "PROC t = PROC u" using c by (cases u; cases t; simp)
  ultimately show ?case using u t(1) memory_view(1,2) [OF c]
    by (intro exI [of _ "t\<lparr>int_flag := int_flag u\<rparr>"]) (simp add: interrupt_simps)
qed

subsection \<open>The properties of the entries\<close>

text \<open>C3. A write to a shared page at any address, from the processor's fault to the return into the program: the fault prints
  the address (one without its top bit in hexadecimal), gives
  the writer its own copy of the page in a frame that was free, with a writable entry, takes one reference from the shared page,
  leaves every other word of memory and every process as they were, and goes on with the interrupt flag of the program. This is for
  a console that is ready, a free page, and an entry for a counted page of the 32 MB that the page map covers, in a page table that is
  itself in use and another page.\<close>

theorem page_fault_cow:
  assumes "terminal_ready 0 s" and "1022 \<le> pf_fuel pf" and "x_code x AND 1 \<noteq> 0"
    and "mem_ok s" and "free_frames s \<noteq> {}"
    and "item = page_entry (ram s) (x_cr2 x)" and "f = frame_of (ram s item)" and "j = frame_of (ram s (push_bit 2 (drop_bit 22 (x_cr2 x))))"
    and "counted (ram s item)" and "f < 8192" and "MEM_MAP s f \<notin> {0, 1}" and "j < 8192" and "MEM_MAP s j \<noteq> 0" and "j \<noteq> f"
  shows "\<exists>i ds s'. interrupt pf eax_word err_text PageFault x s = Inr (x_eax x, s') \<and> MEM_MAP s i = 0 \<and>
    ram s' item = page_addr i OR 7 \<and>
    table 1024 (page_addr i) (ram s') = table 1024 (page_addr f) (ram s) \<and>
    (\<forall>a. a \<noteq> item \<and> a \<notin> words 1024 (page_addr i) \<longrightarrow> ram s' a = ram s a) \<and>
    MEM_MAP s' = (MEM_MAP s)(i := 1, f := MEM_MAP s f - 1) \<and> PROC s' = PROC s \<and> int_flag s' = int_flag s \<and>
    hex_digits (pf_str pf) 4 (x_cr2 x) ds \<and> con_abs s' = show_text (tty_termios (TTY_TABLE s 0)) (fault_text ds) (con_abs s)"
proof -
  have "terminal_ready 0 (disableInt s)" using assms(1) by simp
  from page_fault_message [OF this assms(2), of "x_code x" "x_cr2 x"] assms(3) obtain ds t where
    t: "page_fault pf (x_code x) (x_cr2 x) (disableInt s) = unWriteProtectPage (page_entry (ram (disableInt s)) (x_cr2 x)) t"
      "hex_digits (pf_str pf) 4 (x_cr2 x) ds" "shown 0 (fault_text ds) (disableInt s) t" "console.more t = console.more (disableInt s)"
    by auto
  have c: "console.more t = console.more s" using t(4) by simp
  note m = memory_view [OF c]
  have r: "ram (disableInt s) = ram s" using memory_view(1) [of "disableInt s" s] by simp
  have p: "PROC t = PROC s" using c by (cases s; cases t; simp)
  have item: "item \<in> words 1024 (page_addr j)" unfolding assms(6,8) by (rule page_entry_table)
  have "\<exists>i s'. unWriteProtectPage item t = Inr s' \<and> copied_page item (frame_of (ram t item)) i t s'"
    by (rule unWriteProtectPage_shared [where k = j]) (use assms(4,5,7,9-14) item in \<open>simp_all only: m not_False_eq_True\<close>)
  then obtain i s' where s': "unWriteProtectPage item t = Inr s'" "copied_page item f i t s'"
    unfolding m assms(7) by blast
  note f = only_memory_unWriteProtectPage [OF s'(1)]
  have "interrupt pf eax_word err_text PageFault x s = Inr (x_eax x, s'\<lparr>int_flag := int_flag s\<rparr>)"
    using s'(1) unfolding interrupt_simps t(1) r assms(6) by simp
  moreover have "con_abs s' = show_text (tty_termios (TTY_TABLE s 0)) (fault_text ds) (con_abs s)"
    using t(3) by (simp add: only_memory_console(1) [OF f] shown_text)
  moreover have "page_addr i OR PG_USU OR PG_RWW OR PG_P = page_addr i OR 7" by (simp add: or.assoc)
  ultimately show ?thesis
    using s'(2) t(2) p only_memory_kernel(4) [OF f] unfolding copied_page_def m
    by (intro exI [of _ i] exI [of _ ds] exI [of _ "s'\<lparr>int_flag := int_flag s\<rparr>"]) simp
qed

text \<open>Page 1025 of the second process, shared with another and read-only.\<close>

definition shared_boot :: fs where
  "shared_boot = prog_boot\<lparr>MEM_MAP := (MEM_MAP memory_boot)(1025 := 2), ram := (ram memory_boot)(0x400000 := 0x401005)\<rparr>"

definition write_fault :: entry_frame where
  "write_fault = \<lparr>x_code = 7, x_eip = 0x1000, x_cs = 0x0F, x_eflags = 0x3202, x_cr2 = 0x4000000, x_eax = 5, x_regs = some_regs\<rparr>"

lemma shared_boot_simps [simp]:
  "MEM_MAP shared_boot = (MEM_MAP memory_boot)(1025 := 2)" "ram shared_boot = (ram memory_boot)(0x400000 := 0x401005)"
  "mem_ok shared_boot" "free_frames shared_boot \<noteq> {}" "terminal_ready 0 shared_boot"
proof -
  show m: "MEM_MAP shared_boot = (MEM_MAP memory_boot)(1025 := 2)" "ram shared_boot = (ram memory_boot)(0x400000 := 0x401005)"
    by (simp_all add: shared_boot_def)
  then show "mem_ok shared_boot" by (simp add: mem_ok_def)
  have "page_addr 2000 \<in> free_frames shared_boot"
    unfolding free_frames_def mem_Collect_eq by (intro exI [of _ 2000]) (simp add: m)
  then show "free_frames shared_boot \<noteq> {}" by blast
  show "terminal_ready 0 shared_boot"
    using prog_boot_ready(1) by (simp add: shared_boot_def terminal_ready_def con_inv_def tty_inv_def)
qed

theorem page_fault_cow_witness:
  "\<exists>i s'. interrupt (some_platform Inr) (\<lambda>_. 0) 0x500 PageFault write_fault shared_boot = Inr (5, s') \<and>
    ram s' 0x400000 = page_addr i OR 7 \<and> MEM_MAP s' 1025 = 1"
proof -
  have item: "page_entry (ram shared_boot) (x_cr2 write_fault) = 0x400000" by (simp add: page_entry_def write_fault_def)
  have f: "frame_of (ram shared_boot 0x400000) = 1025" "counted (ram shared_boot 0x400000)" using boot_entry by simp_all
  have j: "frame_of (ram shared_boot (push_bit 2 (drop_bit 22 (x_cr2 write_fault)))) = 1024" by (simp add: write_fault_def frame_of_def)
  obtain i ds s' where "interrupt (some_platform Inr) (\<lambda>_. 0) 0x500 PageFault write_fault shared_boot = Inr (x_eax write_fault, s')"
    "ram s' 0x400000 = page_addr i OR 7" "MEM_MAP s' = (MEM_MAP shared_boot)(i := 1, 1025 := MEM_MAP shared_boot 1025 - 1)"
    using page_fault_cow [OF shared_boot_simps(5) _ _ shared_boot_simps(3,4) item [symmetric] f(1) [symmetric] j [symmetric] f(2),
        of "some_platform Inr" "\<lambda>_. 0" "0x500"]
    by (auto simp: some_platform_def write_fault_def)
  then show ?thesis by (auto simp: write_fault_def)
qed


text \<open>Two processes, in the slots 1 and 2.\<close>

definition two_processes :: fs where
  "two_processes = prog_boot\<lparr>IRQ_TABLE := (\<lambda>irq. if irq = 0 then Some TimerHandler else None),
     TASKS := (\<lambda>i. if i = 1 then 0x402000 else if i = 2 then 0x403000 else 0), CURRENT := 0x402000,
     ram := (\<lambda>_. 0)\<rparr>"




text \<open>C5. A process that forks and then pauses hands the processor to its child: when it is the only runnable one and has a positive
  priority, the fork returns an unused process number, and the pause switches to the new process, which goes on where the parent called,
  with 0 in EAX; the parent goes on when the others switch back. This holds for process 0, the one that does so in \<^verbatim>\<open>main.c\<close>, as for
  every other process that can be forked: its code and data have one base and a limit of at most four megabytes, the page table of
  that region and the pages in it are taken, the region of the first free slot is not mapped, the slot is one of 1 to 61, for which
  the descriptor table has room, and two pages are free. The fuel covers the search for a process number.\<close>

theorem fork_pause_child:
  assumes "can_fork (unat (free_slot s)) j s" and "free_slot s \<noteq> - 1" and "0 < unat (free_slot s)" and "unat (free_slot s) < 62"
    and "y \<in> free_frames s" and "z \<in> free_frames s" and "y \<noteq> z" and "4225 \<le> pf_fuel pf"
    and "x_eax x = 0" and "x_eax x' = 1" and "p_state (PROC s (CURRENT s)) = 0" and "0 < sint (p_priority (PROC s (CURRENT s)))"
    and "\<forall>k. runnable s k \<longrightarrow> TASKS s k = CURRENT s" and "ram s 0 \<noteq> 1"
  shows "\<exists>p pid s1 t. interrupt pf eax_word err_text SysCall x s = Inr (pid, s1) \<and> pid \<notin> used_pids s \<and> p \<in> free_frames s \<and>
    TASKS s1 = (TASKS s)(unat (free_slot s) := p) \<and> CURRENT s1 = CURRENT s \<and> int_flag s1 = int_flag s \<and>
    interrupt pf eax_word err_text SysCall x' s1 = andThen (pf_others pf t) (\<lambda>u.
      andThen (sys_return pf eax_word (u\<lparr>CURRENT := CURRENT s\<rparr>)) (\<lambda>u. Inr (0, u\<lparr>int_flag := int_flag s\<rparr>))) \<and>
    CURRENT t = p \<and> p_state (PROC t p) = 0 \<and> p_state (PROC t (CURRENT s)) = 1 \<and> p_pid (PROC t p) = pid \<and>
    p_father (PROC t p) = p_pid (PROC s (CURRENT s)) \<and>
    tss_eax (p_tss (PROC t p)) = 0 \<and> tss_eip (p_tss (PROC t p)) = r_eip (x_regs x)"
proof -
  let ?nr = "unat (free_slot s)" and ?r = "x_regs x" and ?me = "CURRENT s"
  define d where "d = disableInt s"
  have d: "free_slot d = free_slot s" "TASKS d = TASKS s" "PROC d = PROC s" "CURRENT d = ?me" "ram d = ram s" "free_frames d = free_frames s"
    "used_pids d = used_pids s" "can_fork k j d = can_fork k j s" "TICKS d = TICKS s" for k
    by (simp_all add: d_def disableInt_def free_slot_def free_frames_def used_pids_def can_fork_def fork_ready_def)
  obtain n where n: "pf_fuel pf = 4225 + n" using assms(8) nat_le_iff_add by auto
  obtain p i pid t where t: "sysFork (4225 + n) ?r d = Inr (pid, t)" "pid \<notin> used_pids s" "p \<in> free_frames s"
    "TASKS t = (TASKS s)(?nr := p)" "PROC t = (PROC s)(p := child_of ?nr p pid ?r d)" "CURRENT t = ?me" "shares_memory ?nr p j i d t"
    using sysFork_creates [of d j y z n ?r] assms(1,2,4-7) unfolding d by blast
  have me: "?me \<noteq> p" using t(3) assms(1) by (auto simp: can_fork_def)
  have p0: "p \<noteq> 0"
  proof
    assume "p = 0"
    then obtain k where "k < PAGES_SIZE" "0 = page_addr k" "MEM_MAP s k = 0" using t(3) by (auto simp: free_frames_def)
    moreover have "MEM_MAP s 0 \<noteq> 0" using assms(1) by (simp add: can_fork_def fork_ready_def)
    ultimately show False using page_addr_0 [of k] by (cases "k = 0") auto
  qed
  have fork: "interrupt pf eax_word err_text SysCall x s = Inr (pid, t\<lparr>int_flag := int_flag s\<rparr>)"
    using t(1,5,6) me assms(9,11) by (intro fork_interrupt) (simp_all add: n d_def)
  define s1 where "s1 = t\<lparr>int_flag := int_flag s\<rparr>"
  define u where "u = disableInt s1"
  have u: "TASKS u = (TASKS s)(?nr := p)" "PROC u = (PROC s)(p := child_of ?nr p pid ?r d)" "CURRENT u = ?me" "ram u = ram t"
    using t(4-6) by (simp_all add: u_def s1_def disableInt_def)
  have "\<forall>x. unat x < 4096 \<and> x \<noteq> dir_addr (of_nat ?nr * 0x4000000) \<longrightarrow> ram t x = ram d x"
    using t(7) unfolding shares_memory_def Let_def by blast
  then have "ram u 0 = ram s 0" using region_dir_addr [of ?nr] assms(3,4) by (auto simp: u(4) d)
  moreover have "runnable u ?nr" using assms(3,4) p0 by (simp add: runnable_def u child_of_def)
  moreover have "\<forall>k. runnable u k \<longrightarrow> TASKS u k \<in> {p, CURRENT u}"
    using assms(13) by (auto simp: runnable_def u split: if_splits)
  moreover have "0 < sint (p_counter (PROC u p))"
    using assms(12) by (simp add: u d child_of_def child_process_def rebase_def)
  ultimately have "schedule (Suc (4224 + n)) (paused u) = Inr ((paused u)\<lparr>CURRENT := p\<rparr>)"
    using assms(14) me by (intro schedule_paused [where i = ?nr]) (simp_all add: u)
  then have "interrupt pf eax_word err_text SysCall x' s1 = andThen (pf_others pf ((paused u)\<lparr>CURRENT := p\<rparr>)) (\<lambda>v.
      andThen (sys_return pf eax_word (v\<lparr>CURRENT := ?me\<rparr>)) (\<lambda>v. Inr (0, v\<lparr>int_flag := int_flag s\<rparr>)))"
    using pause_interrupt [where s = s1 and x = x' and pf = pf, OF assms(10)] me t(6) n by (simp add: u_def s1_def)
  moreover have "PROC ((paused u)\<lparr>CURRENT := p\<rparr>) = (PROC u)(?me := (PROC u ?me)\<lparr>p_state := TASK_INTERRUPTIBLE\<rparr>)"
    by (simp add: paused_def upd_proc_def u(3))
  ultimately show ?thesis
    using fork t(2-4,6) me
    by (intro exI [of _ p] exI [of _ pid] exI [of _ s1] exI [of _ "(paused u)\<lparr>CURRENT := p\<rparr>"])
      (simp add: s1_def u(2) d child_of_def child_process_def child_tss_def rebase_def)
qed

text \<open>The file system's state with process 0 alone, as \<^verbatim>\<open>main.c\<close> has it at its fork.\<close>

definition first_fs :: fs where
  "first_fs = prog_boot\<lparr>TASKS := TASKS first_boot, CURRENT := 0x20000, last_pid := 0, ram := ram first_boot, PROC := PROC first_boot\<rparr>"

lemma first_fs_simps:
  "TASKS first_fs = TASKS first_boot" "ram first_fs = ram first_boot" "MEM_MAP first_fs = MEM_MAP first_boot"
  "CURRENT first_fs = 0x20000" "PROC first_fs = PROC first_boot"
  by (simp_all add: first_fs_def prog_boot_def fs_boot_def blk_boot_def blk.defs kernel.defs)

theorem fork_pause_child_witness:
  "\<exists>pid s1 t. interrupt (some_platform Inr) (\<lambda>_. 1) 0x500 SysCall (write_fault\<lparr>x_eax := 0\<rparr>) first_fs = Inr (pid, s1) \<and>
    interrupt (some_platform Inr) (\<lambda>_. 1) 0x500 SysCall (write_fault\<lparr>x_eax := 1\<rparr>) s1 =
      andThen (sys_return (some_platform Inr) (\<lambda>_. 1) (t\<lparr>CURRENT := 0x20000\<rparr>)) (\<lambda>u. Inr (0, u\<lparr>int_flag := int_flag first_fs\<rparr>)) \<and>
    tss_eax (p_tss (PROC t (CURRENT t))) = 0 \<and> p_pid (PROC t (CURRENT t)) = pid"
proof -
  have fr: "free_frames first_fs = free_frames process_boot"
    using first_boot_simps(8) unfolding free_frames_def first_fs_simps .
  have slot: "free_slot first_fs = 1"
    by (rule trans [OF free_slot_first [of 1]]) (simp_all add: first_fs_simps)
  have cf: "can_fork (unat (free_slot first_fs)) 1 first_fs"
    using first_boot_can_fork unfolding slot can_fork_def fork_ready_def fr first_fs_simps by simp
  have r: "\<not> runnable first_fs k" for k by (simp add: runnable_def first_fs_simps)
  have p: "4225 \<le> pf_fuel (some_platform Inr)" "pf_others (some_platform Inr) = Inr" by (simp_all add: some_platform_def)
  obtain q pid s1 t where "interrupt (some_platform Inr) (\<lambda>_. 1) 0x500 SysCall (write_fault\<lparr>x_eax := 0\<rparr>) first_fs = Inr (pid, s1)"
    "interrupt (some_platform Inr) (\<lambda>_. 1) 0x500 SysCall (write_fault\<lparr>x_eax := 1\<rparr>) s1 = andThen (pf_others (some_platform Inr) t) (\<lambda>u.
      andThen (sys_return (some_platform Inr) (\<lambda>_. 1) (u\<lparr>CURRENT := CURRENT first_fs\<rparr>)) (\<lambda>u. Inr (0, u\<lparr>int_flag := int_flag first_fs\<rparr>)))"
    "CURRENT t = q" "p_pid (PROC t q) = pid" "tss_eax (p_tss (PROC t q)) = 0"
    using fork_pause_child [OF cf _ _ _ _ _ process_boot_frames(3) p(1), of "write_fault\<lparr>x_eax := 0\<rparr>" "write_fault\<lparr>x_eax := 1\<rparr>" "\<lambda>_. 1" "0x500"]
      process_boot_frames(1,2) by (auto simp: slot fr r first_fs_simps)
  then show ?thesis by (auto simp: p(2) first_fs_simps)
qed

end
