(* ===== verification/Writing.thy ===== *)
theory Writing
  imports Programs
begin

section \<open>Writing inodes back\<close>

text \<open>
  The search for the super block of a device, and \<open>writeInode\<close> when the block of the inode is in the
  cache: which bytes of the block hold which field of the inode afterwards.
\<close>

subsection \<open>Super blocks\<close>

lemma waitOnSuper_open:
  "s_lock (SUPER_BLK s k) = 0 \<Longrightarrow> 0 < pf_fuel pf \<Longrightarrow> waitOnSuper pf k s = Inr (s\<lparr>int_flag := True\<rparr>)"
  by (simp add: waitOnSuper_def wait_loop_now io_defs)

lemma super_loop_first:
  "k \<le> i \<Longrightarrow> i < NR_SUPER \<Longrightarrow> \<forall>j. k \<le> j \<and> j < i \<longrightarrow> ucast (s_dev (SUPER_BLK s j)) \<noteq> dev \<Longrightarrow>
   ucast (s_dev (SUPER_BLK s i)) = dev \<Longrightarrow> s_lock (SUPER_BLK s i) = 0 \<Longrightarrow> 0 < pf_fuel pf \<Longrightarrow> i - k < n \<Longrightarrow>
   super_loop n pf dev k s = Inr (Some i, s\<lparr>int_flag := True\<rparr>)"
proof (induction n arbitrary: k)
  case (Suc n)
  show ?case
  proof (cases "k = i")
    case True
    then show ?thesis using Suc.prems by (simp add: waitOnSuper_open)
  next
    case False
    then have "super_loop n pf dev (Suc k) s = Inr (Some i, s\<lparr>int_flag := True\<rparr>)"
      using Suc.prems by (intro Suc.IH) auto
    moreover have "ucast (s_dev (SUPER_BLK s k)) \<noteq> dev" using Suc.prems False by simp
    ultimately show ?thesis using Suc.prems by simp
  qed
qed simp

lemma getSuper_first:
  assumes "dev \<noteq> 0" and "i < NR_SUPER" and "\<forall>j < i. ucast (s_dev (SUPER_BLK s j)) \<noteq> dev"
    and "ucast (s_dev (SUPER_BLK s i)) = dev" and "s_lock (SUPER_BLK s i) = 0" and "NR_SUPER \<le> pf_fuel pf"
  shows "getSuper pf dev s = Inr (Some i, s\<lparr>int_flag := True\<rparr>)"
  using super_loop_first [of 0 i s dev pf "pf_fuel pf"] assms by (simp add: getSuper_def)

lemma super_loop_sound:
  "super_loop n pf dev k s = Inr (Some i, s') \<Longrightarrow>
   i < NR_SUPER \<and> ucast (s_dev (SUPER_BLK s' i)) = dev \<and> s_lock (SUPER_BLK s' i) = 0 \<and> int_flag s'"
proof (induction n arbitrary: k s)
  case (Suc n)
  show ?case
  proof (cases "ucast (s_dev (SUPER_BLK s k)) = dev \<and> k < NR_SUPER")
    case True
    then obtain t where t: "waitOnSuper pf k s = Inr t"
      "(if ucast (s_dev (SUPER_BLK t k)) = dev then Inr (Some k, t) else super_loop n pf dev 0 t) = Inr (Some i, s')"
      using Suc.prems by auto
    then obtain u where u: "wait_loop (pf_fuel pf) pf (\<lambda>s. s_lock (SUPER_BLK s k) \<noteq> 0) (SuperWait k) (disableInt s) = Inr u" "t = enableInt u"
      by (auto simp: waitOnSuper_def)
    from wait_loop_free [OF u(1)] have "s_lock (SUPER_BLK t k) = 0" "int_flag t" by (simp_all add: u(2) io_defs)
    then show ?thesis using t(2) Suc.IH True by (auto split: if_splits)
  next
    case False
    then show ?thesis using Suc.prems Suc.IH by (auto split: if_splits)
  qed
qed simp

subsection \<open>The lock of an inode\<close>

lemma lockInode_open:
  "i_lock (INODES s inode) = 0 \<Longrightarrow> 0 < pf_fuel pf \<Longrightarrow>
   lockInode pf inode s = Inr ((upd_inode inode (\<lambda>i. i\<lparr>i_lock := 1\<rparr>) s)\<lparr>int_flag := True\<rparr>)"
  by (simp add: lockInode_def wait_loop_now io_defs upd_inode_def)

subsection \<open>The fields of an inode in a block\<close>

definition half_at :: "(u32 \<Rightarrow> u8) \<Rightarrow> u32 \<Rightarrow> u16" where
  "half_at m a = ucast (m a) OR push_bit 8 (ucast (m (a + 1)))"

definition word_at :: "(u32 \<Rightarrow> u8) \<Rightarrow> u32 \<Rightarrow> u32" where
  "word_at m a = ucast (m a) OR push_bit 8 (ucast (m (a + 1))) OR push_bit 16 (ucast (m (a + 2))) OR push_bit 24 (ucast (m (a + 3)))"

text \<open>The layout of \<^verbatim>\<open>DINODE\<close>.\<close>

definition inode_at :: "(u32 \<Rightarrow> u8) \<Rightarrow> u32 \<Rightarrow> minode \<Rightarrow> bool" where
  "inode_at m a i \<longleftrightarrow> half_at m a = i_mode i \<and> half_at m (a + 2) = i_uid i \<and> word_at m (a + 4) = i_size i \<and>
     word_at m (a + 8) = i_mtime i \<and> m (a + 12) = i_gid i \<and> m (a + 13) = i_nlinks i \<and>
     (\<forall>z < 9. half_at m (a + 14 + 2 * of_nat z) = i_zone i z)"

lemma half_bytes: "(ucast (ucast w :: u8) :: u16) OR push_bit 8 (ucast (ucast (drop_bit 8 w) :: u8)) = w"
proof (rule bit_word_eqI)
  fix n assume "n < LENGTH(16)"
  then show "bit ((ucast (ucast w :: u8) :: u16) OR push_bit 8 (ucast (ucast (drop_bit 8 w) :: u8))) n = bit w n"
    by (cases "n < 8") (auto simp: bit_simps)
qed

lemma word_bytes:
  "(ucast (ucast w :: u8) :: u32) OR push_bit 8 (ucast (ucast (drop_bit 8 w) :: u8)) OR
   push_bit 16 (ucast (ucast (drop_bit 16 w) :: u8)) OR push_bit 24 (ucast (ucast (drop_bit 24 w) :: u8)) = w"
proof (rule bit_word_eqI)
  fix n assume "n < LENGTH(32)"
  then consider "n < 8" | "8 \<le> n" "n < 16" | "16 \<le> n" "n < 24" | "24 \<le> n" "n < 32" by fastforce
  then show "bit ((ucast (ucast w :: u8) :: u32) OR push_bit 8 (ucast (ucast (drop_bit 8 w) :: u8)) OR
     push_bit 16 (ucast (ucast (drop_bit 16 w) :: u8)) OR push_bit 24 (ucast (ucast (drop_bit 24 w) :: u8))) n = bit w n"
    by cases (auto simp: bit_simps)
qed

lemma dinode_bytes_at:
  assumes "\<And>n. n < 32 \<Longrightarrow> m (a + of_nat n) = dinode_bytes i ! n"
  shows "inode_at m a i"
proof -
  have b: "m (a + of_nat n) = dinode_bytes i ! n" if "n < 32" for n using assms that .
  have z: "z < 9 \<longleftrightarrow> z \<in> {0, 1, 2, 3, 4, 5, 6, 7, 8}" for z :: nat by auto
  note e = b [of 0] b [of 1] b [of 2] b [of 3] b [of 4] b [of 5] b [of 6] b [of 7] b [of 8] b [of 9] b [of 10] b [of 11]
    b [of 12] b [of 13] b [of 14] b [of 15] b [of 16] b [of 17] b [of 18] b [of 19] b [of 20] b [of 21] b [of 22] b [of 23]
    b [of 24] b [of 25] b [of 26] b [of 27] b [of 28] b [of 29] b [of 30] b [of 31]
  have l: "[0..<9] = [0, 1, 2, 3, 4, 5, 6, 7, 8 :: nat]" by code_simp
  have "dinode_bytes i = bytes2 (i_mode i) @ bytes2 (i_uid i) @ bytes4 (i_size i) @ bytes4 (i_mtime i) @ [i_gid i, i_nlinks i] @
      bytes2 (i_zone i 0) @ bytes2 (i_zone i 1) @ bytes2 (i_zone i 2) @ bytes2 (i_zone i 3) @ bytes2 (i_zone i 4) @
      bytes2 (i_zone i 5) @ bytes2 (i_zone i 6) @ bytes2 (i_zone i 7) @ bytes2 (i_zone i 8)"
    unfolding dinode_bytes_def l by simp
  note e' = e [unfolded this bytes2_def bytes4_def]
  show ?thesis unfolding inode_at_def half_at_def word_at_def z
    using e' by (simp add: add.commute [of a] half_bytes word_bytes)
qed

subsection \<open>Writing one inode\<close>

text \<open>The address of an inode's 32 bytes in the buffer that holds its block.\<close>

definition inode_addr :: "buffer_head \<Rightarrow> minode \<Rightarrow> u32" where
  "inode_addr b i = b_data b + 32 * ((ucast (i_num i) - 1) mod 32)"

text \<open>An inode that can be written without waiting: it is in the buffer \<open>b\<close> of the cache, by the super block \<open>k\<close>.\<close>

definition writable :: "'a platform \<Rightarrow> u32 list \<Rightarrow> nat \<Rightarrow> u32 \<Rightarrow> u32 \<Rightarrow> 'b fs_scheme \<Rightarrow> bool" where
  "writable pf rg k b inode s \<longleftrightarrow>
     i_lock (INODES s inode) = 0 \<and> i_dirt (INODES s inode) \<noteq> 0 \<and> i_dev (INODES s inode) \<noteq> 0 \<and>
     k < NR_SUPER \<and> s_dev (SUPER_BLK s k) = i_dev (INODES s inode) \<and> s_lock (SUPER_BLK s k) = 0 \<and>
     (\<forall>j < k. s_dev (SUPER_BLK s j) \<noteq> i_dev (INODES s inode)) \<and>
     cache_inv s rg \<and> holdings (BUF s) rg (i_dev (INODES s inode), inode_block (SUPER_BLK s k) (INODES s inode)) = Some b \<and>
     b_lock (BUF s b) = 0 \<and> b_uptodate (BUF s b) \<noteq> 0 \<and> b_count (BUF s b) \<noteq> 255 \<and>
     length rg < pf_fuel pf \<and> NR_SUPER \<le> pf_fuel pf"

text \<open>What writing it leaves: the bytes in the block, the block dirty, the inode clean, and nothing else of the disk, the buffers,
  the inodes and the ports.\<close>

definition written_back :: "u32 \<Rightarrow> u32 \<Rightarrow> 'a fs_scheme \<Rightarrow> 'a fs_scheme \<Rightarrow> bool" where
  "written_back b inode s s' \<longleftrightarrow>
     DATA s' = DATA (store_bytes (inode_addr (BUF s b) (INODES s inode)) (dinode_bytes (INODES s inode)) s) \<and>
     BUF s' = (BUF s)(b := (BUF s b)\<lparr>b_dirt := 1\<rparr>) \<and> INODES s' = (INODES s)(inode := (INODES s inode)\<lparr>i_dirt := 0\<rparr>) \<and>
     trace s' = trace s \<and> int_flag s' \<and> SUPER_BLK s' = SUPER_BLK s \<and> BUFFER_FREE_LIST s' = BUFFER_FREE_LIST s \<and>
     BUFFER_HASH_TABLE s' = BUFFER_HASH_TABLE s"

lemma dev_word: "(ucast (d :: u16) :: u32) = ucast e \<longleftrightarrow> d = e" "(ucast (d :: u16) :: u32) = 0 \<longleftrightarrow> d = 0"
proof -
  have "d = e" if "(ucast d :: u32) = ucast e" for d e :: u16
    using arg_cong [OF that, of "\<lambda>x. ucast x :: u16"] by simp
  from this [of d e] this [of d 0] show "(ucast d :: u32) = ucast e \<longleftrightarrow> d = e" "(ucast d :: u32) = 0 \<longleftrightarrow> d = 0" by auto
qed

lemma wakeUp_view:
  "DATA (wakeUp q s) = DATA s" "BUF (wakeUp q s) = BUF s" "INODES (wakeUp q s) = INODES s" "trace (wakeUp q s) = trace s"
  "int_flag (wakeUp q s) = int_flag s" "SUPER_BLK (wakeUp q s) = SUPER_BLK s" "BUFFER_FREE_LIST (wakeUp q s) = BUFFER_FREE_LIST s"
  "BUFFER_HASH_TABLE (wakeUp q s) = BUFFER_HASH_TABLE s"
  by (simp_all add: wakeUp_def set_waitq_def upd_proc_def)

lemma minode_unlocked: "i_lock i = 0 \<Longrightarrow> i\<lparr>i_dirt := 0, i_lock := 0\<rparr> = i\<lparr>i_dirt := 0\<rparr>"
  by (cases i) simp

lemma inode_block_locked: "inode_block sb (i\<lparr>i_lock := v\<rparr>) = inode_block sb i" "dinode_bytes (i\<lparr>i_lock := v\<rparr>) = dinode_bytes i"
  by (simp_all add: inode_block_def dinode_bytes_def)

lemma writeInode_written:
  assumes "writable pf rg k b inode s"
  shows "\<exists>s'. writeInode pf inode s = Inr s' \<and> written_back b inode s s'"
proof -
  note w = assms [unfolded writable_def]
  let ?i = "INODES s inode"
  define s1 where "s1 = (upd_inode inode (\<lambda>i. i\<lparr>i_lock := 1\<rparr>) s)\<lparr>int_flag := True\<rparr>"
  have f: "0 < pf_fuel pf" using w by linarith
  have l: "lockInode pf inode s = Inr s1" unfolding s1_def using w f by (intro lockInode_open) simp_all
  have s1: "INODES s1 = (INODES s)(inode := ?i\<lparr>i_lock := 1\<rparr>)" "BUF s1 = BUF s" "SUPER_BLK s1 = SUPER_BLK s" "DATA s1 = DATA s"
    "trace s1 = trace s" "BUFFER_FREE_LIST s1 = BUFFER_FREE_LIST s" "BUFFER_HASH_TABLE s1 = BUFFER_HASH_TABLE s" "s1\<lparr>int_flag := True\<rparr> = s1"
    by (simp_all add: s1_def upd_inode_def)
  have g: "getSuper pf (ucast (i_dev ?i)) s1 = Inr (Some k, s1)"
    using getSuper_first [of "ucast (i_dev ?i)" k s1 pf] w by (simp add: s1 dev_word)
  have c: "cache_inv s1 rg" by (rule cache_inv_same [of s]) (use w in \<open>simp_all add: s1 same_place_def\<close>)
  have r: "bread pf (ucast (i_dev ?i)) (inode_block (SUPER_BLK s k) ?i) s1 = Inr (b, one_user_more b s1)" "b \<noteq> 0"
    using bread_hit [OF c, of "i_dev ?i" "inode_block (SUPER_BLK s k) ?i" b pf] w by (simp_all add: s1)
  define s5 where "s5 = upd_inode inode (\<lambda>i. i\<lparr>i_dirt := 0\<rparr>) (upd_buf b (\<lambda>b. b\<lparr>b_dirt := 1\<rparr>)
    (store_bytes (inode_addr (BUF s b) ?i) (dinode_bytes ?i) (one_user_more b s1)))"
  have s5: "BUF s5 = (BUF s)(b := (BUF s b)\<lparr>b_count := b_count (BUF s b) + 1, b_dirt := 1\<rparr>)" "int_flag s5" "trace s5 = trace s"
    "INODES s5 = (INODES s)(inode := ?i\<lparr>i_lock := 1, i_dirt := 0\<rparr>)" "SUPER_BLK s5 = SUPER_BLK s" "BUFFER_FREE_LIST s5 = BUFFER_FREE_LIST s"
    "BUFFER_HASH_TABLE s5 = BUFFER_HASH_TABLE s" "DATA s5 = DATA (store_bytes (inode_addr (BUF s b) ?i) (dinode_bytes ?i) s)"
  proof -
    have u: "BUF (one_user_more b s1) = (BUF s)(b := (BUF s b)\<lparr>b_count := b_count (BUF s b) + 1\<rparr>)" "DATA (one_user_more b s1) = DATA s"
      "INODES (one_user_more b s1) = INODES s1" "trace (one_user_more b s1) = trace s" "SUPER_BLK (one_user_more b s1) = SUPER_BLK s"
      "BUFFER_FREE_LIST (one_user_more b s1) = BUFFER_FREE_LIST s" "BUFFER_HASH_TABLE (one_user_more b s1) = BUFFER_HASH_TABLE s"
      using one_user_more_simps(7) [of b s1] by (simp_all add: one_user_more_def upd_buf_def s1)
    show "DATA s5 = DATA (store_bytes (inode_addr (BUF s b) ?i) (dinode_bytes ?i) s)"
      unfolding s5_def by (simp add: upd_inode_def upd_buf_def store_bytes_def u cong: if_cong)
    show "BUF s5 = (BUF s)(b := (BUF s b)\<lparr>b_count := b_count (BUF s b) + 1, b_dirt := 1\<rparr>)" "int_flag s5" "trace s5 = trace s"
      "INODES s5 = (INODES s)(inode := ?i\<lparr>i_lock := 1, i_dirt := 0\<rparr>)" "SUPER_BLK s5 = SUPER_BLK s"
      "BUFFER_FREE_LIST s5 = BUFFER_FREE_LIST s" "BUFFER_HASH_TABLE s5 = BUFFER_HASH_TABLE s"
      using one_user_more_simps(2) [of b s1] by (simp_all add: s5_def upd_inode_def upd_buf_def store_bytes_def u s1)
  qed
  have "b_count (BUF (one_user_more b s1) b) \<noteq> 0" using w by (intro one_user_more_simps(9)) (simp add: s1)
  then have "b_count (BUF s5 b) \<noteq> 0" by (simp add: s5 one_user_more_simps s1)
  then have b: "brelse pf b s5 = Inr (wakeUp BUFFER_WAIT (upd_buf b (\<lambda>h. h\<lparr>b_count := b_count h - 1\<rparr>) s5))"
    using w by (intro brelse_open [OF r(2) _ s5(2)]) (simp_all add: s5 f)
  have "writeInode pf inode s = andThen (brelse pf b s5) (\<lambda>s. Inr (unlockInode inode s))"
    unfolding writeInode_def writeInode_with_def l
    using w r by (simp add: g s1 inode_block_locked one_user_more_simps s5_def inode_addr_def Let_def)
  then have e: "writeInode pf inode s = Inr (unlockInode inode (wakeUp BUFFER_WAIT (upd_buf b (\<lambda>h. h\<lparr>b_count := b_count h - 1\<rparr>) s5)))"
    unfolding b by simp
  moreover have "written_back b inode s (unlockInode inode (wakeUp BUFFER_WAIT (upd_buf b (\<lambda>h. h\<lparr>b_count := b_count h - 1\<rparr>) s5)))"
    using w by (simp add: written_back_def unlockInode_def wakeUp_view upd_inode_def upd_buf_def s5 minode_unlocked)
  ultimately show ?thesis by blast
qed

subsection \<open>Writing all inodes\<close>

abbreviation (input) table_inode :: "'a platform \<Rightarrow> nat \<Rightarrow> u32" where
  "table_inode pf k \<equiv> inode_table pf + 56 * of_nat k"

text \<open>The inodes that \<open>syncInodes\<close> writes, and where: the inode in slot \<open>k\<close> by the super block \<open>sb k\<close> into the buffer \<open>bf k\<close>.
  The blocks of the buffers are apart in memory, and no two of the inodes stand for the same inode of a device.\<close>

definition due :: "'a platform \<Rightarrow> nat \<Rightarrow> 'b fs_scheme \<Rightarrow> bool" where
  "due pf k s \<longleftrightarrow> i_dirt (INODES s (table_inode pf k)) \<noteq> 0 \<and> i_pipe (INODES s (table_inode pf k)) = 0"

definition sync_ready :: "'a platform \<Rightarrow> u32 list \<Rightarrow> (nat \<Rightarrow> nat) \<Rightarrow> (nat \<Rightarrow> u32) \<Rightarrow> 'b fs_scheme \<Rightarrow> bool" where
  "sync_ready pf rg sb bf s \<longleftrightarrow>
     (\<forall>k < NR_INODE. i_lock (INODES s (table_inode pf k)) = 0) \<and> 0 < pf_fuel pf \<and>
     (\<forall>k < NR_INODE. due pf k s \<longrightarrow> writable pf rg (sb k) (bf k) (table_inode pf k) s) \<and>
     (\<forall>k < NR_INODE. \<forall>l < NR_INODE. due pf k s \<and> due pf l s \<and> bf k \<noteq> bf l \<longrightarrow>
        (\<forall>x y. x < 1024 \<and> y < 1024 \<longrightarrow> b_data (BUF s (bf k)) + x \<noteq> b_data (BUF s (bf l)) + y)) \<and>
     (\<forall>k < NR_INODE. \<forall>l < NR_INODE. due pf k s \<and> due pf l s \<and> k \<noteq> l \<longrightarrow>
        (i_dev (INODES s (table_inode pf k)), i_num (INODES s (table_inode pf k))) \<noteq>
        (i_dev (INODES s (table_inode pf l)), i_num (INODES s (table_inode pf l))))"

lemma table_inode_inj: "k < NR_INODE \<Longrightarrow> l < NR_INODE \<Longrightarrow> table_inode pf k = table_inode pf l \<Longrightarrow> k = l"
proof -
  assume kl: "k < NR_INODE" "l < NR_INODE" and "table_inode pf k = table_inode pf l"
  then have "unat (56 * of_nat k :: u32) = unat (56 * of_nat l :: u32)" by simp
  then show "k = l" using kl by (simp add: unat_word_ariths unat_of_nat_u32)
qed

text \<open>The bytes of two inodes do not overlap.\<close>

lemma block_offset:
  assumes "n < 32"
  shows "32 * (w mod 32) + of_nat n < (1024 :: u32)" and "unat (32 * (w mod 32) + of_nat n :: u32) = 32 * (unat w mod 32) + n"
proof -
  have "unat w mod 32 < 32" by simp
  then show u: "unat (32 * (w mod 32) + of_nat n :: u32) = 32 * (unat w mod 32) + n"
    using assms by (simp add: unat_word_ariths unat_of_nat_u32 unat_mod)
  show "32 * (w mod 32) + of_nat n < (1024 :: u32)"
    unfolding word_less_nat_alt u using \<open>unat w mod 32 < 32\<close> assms by simp
qed

lemma div_32: "unat (w div 32 :: u32) = unat w div 32"
  by (simp add: unat_div)

lemma slot_unique: "m < 32 \<Longrightarrow> n < 32 \<Longrightarrow> 32 * a + m = 32 * b + n \<Longrightarrow> a = (b :: nat)"
  by presburger

lemma inodes_apart:
  assumes r: "sync_ready pf rg sb bf s" and k: "k < NR_INODE" "due pf k s" and l: "l < NR_INODE" "due pf l s" and "k \<noteq> l"
    and "m < 32" and "n < 32"
  shows "inode_addr (BUF s (bf k)) (INODES s (table_inode pf k)) + of_nat m \<noteq>
    inode_addr (BUF s (bf l)) (INODES s (table_inode pf l)) + of_nat n"
proof
  let ?i = "INODES s (table_inode pf k)" and ?j = "INODES s (table_inode pf l)"
  let ?x = "32 * ((ucast (i_num ?i) - 1) mod 32) + of_nat m :: u32" and ?y = "32 * ((ucast (i_num ?j) - 1) mod 32) + of_nat n :: u32"
  assume "inode_addr (BUF s (bf k)) ?i + of_nat m = inode_addr (BUF s (bf l)) ?j + of_nat n"
  then have e: "b_data (BUF s (bf k)) + ?x = b_data (BUF s (bf l)) + ?y" by (simp add: inode_addr_def add.assoc)
  have wk: "writable pf rg (sb k) (bf k) (table_inode pf k) s" and wl: "writable pf rg (sb l) (bf l) (table_inode pf l) s"
    using r k l by (simp_all add: sync_ready_def)
  then have one: "one_buffer_each (BUF s) rg" by (simp add: writable_def cache_inv_def)
  have hk: "b_dev (BUF s (bf k)) = i_dev ?i" "b_block_nr (BUF s (bf k)) = inode_block (SUPER_BLK s (sb k)) ?i"
    using wk unfolding writable_def holdings_Some [OF one] by simp_all
  have hl: "b_dev (BUF s (bf l)) = i_dev ?j" "b_block_nr (BUF s (bf l)) = inode_block (SUPER_BLK s (sb l)) ?j"
    using wl unfolding writable_def holdings_Some [OF one] by simp_all
  have "?x < 1024" "?y < 1024" by (rule block_offset(1) [OF assms(7)], rule block_offset(1) [OF assms(8)])
  then have b: "bf k = bf l" using e k l r unfolding sync_ready_def by blast
  then have "?x = ?y" using e by simp
  then have "unat ?x = unat ?y" by (rule arg_cong)
  then have md: "unat (ucast (i_num ?i) - 1 :: u32) mod 32 = unat (ucast (i_num ?j) - 1 :: u32) mod 32"
    unfolding block_offset(2) [OF assms(7)] block_offset(2) [OF assms(8)] by (rule slot_unique [OF assms(7,8)])
  have dev: "i_dev ?i = i_dev ?j" using hk(1) hl(1) b by simp
  have "sb k = sb l"
  proof (rule ccontr)
    assume "sb k \<noteq> sb l"
    then consider "sb k < sb l" | "sb l < sb k" by linarith
    then show False using wk wl dev unfolding writable_def by cases metis+
  qed
  then have "(ucast (i_num ?i) - 1 :: u32) div 32 = (ucast (i_num ?j) - 1) div 32"
    using hk(2) hl(2) b by (simp add: inode_block_def)
  then have "unat (ucast (i_num ?i) - 1 :: u32) div 32 = unat (ucast (i_num ?j) - 1 :: u32) div 32"
    unfolding div_32 [symmetric] by (rule arg_cong)
  with md have "unat (ucast (i_num ?i) - 1 :: u32) = unat (ucast (i_num ?j) - 1 :: u32)" by (metis div_mult_mod_eq)
  then have "(ucast (i_num ?i) - 1 :: u32) = ucast (i_num ?j) - 1" unfolding word_unat_eq_iff .
  then have "(ucast (i_num ?i) :: u32) = ucast (i_num ?j)" by (metis diff_add_cancel)
  then have "i_num ?i = i_num ?j" unfolding dev_word .
  then show False using r k l assms(6) dev unfolding sync_ready_def by blast
qed

text \<open>The state after the inodes in the slots \<open>D\<close> have been written.\<close>

abbreviation (input) place :: "'a platform \<Rightarrow> (nat \<Rightarrow> u32) \<Rightarrow> 'b fs_scheme \<Rightarrow> nat \<Rightarrow> u32" where
  "place pf bf s k \<equiv> inode_addr (BUF s (bf k)) (INODES s (table_inode pf k))"

definition synced :: "'a platform \<Rightarrow> (nat \<Rightarrow> u32) \<Rightarrow> 'b fs_scheme \<Rightarrow> nat set \<Rightarrow> 'b fs_scheme \<Rightarrow> bool" where
  "synced pf bf s D t \<longleftrightarrow>
     (\<forall>b. BUF t b = (BUF s b)\<lparr>b_dirt := b_dirt (BUF t b)\<rparr>) \<and> SUPER_BLK t = SUPER_BLK s \<and> trace t = trace s \<and>
     BUFFER_FREE_LIST t = BUFFER_FREE_LIST s \<and> BUFFER_HASH_TABLE t = BUFFER_HASH_TABLE s \<and>
     (\<forall>k < NR_INODE. INODES t (table_inode pf k) =
        (if k \<in> D then (INODES s (table_inode pf k))\<lparr>i_dirt := 0\<rparr> else INODES s (table_inode pf k))) \<and>
     (\<forall>k \<in> D. b_dirt (BUF t (bf k)) = 1 \<and>
        (\<forall>n < 32. DATA t (place pf bf s k + of_nat n) = dinode_bytes (INODES s (table_inode pf k)) ! n)) \<and>
     (\<forall>x. (\<forall>k \<in> D. 32 \<le> unat (x - place pf bf s k)) \<longrightarrow> DATA t x = DATA s x)"

lemma length_dinode_bytes [simp]: "length (dinode_bytes i) = 32"
  by (simp add: dinode_bytes_def bytes2_def bytes4_def upt_rec)

lemma buffer_same: "B = A\<lparr>b_dirt := v\<rparr> \<Longrightarrow> b_lock B = b_lock A \<and> b_uptodate B = b_uptodate A \<and> b_count B = b_count A \<and>
    b_data B = b_data A \<and> b_dev B = b_dev A \<and> b_block_nr B = b_block_nr A \<and> b_next B = b_next A \<and> b_prev B = b_prev A \<and>
    b_next_free B = b_next_free A \<and> b_prev_free B = b_prev_free A"
  by simp

lemma buffer_dirt:
  "B = A\<lparr>b_dirt := v\<rparr> \<Longrightarrow> B\<lparr>b_dirt := w\<rparr> = A\<lparr>b_dirt := w\<rparr>"
  "B = A\<lparr>b_dirt := v\<rparr> \<Longrightarrow> B = A\<lparr>b_dirt := b_dirt B\<rparr>"
  by simp_all

lemma synced_writable:
  assumes "synced pf bf s D t" and "m < NR_INODE" "m \<notin> D" and w: "writable pf rg k b (table_inode pf m) s"
  shows "writable pf rg k b (table_inode pf m) t"
proof -
  have i: "INODES t (table_inode pf m) = INODES s (table_inode pf m)" and sb: "SUPER_BLK t = SUPER_BLK s"
    and q: "BUFFER_FREE_LIST t = BUFFER_FREE_LIST s" "BUFFER_HASH_TABLE t = BUFFER_HASH_TABLE s"
    using assms(1-3) by (simp_all add: synced_def)
  have bs: "b_lock (BUF t c) = b_lock (BUF s c) \<and> b_uptodate (BUF t c) = b_uptodate (BUF s c) \<and> b_count (BUF t c) = b_count (BUF s c) \<and>
    b_data (BUF t c) = b_data (BUF s c) \<and> b_dev (BUF t c) = b_dev (BUF s c) \<and> b_block_nr (BUF t c) = b_block_nr (BUF s c) \<and>
    b_next (BUF t c) = b_next (BUF s c) \<and> b_prev (BUF t c) = b_prev (BUF s c) \<and>
    b_next_free (BUF t c) = b_next_free (BUF s c) \<and> b_prev_free (BUF t c) = b_prev_free (BUF s c)" for c
  proof -
    have "BUF t c = (BUF s c)\<lparr>b_dirt := b_dirt (BUF t c)\<rparr>" using assms(1) unfolding synced_def by blast
    then show ?thesis by (rule buffer_same)
  qed
  have c: "cache_inv s rg" using w by (simp add: writable_def)
  have c': "cache_inv t rg" by (rule cache_inv_same [OF c _ q]) (simp add: same_place_def bs)
  have one: "one_buffer_each (BUF s) rg" "one_buffer_each (BUF t) rg" using c c' by (simp_all add: cache_inv_def)
  have h: "holdings (BUF t) rg p = Some b \<longleftrightarrow> holdings (BUF s) rg p = Some b" for p
    by (cases p) (simp add: holdings_Some [OF one(1)] holdings_Some [OF one(2)] bs)
  show ?thesis using w c' unfolding writable_def i sb h by (simp add: bs)
qed

lemma synced_flag: "synced pf bf s D (t\<lparr>int_flag := v\<rparr>) = synced pf bf s D t"
  by (simp add: synced_def)

lemma waitOnInode_open:
  "i_lock (INODES s inode) = 0 \<Longrightarrow> 0 < pf_fuel pf \<Longrightarrow> waitOnInode pf inode s = Inr (s\<lparr>int_flag := True\<rparr>)"
  by (simp add: waitOnInode_def wait_loop_now io_defs)

lemma store_bytes_out: "32 \<le> unat (x - a) \<Longrightarrow> length bs = 32 \<Longrightarrow> DATA (store_bytes a bs s) x = DATA s x"
  by (simp add: store_bytes_def)

lemma store_bytes_in: "n < 32 \<Longrightarrow> length bs = 32 \<Longrightarrow> DATA (store_bytes a bs s) (a + of_nat n) = bs ! n"
  by (simp add: store_bytes_def unat_of_nat_u32)

lemma synced_insert:
  assumes r: "sync_ready pf rg sb bf s" and m: "m < NR_INODE" "m \<notin> D" "due pf m s" and D: "\<forall>k \<in> D. k < NR_INODE \<and> due pf k s"
    and t: "synced pf bf s D t" and w: "written_back (bf m) (table_inode pf m) t t'"
  shows "synced pf bf s (insert m D) t'"
proof -
  let ?i = "INODES s (table_inode pf m)"
  note t = t [unfolded synced_def] and w = w [unfolded written_back_def]
  have i: "INODES t (table_inode pf m) = ?i" using t m by simp
  have bd: "b_data (BUF t c) = b_data (BUF s c)" for c
  proof -
    have "BUF t c = (BUF s c)\<lparr>b_dirt := b_dirt (BUF t c)\<rparr>" using t by blast
    then show ?thesis using buffer_same by blast
  qed
  have d: "DATA t' = DATA (store_bytes (place pf bf s m) (dinode_bytes ?i) t)"
    using w i bd [of "bf m"] by (simp add: inode_addr_def)
  have B: "BUF t' = (BUF t)(bf m := (BUF t (bf m))\<lparr>b_dirt := 1\<rparr>)" using w by simp
  have "BUF t' b = (BUF s b)\<lparr>b_dirt := b_dirt (BUF t' b)\<rparr>" for b
  proof -
    have "BUF t b = (BUF s b)\<lparr>b_dirt := b_dirt (BUF t b)\<rparr>" using t by blast
    note u = buffer_dirt(1) [OF this, of 1]
    show ?thesis
    proof (cases "b = bf m")
      case True
      have "BUF t' b = (BUF s b)\<lparr>b_dirt := 1\<rparr>" using u unfolding B True fun_upd_same .
      then show ?thesis by (rule buffer_dirt(2))
    next
      case False
      then have "BUF t' b = BUF t b" unfolding B by simp
      then show ?thesis using \<open>BUF t b = (BUF s b)\<lparr>b_dirt := b_dirt (BUF t b)\<rparr>\<close> by metis
    qed
  qed
  moreover have "INODES t' (table_inode pf k) = (if k \<in> insert m D then (INODES s (table_inode pf k))\<lparr>i_dirt := 0\<rparr>
      else INODES s (table_inode pf k))" if k: "k < NR_INODE" for k
  proof (cases "k = m")
    case True
    have "INODES t' = (INODES t)(table_inode pf m := (INODES t (table_inode pf m))\<lparr>i_dirt := 0\<rparr>)" using w by simp
    then show ?thesis unfolding True i by simp
  next
    case False
    have "INODES t' = (INODES t)(table_inode pf m := (INODES t (table_inode pf m))\<lparr>i_dirt := 0\<rparr>)" using w by simp
    then have "INODES t' (table_inode pf k) = INODES t (table_inode pf k)" using table_inode_inj [OF k m(1), of pf] False by auto
    then show ?thesis using t k False by simp
  qed
  moreover have "b_dirt (BUF t' (bf k)) = 1" if "k \<in> insert m D" for k
    using that t unfolding B by auto
  moreover have "DATA t' (place pf bf s k + of_nat n) = dinode_bytes (INODES s (table_inode pf k)) ! n"
    if k: "k \<in> insert m D" and n: "n < 32" for k n
  proof (cases "k = m")
    case True
    then show ?thesis unfolding d by (simp add: store_bytes_in [OF n])
  next
    case False
    then have kD: "k \<in> D" using k by simp
    have "32 \<le> unat (place pf bf s k + of_nat n - place pf bf s m)"
    proof (rule ccontr)
      assume "\<not> ?thesis"
      then have l: "unat (place pf bf s k + of_nat n - place pf bf s m) < 32" by simp
      have "place pf bf s k + of_nat n \<noteq> place pf bf s m + of_nat (unat (place pf bf s k + of_nat n - place pf bf s m))"
        using D kD m False l n by (intro inodes_apart [OF r]) auto
      then show False by simp
    qed
    then have "DATA t' (place pf bf s k + of_nat n) = DATA t (place pf bf s k + of_nat n)"
      unfolding d by (rule store_bytes_out) simp
    then show ?thesis using t kD n by simp
  qed
  moreover have "DATA t' x = DATA s x" if x: "\<forall>k \<in> insert m D. 32 \<le> unat (x - place pf bf s k)" for x
  proof -
    have "DATA t' x = DATA t x" unfolding d by (rule store_bytes_out) (use x in auto)
    then show ?thesis using t x by simp
  qed
  ultimately show ?thesis unfolding synced_def using w t by simp
qed

lemma sync_step:
  assumes r: "sync_ready pf rg sb bf s" and m: "m < NR_INODE" and t: "synced pf bf s {k. k < m \<and> due pf k s} t"
  shows "\<exists>t'. sync_inode (bread pf) pf m t = Inr t' \<and> synced pf bf s {k. k < Suc m \<and> due pf k s} t'"
proof -
  let ?D = "{k. k < m \<and> due pf k s}"
  define u where "u = t\<lparr>int_flag := True\<rparr>"
  have u: "synced pf bf s ?D u" using t by (simp add: u_def synced_flag)
  have i: "INODES t (table_inode pf m) = INODES s (table_inode pf m)" using t m by (simp add: synced_def)
  have f: "0 < pf_fuel pf" "i_lock (INODES s (table_inode pf m)) = 0" using r m by (simp_all add: sync_ready_def)
  have w: "waitOnInode pf (table_inode pf m) t = Inr u" unfolding u_def using f i by (intro waitOnInode_open) simp_all
  have iu: "INODES u (table_inode pf m) = INODES s (table_inode pf m)" using i by (simp add: u_def)
  have run: "sync_inode (bread pf) pf m t = (if due pf m s then writeInode pf (table_inode pf m) u else Inr u)"
    using w iu by (simp add: sync_inode_def Let_def due_def writeInode_def)
  show ?thesis
  proof (cases "due pf m s")
    case False
    then have "{k. k < Suc m \<and> due pf k s} = ?D" by (auto simp: less_Suc_eq)
    then show ?thesis using run u False by simp
  next
    case True
    have "writable pf rg (sb m) (bf m) (table_inode pf m) u"
      by (rule synced_writable [OF u m]) (use r m True in \<open>auto simp: sync_ready_def\<close>)
    then obtain t' where t': "writeInode pf (table_inode pf m) u = Inr t'" "written_back (bf m) (table_inode pf m) u t'"
      using writeInode_written by blast
    have "synced pf bf s (insert m ?D) t'"
      by (rule synced_insert [OF r m _ True _ u t'(2)]) (use m in auto)
    moreover have "{k. k < Suc m \<and> due pf k s} = insert m ?D" using True by (auto simp: less_Suc_eq)
    ultimately show ?thesis using run t'(1) True by simp
  qed
qed

lemma syncInodes_synced:
  assumes r: "sync_ready pf rg sb bf s"
  shows "\<exists>t. syncInodes pf s = Inr t \<and> synced pf bf s {k. k < NR_INODE \<and> due pf k s} t"
proof -
  have "m \<le> NR_INODE \<Longrightarrow> \<exists>t. each (sync_inode (bread pf) pf) [0..<m] s = Inr t \<and> synced pf bf s {k. k < m \<and> due pf k s} t" for m
  proof (induction m)
    case 0
    show ?case by (simp add: synced_def)
  next
    case (Suc m)
    then obtain t where t: "each (sync_inode (bread pf) pf) [0..<m] s = Inr t" "synced pf bf s {k. k < m \<and> due pf k s} t" by auto
    from sync_step [OF r _ t(2)] Suc.prems obtain t' where "sync_inode (bread pf) pf m t = Inr t'"
      "synced pf bf s {k. k < Suc m \<and> due pf k s} t'" by auto
    moreover have "[0..<Suc m] = [0..<m] @ [m]" by simp
    ultimately show ?case using t(1) by (simp only: each_append andThen_simps each.simps) simp
  qed
  from this [of NR_INODE] show ?thesis by (simp only: syncInodes_def syncInodes_with_def order.refl simp_thms)
qed

subsection \<open>The properties of writing inodes\<close>

text \<open>C31. \<open>getSuper\<close>, whatever the other processes do while it waits: the super block it returns is in the table, belongs to the device,
  and is not locked.\<close>

theorem getSuper_sound:
  assumes "getSuper pf dev s = Inr (Some k, s')"
  shows "dev \<noteq> 0 \<and> k < 8 \<and> ucast (s_dev (SUPER_BLK s' k)) = dev \<and> s_lock (SUPER_BLK s' k) = 0 \<and> int_flag s'"
  using assms super_loop_sound [of "pf_fuel pf" pf dev 0 s k s'] by (auto simp: getSuper_def split: if_splits)

text \<open>A table with one super block, and an inode of its device that has been changed.\<close>

definition some_super :: "nat \<Rightarrow> super_block" where
  "some_super k = (SUPER_BLK fs_boot k)\<lparr>s_dev := if k = 0 then 0x300 else 0\<rparr>"

definition changed_inode :: minode where
  "changed_inode = zero_inode\<lparr>i_mode := 0x81A4, i_size := 0x12345, i_dev := 0x300, i_num := 4, i_dirt := 1\<rparr>"

definition inode_table_with :: "u32 \<Rightarrow> minode" where
  "inode_table_with a = (if a = 0x30000 then changed_inode else zero_inode)"

lemma some_super_simps:
  "s_dev (some_super k) = (if k = 0 then 0x300 else 0)" "s_lock (some_super k) = 0"
  "s_imap_blocks (some_super k) = 0" "s_zmap_blocks (some_super k) = 0"
  by (simp_all add: some_super_def fs_boot_def blk.defs)

theorem getSuper_sound_witness:
  "\<exists>s'. getSuper (some_platform Inr) 0x300 (fs_boot\<lparr>SUPER_BLK := some_super\<rparr>) = Inr (Some 0, s') \<and>
    ucast (s_dev (SUPER_BLK s' 0)) = (0x300 :: u32) \<and> s_lock (SUPER_BLK s' 0) = 0"
proof -
  have g: "getSuper (some_platform Inr) 0x300 (fs_boot\<lparr>SUPER_BLK := some_super\<rparr>) =
      Inr (Some 0, fs_boot\<lparr>SUPER_BLK := some_super\<rparr>\<lparr>int_flag := True\<rparr>)"
    by (rule getSuper_first) (simp_all add: some_super_simps some_platform_def)
  from getSuper_sound [OF g] show ?thesis using g by blast
qed

text \<open>C6. \<open>syncInodes\<close> when nothing has to be waited for: it returns, every dirty inode that is not a pipe has its fields
  at its place in its block, in the layout of the disk, the block's buffer is marked dirty and the inode clean; the other inodes, all
  other bytes of the blocks and the ports are as they were. Nothing has to be waited for when no inode of the table is locked and, for
  every dirty inode that is not a pipe, its device is not 0 and has an unlocked super block in the table (the first entry for the device
  counts), and its block is in the buffer cache, whose invariant holds, in a buffer that is valid, not locked and has less than 255 users;
  the 1024 bytes of two such blocks are apart, and no two of these inodes are the same inode of a device. In particular no write of
  such a block is under way, as there is when \<open>syncDev\<close> has just started one: then the call waits for the buffer. The fuel covers
  the walk over a chain and the table of super blocks.\<close>

theorem syncInodes_stores:
  assumes "sync_ready pf rg sb bf s"
  shows "\<exists>s'. syncInodes pf s = Inr s' \<and> trace s' = trace s \<and>
    (\<forall>k < 32. let a = inode_table pf + 56 * of_nat k; i = INODES s a in
       if due pf k s
       then INODES s' a = i\<lparr>i_dirt := 0\<rparr> \<and> inode_at (DATA s') (inode_addr (BUF s (bf k)) i) i \<and> b_dirt (BUF s' (bf k)) = 1
       else INODES s' a = i) \<and>
    (\<forall>x. (\<forall>k < 32. due pf k s \<longrightarrow> 32 \<le> unat (x - inode_addr (BUF s (bf k)) (INODES s (inode_table pf + 56 * of_nat k)))) \<longrightarrow>
       DATA s' x = DATA s x)"
proof -
  obtain t where t: "syncInodes pf s = Inr t" "synced pf bf s {k. k < NR_INODE \<and> due pf k s} t"
    using syncInodes_synced [OF assms] by blast
  have "inode_at (DATA t) (place pf bf s k) (INODES s (table_inode pf k))" if "k < 32" "due pf k s" for k
    using t(2) that by (intro dinode_bytes_at) (simp add: synced_def)
  then show ?thesis using t by (auto simp: synced_def Let_def)
qed

theorem syncInodes_stores_witness:
  "\<exists>(s :: fs) s'. syncInodes (some_platform Inr) s = Inr s' \<and> inode_at (DATA s') (b_data (BUF s 0x100000) + 96) changed_inode \<and>
    i_dirt (INODES s' 0x30000) = 0"
proof -
  obtain s :: fs and rg where s: "cache_inv s rg" "length rg = 989" "holdings (BUF s) rg (0x300, 2) = Some 0x100000"
    "b_lock (BUF s 0x100000) = 0" "b_uptodate (BUF s 0x100000) = 1" "b_count (BUF s 0x100000) = 1"
    using one_block_cached by blast
  let ?pf = "some_platform Inr :: fs platform" and ?s = "s\<lparr>SUPER_BLK := some_super, INODES := inode_table_with\<rparr>"
  have pf: "inode_table ?pf = 0x30000" "pf_fuel ?pf = 4225" by (simp_all add: some_platform_def)
  have i: "INODES ?s (inode_table ?pf + 56 * of_nat k) = (if k = 0 then changed_inode else zero_inode)" if "k < 32" for k
    using table_inode_inj [of k 0 ?pf] that by (auto simp: inode_table_with_def pf)
  have d: "due ?pf k ?s \<longleftrightarrow> k = 0" if "k < 32" for k
    unfolding due_def i [OF that] by (simp add: changed_inode_def zero_inode_def)
  have blk: "inode_block (some_super 0) changed_inode = 2" by (simp add: inode_block_def some_super_simps changed_inode_def zero_inode_def)
  have ci: "i_lock changed_inode = 0" "i_dirt changed_inode = 1" "i_dev changed_inode = 0x300"
    by (simp_all add: changed_inode_def zero_inode_def)
  have c: "cache_inv ?s rg" by (rule cache_inv_same [OF s(1)]) (simp_all add: same_place_def)
  have "writable ?pf rg 0 0x100000 (inode_table ?pf + 56 * of_nat 0) ?s"
    unfolding writable_def using c s i [of 0] ci by (simp add: some_super_simps blk pf)
  moreover have "i_lock (INODES ?s (inode_table ?pf + 56 * of_nat k)) = 0" if "k < 32" for k
    unfolding i [OF that] using ci(1) by (simp add: zero_inode_def)
  moreover have "0 < pf_fuel ?pf" by (simp add: pf)
  ultimately have "sync_ready ?pf rg (\<lambda>_. 0) (\<lambda>_. 0x100000) ?s"
    unfolding sync_ready_def using d by (metis (no_types, lifting))
  from syncInodes_stores [OF this] obtain s' where s': "syncInodes ?pf ?s = Inr s'"
    "\<forall>k < 32. let a = inode_table ?pf + 56 * of_nat k; i = INODES ?s a in
       if due ?pf k ?s
       then INODES s' a = i\<lparr>i_dirt := 0\<rparr> \<and> inode_at (DATA s') (inode_addr (BUF ?s 0x100000) i) i \<and> b_dirt (BUF s' 0x100000) = 1
       else INODES s' a = i" by blast
  have "INODES s' 0x30000 = changed_inode\<lparr>i_dirt := 0\<rparr> \<and> inode_at (DATA s') (inode_addr (BUF ?s 0x100000) changed_inode) changed_inode"
    using spec [OF s'(2), of 0] d [of 0] i [of 0] by (simp add: Let_def pf)
  moreover have "inode_addr (BUF ?s 0x100000) changed_inode = b_data (BUF s 0x100000) + 96"
    by (simp add: inode_addr_def changed_inode_def zero_inode_def)
  ultimately show ?thesis using s'(1) by (intro exI [of _ ?s] exI [of _ s']) simp
qed

end
