(* ===== verification/Spec2Isabelle.thy ===== *)
theory Spec2Isabelle
  imports Clock Tty Print Keyboard Memory Fork Steps Elevator Locks Boot Programs Reading Entry Writing
begin

text \<open>
  A verification library for a small 32-bit protected-mode kernel for the PC, written in C with assembly
  around it. All paths below are relative to \<^verbatim>\<open>src/\<close>.

  \<^bold>\<open>The program.\<close> The boot loader switches to protected mode, builds a table of descriptors and jumps to
  \<open>cinit\<close>, which copies the table, fills the interrupt table and starts the parts one after the other:
  clock, page map, buffer cache, processes, block devices, disk, terminals. \<open>cmain\<close> then runs as
  process 0: it forks, the child sets up the disk and the parent pauses for ever. From there on everything
  happens in system calls and interrupts: the timer charges the running process and calls the scheduler, the
  keyboard puts characters into the queue of terminal 0, a write to a file that is a terminal goes through the
  output processing to the console, a block is looked up in the buffer cache and, when it is not there, requested
  from the disk, whose interrupt routines move the sectors.

  \<^bold>\<open>How the state is modelled.\<close> One record per part, each extending the one below it, so that an operation is
  defined on the smallest record that has its variables and applies to every larger one: \<open>io\<close> (port trace,
  interrupt flag), \<open>prot\<close> (GDT, IDT, IRQ handlers), \<open>clock\<close>, \<open>console\<close> (terminals, cursor, display memory),
  \<open>keyboard\<close>, \<open>memory\<close> (page map, words of memory), \<open>kernel\<close> (processes, files, inodes, wait queues), \<open>blk\<close>
  (requests, drives, buffers, bytes of memory), \<open>fs\<close> (buffer ring, hash table, super blocks) and \<open>sys\<close>
  (registers of the processor). Integers are words of the width of the source. Pointers are 32-bit addresses: a
  structure that is reached by pointer lives in a map from its address. What the kernel runs on is a record
  \<open>platform\<close> of parameters: the devices as functions of the trace of accesses, the strings at addresses and
  the bytes of the stack in front of the table of digits (\<open>texts\<close>), the
  addresses the linker gives to the tables, what the other processes do while one sleeps, and the fuel.

  \<^bold>\<open>How failure is modelled.\<close> A routine that can go wrong returns \<open>stop + 'a\<close>: \<open>Fault\<close> for an access outside an
  array, through a null pointer or to a missing value, \<open>Hang\<close> for the kernel's own endless loops, \<open>NoFuel\<close> for a
  loop that is given a bound. Every early return and every loop of that kind is a branch of the model. A few
  accesses through the null pointer have a definite effect on this machine, since address 0 holds the page
  directory (the signals of an empty slot, the head of an empty hash chain); they are modelled as that effect.
  \<open>number\<close> reads in front of its table of digits when a value that is printed as unsigned has its top bit
  set; the code goes on with the bytes it finds there, and so does the model, with the parameter \<open>in_front\<close> for
  these bytes.

  \<^bold>\<open>The theories.\<close>
  \<^item> \<open>Prelude\<close>: words, outcomes, folds that may stop. \<open>Io\<close>: \<^verbatim>\<open>lib/klib.asm\<close>, ports and interrupt flag.
  \<^item> \<open>Protect\<close>: \<^verbatim>\<open>kernel/protect.c\<close>, \<^verbatim>\<open>include/protect.h\<close>, descriptors, gates, interrupt controllers. Lemmas: the
    fields of a packed descriptor read back, the gate of every vector.
  \<^item> \<open>Clock\<close>: \<^verbatim>\<open>kernel/time.c\<close>. Lemmas: agreement of \<open>mkTime\<close> with the Gregorian calendar, BCD.
  \<^item> \<open>Queue\<close>, \<open>Console\<close>, \<open>Tty\<close>: \<^verbatim>\<open>kernel/chr_drv/tty.c\<close>, \<^verbatim>\<open>console.c\<close>, \<^verbatim>\<open>serial.c\<close>. The queue is refined to
    a list, the console to an abstract terminal (a grid of cells with a cursor), and \<open>ttyWrite\<close> delivers the
    post-processed text to whatever driver satisfies the locale of drivers.
  \<^item> \<open>Print\<close>: \<^verbatim>\<open>kernel/print.c\<close>. Lemmas: the digits of \<open>number\<close> denote the number, and how many
    bytes in front of the table take their place when it has its top bit; plain text and conversions.
  \<^item> \<open>Keyboard\<close>: \<^verbatim>\<open>kernel/chr_drv/keyboard.c\<close>, from scan code to queue.
  \<^item> \<open>Memory\<close>: \<^verbatim>\<open>mm/memory.c\<close>. Lemmas: what the allocator owns, what a page table maps, sharing and copying, for
    process 0 (160 entries) as for the others (1024).
  \<^item> \<open>Process\<close>, \<open>Sched\<close>, \<open>Fork\<close>: \<^verbatim>\<open>kernel/process.c\<close>, \<^verbatim>\<open>kernel/signal.c\<close>, \<^verbatim>\<open>kernel/krn.asm\<close>. Lemmas: the
    choice of the scheduler, the timer's slice, sleeping and waking, what a fork builds, from process 0 or another
    process with one page table at most. \<open>Steps\<close>: sequences of ticks, sleeps, wake-ups, pauses and forks from
    the start of the kernel, and the invariant of the table of processes that makes the pages a fork takes fresh.
  \<^item> \<open>Request\<close>, \<open>Harddisk\<close>, \<open>Blk\<close>, \<open>Disk\<close>, \<open>Elevator\<close>: \<^verbatim>\<open>kernel/blk_drv/ll_rw_blk.c\<close>, \<^verbatim>\<open>harddisk.c\<close>. Lemmas: the
    commands a request sends, the sectors that arrive, the order of the queue.
  \<^item> \<open>Buffer\<close>, \<open>Inode\<close>: \<^verbatim>\<open>fs/buffer.c\<close>, \<^verbatim>\<open>fs/inode.c\<close>, \<^verbatim>\<open>fs/super.c\<close>. \<open>Cache\<close>: the invariant of the cache (one ring,
    chains that hold exactly the buffers of their hash value, no block twice) and that unlinking, linking and
    reassigning a buffer keep it. \<open>Caching\<close>: the cache for its clients, a map from blocks to buffers.
  \<^item> \<open>Kernel\<close>: \<^verbatim>\<open>fs/read_write.c\<close>, \<^verbatim>\<open>fs/char_dev.c\<close>, \<^verbatim>\<open>kernel/int_handler.c\<close>, \<^verbatim>\<open>kernel/main.c\<close>, \<^verbatim>\<open>init/cinit.c\<close>.
  \<^item> \<open>Entry\<close>: \<^verbatim>\<open>kernel/int.asm\<close>, the code between a gate and the handlers, and what happens before the interrupted
    program goes on. Lemmas: page faults, timer interrupts one after the other until the slice is used up, what an
    exception reports, and the way from a fork to the child. \<open>Writing\<close>: the search for a super block, and where the
    fields of the inodes are after \<open>syncInodes\<close>.
  \<^item> \<open>Locks\<close>, \<open>Boot\<close>, \<open>Programs\<close>, \<open>Reading\<close>: the parts together: what the sleeping locks guarantee their users,
    what \<open>cinit\<close> establishes, what a program's \<open>printf\<close> shows (the text in process 0, other bytes of the kernel in
    every other process, whose segments do not start at address 0), and the way of a
    block from the cache through the request queue to the disk.

  \<^bold>\<open>Interfaces.\<close> The locales state what one part relies on in another, and each is interpreted on the model: the
  queue of characters for its two users (\<open>Queue\<close>), a terminal driver for the output processing (\<open>Tty\<close>), a pool of
  pages (\<open>Memory\<close>), the locks that a process sleeps on for buffers, inodes and super blocks (\<open>Locks\<close>). The steps
  of the table of processes are an inductive relation (\<open>Steps\<close>), and the order of the disk's queue is an instance of
  the library's linear orders (\<open>Elevator\<close>).

  \<^bold>\<open>Bounds and fuel.\<close> The scan for a process number needs at most 65 rounds of 65 slots (4225). A write of \<open>n\<close>
  characters to the console needs \<open>2 * n\<close> turns, so 1022 are enough for the 511 characters of \<open>printk\<close> and
  \<open>printf\<close>. \<open>schedule\<close> needs two rounds when the best process has a positive priority, and no number of rounds
  otherwise. At most 15360 buffers are laid out, so 15361 rounds end the loop. The walks over a chain and the ring
  need as many steps as the ring has buffers, and one more. \<open>getblk\<close>, \<open>bread\<close>, \<open>syncDev\<close> and \<open>syncInodes\<close> call
  each other; the nesting is bounded by the fuel, and one level is enough where no dirty buffer has to be written.
  Theorems that a routine returns state the fuel they need; theorems that it does not return hold for every fuel.

  \<^bold>\<open>Not modelled.\<close> The boot loader (16-bit assembly), the registers that an entry of an interrupt saves and loads
  again, and the code of user programs other than \<open>cmain\<close>. What a register holds that the code reads by mistake is a
  parameter (ESI in \<open>portWrite\<close>, EAX after the scheduler in the entry of system calls). \<open>ttyRead\<close>
  has an empty body: reading from a terminal is undefined. Other processes and interrupts act only where a
  process gives up the processor, through the parameter \<open>pf_others\<close>. The words of memory that page tables and
  page copies use (\<open>ram\<close>) and the bytes that disk transfers and \<open>printf\<close> use (\<open>DATA\<close>, by linear address) are
  separate maps: no theorem relates a page to a buffer except through their addresses, and \<open>DATA\<close> does not follow
  the page tables. A fork is described for a parent with one page table, at most four megabytes; the programs of
  the kernel have 640 KB.
\<close>

end
